(* ===== verification/Prelude.thy ===== *)
theory Prelude
  imports Main "HOL-Library.Word" "HOL-Library.Monad_Syntax"
begin

text \<open>
  Shared ground of the development: the machine types of the C++ sources
  (\<open>size_t\<close>, \<open>uint8_t\<close> to \<open>uint64_t\<close>) as words of the same width, byte strings
  as lists of 8-bit words, the fact collections that move a statement about words to
  natural numbers, and a generic notion of reachable state with its invariant rule.
\<close>

unbundle bit_operations_syntax

section \<open>Machine types\<close>

type_synonym u8 = "8 word"
type_synonym u16 = "16 word"
type_synonym u32 = "32 word"
type_synonym u64 = "64 word"
type_synonym size_t = "64 word"
type_synonym byte = "8 word"
type_synonym bytes = "8 word list"

text \<open>\<open>std::string::size()\<close>: the length as a \<open>size_t\<close>.\<close>

definition str_size :: "bytes \<Rightarrow> size_t" where
  "str_size s = of_nat (length s)"

text \<open>\<open>std::string::substr(pos, n)\<close> for a \<open>pos\<close> inside the string.\<close>

definition substr :: "bytes \<Rightarrow> size_t \<Rightarrow> size_t \<Rightarrow> bytes" where
  "substr s pos n = take (unat n) (drop (unat pos) s)"

text \<open>\<open>std::string::resize\<close>\<close>

definition str_resize :: "nat \<Rightarrow> bytes \<Rightarrow> bytes" where
  "str_resize n s = take n s @ replicate (n - length s) 0"

text \<open>The implicit conversion of a \<open>bool\<close> to an integer.\<close>

definition b2w :: "bool \<Rightarrow> 'a::len word" where
  "b2w b = (if b then 1 else 0)"

text \<open>
  The C++ exceptions the sources throw, as the left part of a result; \<open>Unix_error\<close> holds the
  name of a system call and its error number, \<open>Undefined\<close> marks an access the language leaves
  undefined.
\<close>

datatype exn = Out_of_range | Runtime_error string | Unix_error string int | Undefined

type_synonym 'a res = "exn + 'a"

section \<open>Words as natural numbers\<close>

named_theorems word_nat \<open>facts that rewrite comparisons of words to natural numbers\<close>
named_theorems model_defs \<open>unfolding rules of small accessors\<close>

declare word_le_nat_alt [word_nat] word_less_nat_alt [word_nat] word_unat_eq_iff [word_nat]

lemma b2w_simps [simp]: "b2w True = 1" "b2w False = 0"
  by (simp_all add: b2w_def)

lemma unat_b2w [simp]: "unat (b2w b :: 'a::len word) = (if b then 1 else 0)"
  by (simp add: b2w_def)

lemma unat_of_nat_small: "n < 2 ^ LENGTH('a) \<Longrightarrow> unat (of_nat n :: 'a::len word) = n"
  by (simp add: unat_of_nat)

lemma unat_of_nat_64: "n < 2 ^ 64 \<Longrightarrow> unat (of_nat n :: 64 word) = n"
  by (rule unat_of_nat_small) simp

lemma unat_str_size: "length s < 2 ^ 64 \<Longrightarrow> unat (str_size s) = length s"
  by (simp add: str_size_def unat_of_nat)

lemma unat_add_small:
  "unat a + unat b < 2 ^ LENGTH('a) \<Longrightarrow> unat (a + b) = unat a + unat (b :: 'a::len word)"
  by (simp add: unat_plus_if')

lemma unat_min: "unat (min a b) = min (unat a) (unat (b :: 'a::len word))"
  by (simp add: min_def word_le_nat_alt)

lemma unat_max: "unat (max a b) = max (unat a) (unat (b :: 'a::len word))"
  by (simp add: max_def word_le_nat_alt)

lemma unat_lt2p: "unat (x :: 'a::len word) < 2 ^ LENGTH('a)"
  by (rule unsigned_less)

lemma unat_lt_64: "unat (x :: 64 word) < 18446744073709551616"
  using unat_lt2p [of x] by simp

lemma unat_lt_32: "unat (x :: 32 word) < 4294967296"
  using unat_lt2p [of x] by simp

lemma unat_lt_16: "unat (x :: 16 word) < 65536"
  using unat_lt2p [of x] by simp

lemma unat_lt_8: "unat (x :: 8 word) < 256"
  using unat_lt2p [of x] by simp

lemma word_eq_unatI: "unat a = unat b \<Longrightarrow> a = (b :: 'a::len word)"
  by (simp add: word_unat_eq_iff)

lemma eq_of_natI: "unat x = k \<Longrightarrow> x = (of_nat k :: 'a::len word)"
  by auto

lemma of_nat_neq_0_small: "0 < k \<Longrightarrow> k < 2 ^ LENGTH('a) \<Longrightarrow> (of_nat k :: 'a::len word) \<noteq> 0"
  using unat_of_nat_small [of k, where 'a = 'a] by (metis less_numeral_extra(3) unat_0)

lemma unat_not: "unat (NOT x) = 2 ^ LENGTH('a) - 1 - unat (x :: 'a::len word)"
proof -
  have "NOT x = - 1 - x" by (simp add: not_eq_complement)
  moreover have "x \<le> - 1" by simp
  moreover have "unat (- 1 :: 'a word) = 2 ^ LENGTH('a) - 1"
    by (simp add: unsigned_minus_1_eq_mask mask_eq_exp_minus_1)
  ultimately show ?thesis by (simp only: unat_sub)
qed

lemma nat_mod_cancel: "(a + x) mod m = (a + y) mod m \<Longrightarrow> x mod m = y mod (m :: nat)"
  by (auto simp: nat_mod_eq_iff)

lemma of_nat_le_small:
  "m < 2 ^ LENGTH('a) \<Longrightarrow> n < 2 ^ LENGTH('a) \<Longrightarrow> (of_nat m :: 'a::len word) \<le> of_nat n \<longleftrightarrow> m \<le> n"
  by (simp only: word_le_nat_alt unat_of_nat_small)

lemma of_nat_less_small:
  "m < 2 ^ LENGTH('a) \<Longrightarrow> n < 2 ^ LENGTH('a) \<Longrightarrow> (of_nat m :: 'a::len word) < of_nat n \<longleftrightarrow> m < n"
  by (simp only: word_less_nat_alt unat_of_nat_small)

subsection \<open>High part and low part of a word\<close>

lemma and_not_mask: "x AND NOT (mask n) = push_bit n (drop_bit n (x :: 'a::len word))"
  by (rule bit_eqI) (auto simp: bit_simps)

lemma unat_and_not_mask:
  "unat (x AND NOT (mask n)) = push_bit n (drop_bit n (unat (x :: 'a::len word)))"
  unfolding and_not_mask
  by (rule bit_eqI) (auto simp: bit_simps bit_imp_le_length)

lemma push_bit_or_nat:
  fixes k :: nat
  assumes "k < 2 ^ n"
  shows "push_bit n m OR k = m * 2 ^ n + k"
proof -
  have "take_bit n k = k" using assms by (simp add: take_bit_nat_eq_self)
  then have "\<not> (bit (push_bit n m) i \<and> bit k i)" for i
    by (metis bit_push_bit_iff bit_take_bit_iff linorder_not_less)
  then have "push_bit n m + k = push_bit n m OR k"
    by (intro disjunctive_add_eq_or bit_eqI) (auto simp: bit_simps)
  then show ?thesis by (simp add: push_bit_eq_mult)
qed

lemma unat_high_or_low:
  fixes x y :: "'a::len word"
  assumes "unat y < 2 ^ n"
  shows "unat ((x AND NOT (mask n)) OR y) = unat x div 2 ^ n * 2 ^ n + unat y"
  using assms by (simp add: unsigned_or_eq unat_and_not_mask push_bit_or_nat drop_bit_eq_div)

lemma unat_and_mask: "unat (x AND mask n) = unat (x :: 'a::len word) mod 2 ^ n"
proof -
  have "unat (take_bit n x) = take_bit n (unat x)"
    by (rule bit_eqI) (auto simp: bit_simps bit_imp_le_length)
  then show ?thesis by (simp add: take_bit_eq_mask [symmetric] take_bit_eq_mod)
qed

lemma unat_ucast_up:
  "LENGTH('a) \<le> LENGTH('b) \<Longrightarrow> unat (ucast (x :: 'a::len word) :: 'b::len word) = unat x"
  using order.strict_trans2 [OF unat_lt2p [of x], of "2 ^ LENGTH('b)"]
  by (simp add: unsigned_ucast_eq take_bit_nat_eq_self)

lemma unat_ucast_down: "unat (ucast (x :: 'a::len word) :: 'b::len word) = unat x mod 2 ^ LENGTH('b)"
  by (simp add: unsigned_ucast_eq take_bit_eq_mod)

section \<open>Reachable states\<close>

inductive reachable :: "('s \<Rightarrow> bool) \<Rightarrow> ('s \<Rightarrow> 's \<Rightarrow> bool) \<Rightarrow> 's \<Rightarrow> bool"
  for init :: "'s \<Rightarrow> bool" and step :: "'s \<Rightarrow> 's \<Rightarrow> bool" where
  reach_init: "init s \<Longrightarrow> reachable init step s"
| reach_step: "reachable init step s \<Longrightarrow> step s t \<Longrightarrow> reachable init step t"

text \<open>
  The interface of every state machine of the development: the states it starts in, its
  steps, and an invariant that both respect.
\<close>

locale invariant_system =
  fixes init :: "'s \<Rightarrow> bool"
    and step :: "'s \<Rightarrow> 's \<Rightarrow> bool"
    and inv :: "'s \<Rightarrow> bool"
  assumes init_inv: "init s \<Longrightarrow> inv s"
    and step_inv: "inv s \<Longrightarrow> step s t \<Longrightarrow> inv t"
begin

lemma reachable_inv: "reachable init step s \<Longrightarrow> inv s"
  by (induction rule: reachable.induct) (auto intro: init_inv step_inv)

end

end
