(* ===== verification/Byte_Stream.thy ===== *)
theory Byte_Stream
  imports Prelude
begin

text \<open>
  \<open>libsponge/byte_stream.hh\<close> and \<open>.cc\<close>: the bounded in-memory byte stream, a ring buffer
  \<open>buf\<close> of \<open>_capacity\<close> bytes with a write position \<open>_front\<close>, a read position \<open>_rear\<close> and
  a fill count. The section on refinement shows that the ring buffer implements a bounded
  first-in first-out queue of bytes; the locale \<open>byte_fifo\<close> is the contract that the
  reassembler, the sender and the receiver rely on. Allocation failure of the constructor
  is not modelled: streams have a capacity below \<open>2 ^ 63\<close>, the largest size of a
  \<open>std::string\<close>.
\<close>

section \<open>Model\<close>

record ByteStream =
  bs_buf :: bytes
  bs_capacity :: size_t
  bs_front :: size_t
  bs_rear :: size_t
  bs_cur_size :: size_t
  bs_read_count :: size_t
  bs_write_count :: size_t
  bs_input_ended :: bool
  bs_error :: bool

definition ByteStream_new :: "size_t \<Rightarrow> ByteStream" where
  "ByteStream_new capacity =
     \<lparr>bs_buf = replicate (unat capacity) 32, bs_capacity = capacity, bs_front = 0, bs_rear = 0,
      bs_cur_size = 0, bs_read_count = 0, bs_write_count = 0, bs_input_ended = False, bs_error = False\<rparr>"

definition ByteStream_remaining_capacity :: "ByteStream \<Rightarrow> size_t" where
  "ByteStream_remaining_capacity bs = bs_capacity bs - bs_cur_size bs"

definition ring_next :: "size_t \<Rightarrow> size_t \<Rightarrow> size_t" where
  "ring_next capacity i = (if i + 1 = capacity then 0 else i + 1)"

fun write_loop :: "size_t \<Rightarrow> bytes \<Rightarrow> bytes \<Rightarrow> size_t \<Rightarrow> bytes \<times> size_t" where
  "write_loop capacity [] buf front = (buf, front)"
| "write_loop capacity (c # cs) buf front =
     write_loop capacity cs (buf[unat front := c]) (ring_next capacity front)"

definition ByteStream_write :: "bytes \<Rightarrow> ByteStream \<Rightarrow> size_t \<times> ByteStream" where
  "ByteStream_write data bs =
     (if bs_input_ended bs then (0, bs)
      else
        let remain_capacity = ByteStream_remaining_capacity bs;
            write_length = min remain_capacity (str_size data);
            (buf, front) = write_loop (bs_capacity bs) (take (unat write_length) data) (bs_buf bs) (bs_front bs)
        in (write_length,
            bs\<lparr>bs_buf := buf, bs_front := front,
               bs_cur_size := bs_cur_size bs + write_length,
               bs_write_count := bs_write_count bs + write_length\<rparr>))"

fun peek_loop :: "size_t \<Rightarrow> bytes \<Rightarrow> nat \<Rightarrow> size_t \<Rightarrow> bytes" where
  "peek_loop capacity buf 0 start = []"
| "peek_loop capacity buf (Suc n) start = buf ! unat start # peek_loop capacity buf n (ring_next capacity start)"

definition ByteStream_peek_output :: "size_t \<Rightarrow> ByteStream \<Rightarrow> bytes" where
  "ByteStream_peek_output len bs =
     (let peek_length = min (bs_cur_size bs) len
      in peek_loop (bs_capacity bs) (bs_buf bs) (unat peek_length) (bs_rear bs))"

text \<open>\<open>None\<close> is the division trap of \<open>% _capacity\<close> on a stream of capacity 0.\<close>

definition ByteStream_pop_output :: "size_t \<Rightarrow> ByteStream \<Rightarrow> ByteStream option" where
  "ByteStream_pop_output len bs =
     (let pop_length = min (bs_cur_size bs) len
      in if bs_capacity bs = 0 then None
         else Some (bs\<lparr>bs_rear := (bs_rear bs + pop_length) mod bs_capacity bs,
                       bs_cur_size := bs_cur_size bs - pop_length,
                       bs_read_count := bs_read_count bs + pop_length\<rparr>))"

definition ByteStream_read :: "size_t \<Rightarrow> ByteStream \<Rightarrow> (bytes \<times> ByteStream) option" where
  "ByteStream_read len bs =
     (let ret = ByteStream_peek_output len bs
      in case ByteStream_pop_output len bs of
           None \<Rightarrow> None
         | Some bs' \<Rightarrow> Some (ret, bs'))"

definition ByteStream_end_input :: "ByteStream \<Rightarrow> ByteStream" where
  "ByteStream_end_input bs = bs\<lparr>bs_input_ended := True\<rparr>"

definition ByteStream_set_error :: "ByteStream \<Rightarrow> ByteStream" where
  "ByteStream_set_error bs = bs\<lparr>bs_error := True\<rparr>"

definition ByteStream_buffer_size :: "ByteStream \<Rightarrow> size_t" where
  "ByteStream_buffer_size bs = bs_cur_size bs"

definition ByteStream_buffer_empty :: "ByteStream \<Rightarrow> bool" where
  "ByteStream_buffer_empty bs \<longleftrightarrow> bs_cur_size bs = 0"

definition ByteStream_eof :: "ByteStream \<Rightarrow> bool" where
  "ByteStream_eof bs \<longleftrightarrow> bs_input_ended bs \<and> ByteStream_buffer_empty bs"

definition ByteStream_bytes_written :: "ByteStream \<Rightarrow> size_t" where
  "ByteStream_bytes_written bs = bs_write_count bs"

definition ByteStream_bytes_read :: "ByteStream \<Rightarrow> size_t" where
  "ByteStream_bytes_read bs = bs_read_count bs"

lemmas ByteStream_accessors [model_defs] =
  ByteStream_remaining_capacity_def ByteStream_buffer_size_def ByteStream_buffer_empty_def
  ByteStream_eof_def ByteStream_bytes_written_def ByteStream_bytes_read_def
  ByteStream_end_input_def ByteStream_set_error_def

section \<open>Slices of a ring\<close>

definition ring_slice :: "'a list \<Rightarrow> nat \<Rightarrow> nat \<Rightarrow> nat \<Rightarrow> 'a list" where
  "ring_slice buf cap r n = map (\<lambda>i. buf ! ((r + i) mod cap)) [0..<n]"

lemma length_ring_slice [simp]: "length (ring_slice buf cap r n) = n"
  by (simp add: ring_slice_def)

lemma ring_slice_0 [simp]: "ring_slice buf cap r 0 = []"
  by (simp add: ring_slice_def)

lemma ring_slice_mod [simp]: "ring_slice buf cap (r mod cap) n = ring_slice buf cap r n"
  by (simp add: ring_slice_def mod_simps)

lemma ring_slice_Suc_left:
  "ring_slice buf cap r (Suc n) = buf ! (r mod cap) # ring_slice buf cap (Suc r) n"
  by (rule nth_equalityI) (auto simp: ring_slice_def nth_Cons simp del: upt_Suc split: nat.splits)

lemma take_ring_slice: "take k (ring_slice buf cap r n) = ring_slice buf cap r (min n k)"
  by (rule nth_equalityI) (auto simp: ring_slice_def)

lemma drop_ring_slice: "drop k (ring_slice buf cap r n) = ring_slice buf cap (r + k) (n - k)"
  by (rule nth_equalityI) (auto simp: ring_slice_def add.assoc)

lemma mod_ring_inj:
  assumes "(r + i) mod cap = (r + n) mod cap" and "i \<le> n" and "n < cap"
  shows "i = (n :: nat)"
proof -
  from assms(1,2) have "cap dvd n - i"
    by (metis add_diff_cancel_left mod_eq_dvd_iff_nat nat_add_left_cancel_le)
  with assms(2,3) show ?thesis
    using nat_dvd_not_less [of "n - i" cap] by (cases "i = n") auto
qed

lemma ring_slice_write:
  assumes "n < cap" and "length buf = cap"
  shows "ring_slice (buf[(r + n) mod cap := c]) cap r (Suc n) = ring_slice buf cap r n @ [c]"
proof (rule nth_equalityI)
  fix i assume "i < length (ring_slice (buf[(r + n) mod cap := c]) cap r (Suc n))"
  then have i: "i < Suc n" by simp
  have m: "(r + k) mod cap < length buf" for k using assms by simp
  show "ring_slice (buf[(r + n) mod cap := c]) cap r (Suc n) ! i = (ring_slice buf cap r n @ [c]) ! i"
  proof (cases "i = n")
    case True
    with m show ?thesis by (simp add: ring_slice_def nth_append del: upt_Suc)
  next
    case False
    with i have "(r + i) mod cap \<noteq> (r + n) mod cap"
      using mod_ring_inj [of r i cap n] assms by auto
    with i False show ?thesis by (simp add: ring_slice_def nth_append del: upt_Suc)
  qed
qed simp

lemma unat_ring_next:
  assumes "unat i < unat cap"
  shows "unat (ring_next cap i) = (unat i + 1) mod unat cap"
proof (cases "i + 1 = cap")
  case True
  have "unat (i + 1) = unat i + 1"
    using assms unat_lt_64 [of cap] by (subst unat_add_small) auto
  with True show ?thesis by (simp add: ring_next_def)
next
  case False
  have n: "unat (i + 1) = unat i + 1"
    using assms unat_lt_64 [of cap] by (subst unat_add_small) auto
  with False assms have "unat i + 1 < unat cap"
    by (metis Suc_eq_plus1 Suc_lessI word_eq_unatI)
  with False n show ?thesis by (simp add: ring_next_def)
qed

lemma peek_loop_slice:
  "unat start < unat cap \<Longrightarrow> peek_loop cap buf n start = ring_slice buf (unat cap) (unat start) n"
proof (induction n arbitrary: start)
  case (Suc n)
  then have "unat (ring_next cap start) < unat cap"
    by (simp add: unat_ring_next)
  from Suc.IH [OF this] Suc.prems show ?case
    by (simp add: unat_ring_next ring_slice_Suc_left)
qed simp

lemma write_loop_slice:
  assumes "write_loop cap cs buf front = (buf', front')"
    and "unat front = (r + n) mod unat cap" and "0 < unat cap" and "length buf = unat cap"
    and "n + length cs \<le> unat cap"
  shows "ring_slice buf' (unat cap) r (n + length cs) = ring_slice buf (unat cap) r n @ cs
       \<and> length buf' = unat cap \<and> unat front' = (r + (n + length cs)) mod unat cap"
  using assms
proof (induction cs arbitrary: buf front n)
  case (Cons c cs)
  let ?buf = "buf[unat front := c]"
  have "unat (ring_next cap front) = (r + Suc n) mod unat cap"
    using Cons.prems by (subst unat_ring_next) (auto simp: mod_simps)
  then have "ring_slice buf' (unat cap) r (Suc n + length cs) = ring_slice ?buf (unat cap) r (Suc n) @ cs
      \<and> length buf' = unat cap \<and> unat front' = (r + (Suc n + length cs)) mod unat cap"
    using Cons.prems by (intro Cons.IH [of ?buf "ring_next cap front"]) auto
  moreover have "ring_slice ?buf (unat cap) r (Suc n) = ring_slice buf (unat cap) r n @ [c]"
    using Cons.prems by (simp add: ring_slice_write)
  ultimately show ?case by simp
qed auto

section \<open>Invariant and abstraction\<close>

text \<open>The bytes in the stream, oldest first.\<close>

definition bs_contents :: "ByteStream \<Rightarrow> bytes" where
  "bs_contents bs = ring_slice (bs_buf bs) (unat (bs_capacity bs)) (unat (bs_rear bs)) (unat (bs_cur_size bs))"

definition bs_room :: "ByteStream \<Rightarrow> nat" where
  "bs_room bs = unat (bs_capacity bs) - unat (bs_cur_size bs)"

definition bs_inv :: "ByteStream \<Rightarrow> bool" where
  "bs_inv bs \<longleftrightarrow>
     0 < unat (bs_capacity bs) \<and> unat (bs_capacity bs) < 2 ^ 63 \<and>
     length (bs_buf bs) = unat (bs_capacity bs) \<and>
     unat (bs_cur_size bs) \<le> unat (bs_capacity bs) \<and>
     unat (bs_rear bs) < unat (bs_capacity bs) \<and>
     unat (bs_front bs) = (unat (bs_rear bs) + unat (bs_cur_size bs)) mod unat (bs_capacity bs) \<and>
     bs_write_count bs - bs_read_count bs = bs_cur_size bs"

lemma bs_invD:
  assumes "bs_inv bs"
  shows "0 < unat (bs_capacity bs)" and "unat (bs_capacity bs) < 2 ^ 63"
    and "length (bs_buf bs) = unat (bs_capacity bs)"
    and "unat (bs_cur_size bs) \<le> unat (bs_capacity bs)"
    and "unat (bs_rear bs) < unat (bs_capacity bs)"
    and "unat (bs_front bs) = (unat (bs_rear bs) + unat (bs_cur_size bs)) mod unat (bs_capacity bs)"
    and "bs_write_count bs - bs_read_count bs = bs_cur_size bs"
  using assms by (auto simp: bs_inv_def)

lemma bs_inv_new: "0 < unat cap \<Longrightarrow> unat cap < 2 ^ 63 \<Longrightarrow> bs_inv (ByteStream_new cap)"
  by (simp add: bs_inv_def ByteStream_new_def)

lemma bs_contents_new [simp]: "bs_contents (ByteStream_new cap) = []"
  by (simp add: bs_contents_def ByteStream_new_def)

lemma length_bs_contents [simp]: "length (bs_contents bs) = unat (bs_cur_size bs)"
  by (simp add: bs_contents_def)

lemma bs_inv_length: "bs_inv bs \<Longrightarrow> length (bs_contents bs) \<le> unat (bs_capacity bs)"
  by (simp add: bs_inv_def)

lemma unat_remaining_capacity:
  "bs_inv bs \<Longrightarrow> unat (ByteStream_remaining_capacity bs) = bs_room bs"
  by (simp add: ByteStream_remaining_capacity_def bs_room_def bs_inv_def unat_sub word_le_nat_alt)

lemma buffer_empty_iff: "ByteStream_buffer_empty bs \<longleftrightarrow> bs_contents bs = []"
  by (simp add: ByteStream_buffer_empty_def length_0_conv [symmetric] unat_eq_0 del: length_0_conv)

lemma buffer_size_contents: "unat (ByteStream_buffer_size bs) = length (bs_contents bs)"
  by (simp add: ByteStream_buffer_size_def)

lemma eof_iff: "ByteStream_eof bs \<longleftrightarrow> bs_input_ended bs \<and> bs_contents bs = []"
  by (simp add: ByteStream_eof_def buffer_empty_iff)

lemma bs_written_read:
  "bs_inv bs \<Longrightarrow> ByteStream_bytes_written bs = ByteStream_bytes_read bs + of_nat (length (bs_contents bs))"
  by (auto simp: bs_inv_def ByteStream_bytes_written_def ByteStream_bytes_read_def algebra_simps)

subsection \<open>Writing\<close>

lemma write_ended: "bs_input_ended bs \<Longrightarrow> ByteStream_write d bs = (0, bs)"
  by (simp add: ByteStream_write_def)

definition accepted :: "bytes \<Rightarrow> ByteStream \<Rightarrow> nat" where
  "accepted d bs = (if bs_input_ended bs then 0 else min (bs_room bs) (length d))"

lemma write_spec:
  assumes inv: "bs_inv bs" and len: "length d < 2 ^ 64" and w: "ByteStream_write d bs = (n, bs')"
  shows "unat n = accepted d bs" and "bs_inv bs'"
    and "bs_contents bs' = bs_contents bs @ take (unat n) d"
    and "bs_capacity bs' = bs_capacity bs" and "bs_read_count bs' = bs_read_count bs"
    and "bs_write_count bs' = bs_write_count bs + n"
    and "bs_input_ended bs' = bs_input_ended bs" and "bs_error bs' = bs_error bs"
proof -
  let ?cap = "unat (bs_capacity bs)" and ?cur = "unat (bs_cur_size bs)"
  note I = bs_invD [OF inv]
  have *: "unat n = accepted d bs \<and> bs_inv bs' \<and> bs_contents bs' = bs_contents bs @ take (unat n) d
     \<and> bs_capacity bs' = bs_capacity bs \<and> bs_read_count bs' = bs_read_count bs
     \<and> bs_write_count bs' = bs_write_count bs + n
     \<and> bs_input_ended bs' = bs_input_ended bs \<and> bs_error bs' = bs_error bs"
  proof (cases "bs_input_ended bs")
    case True
    with w have "n = 0" "bs' = bs" by (auto simp: write_ended)
    with True inv show ?thesis by (simp add: accepted_def)
  next
    case False
    obtain buf front where loop: "write_loop (bs_capacity bs) (take (unat n) d) (bs_buf bs) (bs_front bs) = (buf, front)"
      by fastforce
    have n: "n = min (ByteStream_remaining_capacity bs) (str_size d)"
      using w False by (auto simp: ByteStream_write_def Let_def split: prod.splits)
    have bs': "bs' = bs\<lparr>bs_buf := buf, bs_front := front, bs_cur_size := bs_cur_size bs + n,
        bs_write_count := bs_write_count bs + n\<rparr>"
      using w False loop unfolding n by (auto simp: ByteStream_write_def Let_def)
    have un: "unat n = accepted d bs"
      using inv len False by (simp add: n unat_min unat_remaining_capacity unat_str_size accepted_def)
    then have le: "?cur + unat n \<le> ?cap" "unat n \<le> length d"
      using I False by (auto simp: accepted_def bs_room_def)
    then have cur: "unat (bs_cur_size bs + n) = ?cur + unat n"
      using I by (intro unat_add_small) simp
    from write_loop_slice [OF loop, of "unat (bs_rear bs)" ?cur] le I
    have "ring_slice buf ?cap (unat (bs_rear bs)) (?cur + unat n) = bs_contents bs @ take (unat n) d"
      "length buf = ?cap" "unat front = (unat (bs_rear bs) + (?cur + unat n)) mod ?cap"
      by (auto simp: bs_contents_def min_absorb2)
    with le cur un I False show ?thesis
      by (auto simp: bs' bs_inv_def bs_contents_def algebra_simps)
  qed
  then show "unat n = accepted d bs" "bs_inv bs'" "bs_contents bs' = bs_contents bs @ take (unat n) d"
    "bs_capacity bs' = bs_capacity bs" "bs_read_count bs' = bs_read_count bs"
    "bs_write_count bs' = bs_write_count bs + n"
    "bs_input_ended bs' = bs_input_ended bs" "bs_error bs' = bs_error bs" by auto
qed

subsection \<open>Reading\<close>

lemma peek_spec:
  assumes "bs_inv bs"
  shows "ByteStream_peek_output n bs = take (unat n) (bs_contents bs)"
  using assms by (simp add: ByteStream_peek_output_def Let_def peek_loop_slice bs_inv_def bs_contents_def
      take_ring_slice unat_min)

lemma pop_spec:
  assumes inv: "bs_inv bs"
  obtains bs' where "ByteStream_pop_output n bs = Some bs'" and "bs_inv bs'"
    and "bs_contents bs' = drop (unat n) (bs_contents bs)"
    and "bs_capacity bs' = bs_capacity bs" and "bs_write_count bs' = bs_write_count bs"
    and "bs_read_count bs' = bs_read_count bs + min (bs_cur_size bs) n"
    and "bs_input_ended bs' = bs_input_ended bs" and "bs_error bs' = bs_error bs"
proof -
  let ?cap = "unat (bs_capacity bs)" and ?p = "min (bs_cur_size bs) n"
  let ?bs' = "bs\<lparr>bs_rear := (bs_rear bs + ?p) mod bs_capacity bs, bs_cur_size := bs_cur_size bs - ?p,
      bs_read_count := bs_read_count bs + ?p\<rparr>"
  note I = bs_invD [OF inv]
  have pop: "ByteStream_pop_output n bs = Some ?bs'"
    using I(1) by (auto simp: ByteStream_pop_output_def Let_def)
  have p: "unat ?p = min (unat (bs_cur_size bs)) (unat n)" by (rule unat_min)
  then have "unat (bs_rear bs + ?p) = unat (bs_rear bs) + unat ?p"
    using I by (intro unat_add_small) simp
  then have rear: "unat ((bs_rear bs + ?p) mod bs_capacity bs) = (unat (bs_rear bs) + unat ?p) mod ?cap"
    by (simp add: unat_mod_distrib)
  have cur: "unat (bs_cur_size bs - ?p) = unat (bs_cur_size bs) - unat ?p"
    by (rule unat_sub) simp
  have "((unat (bs_rear bs) + unat ?p) mod ?cap + (unat (bs_cur_size bs) - unat ?p)) mod ?cap
      = (unat (bs_rear bs) + unat (bs_cur_size bs)) mod ?cap"
    using p by (subst mod_add_left_eq) simp
  then have "bs_inv ?bs'"
    using I by (auto simp: bs_inv_def rear cur algebra_simps)
  moreover have "bs_contents ?bs' = drop (unat n) (bs_contents bs)"
    by (cases "unat n \<le> unat (bs_cur_size bs)")
       (simp_all add: bs_contents_def rear cur p drop_ring_slice)
  ultimately show thesis using pop by (intro that [of ?bs']) simp_all
qed

lemma read_spec:
  assumes inv: "bs_inv bs"
  obtains bs' where "ByteStream_read n bs = Some (take (unat n) (bs_contents bs), bs')" and "bs_inv bs'"
    and "bs_contents bs' = drop (unat n) (bs_contents bs)"
    and "bs_capacity bs' = bs_capacity bs" and "bs_write_count bs' = bs_write_count bs"
    and "bs_read_count bs' = bs_read_count bs + of_nat (length (take (unat n) (bs_contents bs)))"
    and "bs_input_ended bs' = bs_input_ended bs" and "bs_error bs' = bs_error bs"
proof -
  obtain bs' where P: "ByteStream_pop_output n bs = Some bs'" "bs_inv bs'"
    "bs_contents bs' = drop (unat n) (bs_contents bs)" "bs_capacity bs' = bs_capacity bs"
    "bs_write_count bs' = bs_write_count bs" "bs_read_count bs' = bs_read_count bs + min (bs_cur_size bs) n"
    "bs_input_ended bs' = bs_input_ended bs" "bs_error bs' = bs_error bs"
    by (rule pop_spec [OF inv])
  have "of_nat (length (take (unat n) (bs_contents bs))) = min (bs_cur_size bs) n"
    by (simp add: unat_min [symmetric])
  with P show thesis
    by (intro that [of bs']) (simp_all add: ByteStream_read_def peek_spec [OF inv])
qed

lemma pop_output_trap: "ByteStream_pop_output n bs = None \<longleftrightarrow> bs_capacity bs = 0"
  by (simp add: ByteStream_pop_output_def Let_def)

section \<open>The stream as a first-in first-out queue\<close>

text \<open>
  The contract of a byte stream, as its clients use it: an abstraction to the list of
  buffered bytes, and what writing and reading do to that list.
\<close>

locale byte_fifo =
  fixes invar :: "'s \<Rightarrow> bool"
    and contents :: "'s \<Rightarrow> bytes"
    and room :: "'s \<Rightarrow> nat"
    and ended :: "'s \<Rightarrow> bool"
    and put :: "bytes \<Rightarrow> 's \<Rightarrow> size_t \<times> 's"
    and get :: "size_t \<Rightarrow> 's \<Rightarrow> (bytes \<times> 's) option"
    and finish :: "'s \<Rightarrow> 's"
  assumes write_law: "invar s \<Longrightarrow> length d < 2 ^ 64 \<Longrightarrow> put d s = (n, s') \<Longrightarrow>
      invar s' \<and> unat n = (if ended s then 0 else min (room s) (length d)) \<and>
      contents s' = contents s @ take (unat n) d \<and> room s' = room s - unat n \<and> ended s' = ended s"
    and read_law: "invar s \<Longrightarrow>
      \<exists>s'. get k s = Some (take (unat k) (contents s), s') \<and> invar s' \<and>
        contents s' = drop (unat k) (contents s) \<and>
        room s' = room s + length (take (unat k) (contents s)) \<and> ended s' = ended s"
    and finish_law: "invar s \<Longrightarrow> invar (finish s) \<and> contents (finish s) = contents s
      \<and> room (finish s) = room s \<and> ended (finish s)"

text \<open>
  The abstract queue: the bytes in it, the number of bytes it can hold and whether its input
  has ended. A write accepts as much as there is room for, and nothing after the end; a read
  takes up to the number of bytes asked for from the front.
\<close>

record fifo_queue =
  fq_bytes :: bytes
  fq_capacity :: nat
  fq_ended :: bool

datatype stream_op = OpWrite bytes | OpRead size_t | OpEnd

datatype stream_answer = Accepted nat | Delivered bytes | Done

fun queue_op :: "stream_op \<Rightarrow> fifo_queue \<Rightarrow> stream_answer \<times> fifo_queue" where
  "queue_op (OpWrite d) q =
     (let n = (if fq_ended q then 0 else min (fq_capacity q - length (fq_bytes q)) (length d))
      in (Accepted n, q\<lparr>fq_bytes := fq_bytes q @ take n d\<rparr>))"
| "queue_op (OpRead k) q = (Delivered (take (unat k) (fq_bytes q)), q\<lparr>fq_bytes := drop (unat k) (fq_bytes q)\<rparr>)"
| "queue_op OpEnd q = (Done, q\<lparr>fq_ended := True\<rparr>)"

fun queue_run :: "stream_op list \<Rightarrow> fifo_queue \<Rightarrow> stream_answer list \<times> fifo_queue" where
  "queue_run [] q = ([], q)"
| "queue_run (op # ops) q =
     (let (a, q1) = queue_op op q; (as, q2) = queue_run ops q1 in (a # as, q2))"

text \<open>The same operations on a stream, with the values that they return.\<close>

fun stream_exec :: "(bytes \<Rightarrow> 's \<Rightarrow> size_t \<times> 's) \<Rightarrow> (size_t \<Rightarrow> 's \<Rightarrow> (bytes \<times> 's) option) \<Rightarrow> ('s \<Rightarrow> 's)
    \<Rightarrow> stream_op \<Rightarrow> 's \<Rightarrow> (stream_answer \<times> 's) option" where
  "stream_exec put get finish (OpWrite d) s = (case put d s of (n, s') \<Rightarrow> Some (Accepted (unat n), s'))"
| "stream_exec put get finish (OpRead k) s = map_option (map_prod Delivered id) (get k s)"
| "stream_exec put get finish OpEnd s = Some (Done, finish s)"

fun stream_run :: "(stream_op \<Rightarrow> 's \<Rightarrow> (stream_answer \<times> 's) option) \<Rightarrow> stream_op list \<Rightarrow> 's
    \<Rightarrow> (stream_answer list \<times> 's) option" where
  "stream_run exec [] s = Some ([], s)"
| "stream_run exec (op # ops) s =
     (case exec op s of
        None \<Rightarrow> None
      | Some (a, s') \<Rightarrow> map_option (map_prod ((#) a) id) (stream_run exec ops s'))"

lemma queue_run_capacity: "fq_capacity (snd (queue_run ops q)) = fq_capacity q"
proof (induction ops arbitrary: q)
  case (Cons op ops)
  have "fq_capacity (snd (queue_op op q)) = fq_capacity q" by (cases op) (simp_all add: Let_def)
  then show ?case using Cons.IH [of "snd (queue_op op q)"] by (simp add: case_prod_unfold Let_def)
qed simp

definition op_fits :: "stream_op \<Rightarrow> bool" where
  "op_fits op = (case op of OpWrite d \<Rightarrow> length d < 2 ^ 64 | _ \<Rightarrow> True)"

context byte_fifo
begin

definition as_queue :: "'s \<Rightarrow> fifo_queue" where
  "as_queue s = \<lparr>fq_bytes = contents s, fq_capacity = room s + length (contents s), fq_ended = ended s\<rparr>"

lemma exec_refines:
  assumes "invar s" and "op_fits op"
  shows "\<exists>a s'. stream_exec put get finish op s = Some (a, s') \<and> invar s' \<and> queue_op op (as_queue s) = (a, as_queue s')"
proof (cases op)
  case (OpWrite d)
  obtain n s' where w: "put d s = (n, s')" by fastforce
  from write_law [OF assms(1) _ w] assms(2) OpWrite show ?thesis
    by (auto simp: w op_fits_def as_queue_def min_def Let_def)
next
  case (OpRead k)
  from read_law [OF assms(1), of k] OpRead show ?thesis by (auto simp: as_queue_def)
next
  case OpEnd
  with finish_law [OF assms(1)] show ?thesis by (simp add: as_queue_def)
qed

lemma run_refines:
  assumes "invar s" and "list_all op_fits ops"
  shows "\<exists>as t. stream_run (stream_exec put get finish) ops s = Some (as, t) \<and> invar t \<and>
    queue_run ops (as_queue s) = (as, as_queue t)"
  using assms
proof (induction ops arbitrary: s)
  case (Cons op ops)
  from exec_refines [OF Cons.prems(1), of op] Cons.prems(2) obtain a s1 where
    1: "stream_exec put get finish op s = Some (a, s1)" "invar s1" "queue_op op (as_queue s) = (a, as_queue s1)" by auto
  from Cons.IH [OF 1(2)] Cons.prems(2) obtain as t where
    "stream_run (stream_exec put get finish) ops s1 = Some (as, t)" "invar t" "queue_run ops (as_queue s1) = (as, as_queue t)"
    by auto
  with 1 show ?case by simp
qed simp

end

interpretation bs: byte_fifo bs_inv bs_contents bs_room bs_input_ended
  ByteStream_write ByteStream_read ByteStream_end_input
proof (unfold_locales, goal_cases)
  case (1 s d n s')
  from write_spec [OF this] this show ?case
    by (auto simp: accepted_def bs_room_def dest: arg_cong [of _ _ length])
next
  case (2 s k)
  then obtain s' where "ByteStream_read k s = Some (take (unat k) (bs_contents s), s')" "bs_inv s'"
    "bs_contents s' = drop (unat k) (bs_contents s)" "bs_capacity s' = bs_capacity s"
    "bs_input_ended s' = bs_input_ended s" by (rule read_spec)
  moreover from this(3) have "unat (bs_cur_size s') = unat (bs_cur_size s) - unat k"
    by (metis length_bs_contents length_drop)
  ultimately show ?case using bs_invD(4) [OF 2] by (auto simp: bs_room_def min_def)
next
  case (3 s)
  then show ?case
    by (simp add: ByteStream_end_input_def bs_inv_def bs_contents_def bs_room_def)
qed

section \<open>Properties\<close>

abbreviation bs_exec :: "stream_op \<Rightarrow> ByteStream \<Rightarrow> (stream_answer \<times> ByteStream) option" where
  "bs_exec \<equiv> stream_exec ByteStream_write ByteStream_read ByteStream_end_input"

text \<open>The bytes that a list of answers has accepted and delivered.\<close>

fun bytes_in :: "stream_answer list \<Rightarrow> nat" where
  "bytes_in [] = 0"
| "bytes_in (a # as) = (case a of Accepted n \<Rightarrow> n | _ \<Rightarrow> 0) + bytes_in as"

fun bytes_out :: "stream_answer list \<Rightarrow> nat" where
  "bytes_out [] = 0"
| "bytes_out (a # as) = (case a of Delivered d \<Rightarrow> length d | _ \<Rightarrow> 0) + bytes_out as"

lemma exec_counts:
  assumes "bs_inv s" and "op_fits op" and "bs_exec op s = Some (a, s')"
  shows "bs_write_count s' = bs_write_count s + of_nat (bytes_in [a]) \<and> bs_read_count s' = bs_read_count s + of_nat (bytes_out [a])"
proof (cases op)
  case (OpWrite d)
  with assms write_spec(5,6) [OF assms(1), of d] show ?thesis by (auto simp: op_fits_def split: prod.splits)
next
  case (OpRead k)
  from assms(1) obtain b where "ByteStream_read k s = Some (take (unat k) (bs_contents s), b)"
    "bs_write_count b = bs_write_count s" "bs_read_count b = bs_read_count s + of_nat (length (take (unat k) (bs_contents s)))"
    by (rule read_spec)
  with OpRead assms(3) show ?thesis by auto
qed (use assms(3) in \<open>auto simp: ByteStream_end_input_def\<close>)

lemma run_counts:
  assumes "bs_inv s" and "list_all op_fits ops" and "stream_run bs_exec ops s = Some (as, t)"
  shows "bs_write_count t = bs_write_count s + of_nat (bytes_in as) \<and> bs_read_count t = bs_read_count s + of_nat (bytes_out as)"
  using assms
proof (induction ops arbitrary: s as)
  case (Cons op ops)
  then obtain a s1 as1 where 1: "bs_exec op s = Some (a, s1)" "stream_run bs_exec ops s1 = Some (as1, t)" "as = a # as1"
    by (auto split: option.splits)
  have "bs_inv s1" using bs.exec_refines [OF Cons.prems(1), of op] Cons.prems(2) 1(1) by auto
  from Cons.IH [OF this _ 1(2)] exec_counts [OF Cons.prems(1) _ 1(1)] Cons.prems(2) 1(3) show ?case by (simp add: algebra_simps)
qed simp

text \<open>
  C3: a byte stream of positive capacity is a bounded first-in first-out queue. Any program of
  writes, reads and \<open>end_input\<close> on a fresh stream runs without a trap, and every call returns
  what it returns on the abstract queue: a write accepts as many bytes as there is room for,
  and none once the input has ended; a read returns the oldest bytes, as many as asked for if
  they are there. Afterwards \<open>peek_output\<close>, \<open>buffer_size\<close>, \<open>remaining_capacity\<close>, \<open>input_ended\<close> and
  \<open>eof\<close> show the queue, and the two counters are the numbers of bytes accepted and delivered,
  modulo \<open>2 ^ 64\<close>. (On a stream of capacity 0 every read traps.)
\<close>
theorem ByteStream_fifo:
  assumes "0 < unat cap" and "unat cap < 2 ^ 63" and "list_all op_fits ops"
    and "queue_run ops \<lparr>fq_bytes = [], fq_capacity = unat cap, fq_ended = False\<rparr> = (as, q)"
  shows "\<exists>t. stream_run (stream_exec ByteStream_write ByteStream_read ByteStream_end_input) ops (ByteStream_new cap) = Some (as, t) \<and>
    (\<forall>k. ByteStream_peek_output k t = take (unat k) (fq_bytes q)) \<and>
    unat (ByteStream_buffer_size t) = length (fq_bytes q) \<and>
    unat (ByteStream_remaining_capacity t) = unat cap - length (fq_bytes q) \<and>
    bs_input_ended t = fq_ended q \<and> (ByteStream_eof t \<longleftrightarrow> fq_ended q \<and> fq_bytes q = []) \<and>
    ByteStream_bytes_written t = of_nat (bytes_in as) \<and> ByteStream_bytes_read t = of_nat (bytes_out as)"
proof -
  have inv: "bs_inv (ByteStream_new cap)" using assms by (intro bs_inv_new)
  have new: "bs.as_queue (ByteStream_new cap) = \<lparr>fq_bytes = [], fq_capacity = unat cap, fq_ended = False\<rparr>"
    by (simp add: bs.as_queue_def) (simp add: bs_room_def ByteStream_new_def)
  from bs.run_refines [OF inv assms(3), unfolded new assms(4)] obtain t where
    t: "stream_run bs_exec ops (ByteStream_new cap) = Some (as, t)" "bs_inv t" "q = bs.as_queue t" by auto
  have "bs_write_count t = of_nat (bytes_in as)" "bs_read_count t = of_nat (bytes_out as)"
    using run_counts [OF inv assms(3) t(1)] by (simp_all add: ByteStream_new_def)
  moreover have "fq_capacity q = unat cap" using assms(4)
      queue_run_capacity [of ops "\<lparr>fq_bytes = [], fq_capacity = unat cap, fq_ended = False\<rparr>"] by simp
  ultimately show ?thesis using t(1) peek_spec [OF t(2)] buffer_size_contents [of t] unat_remaining_capacity [OF t(2)]
    by (auto simp: t(3) bs.as_queue_def eof_iff ByteStream_bytes_written_def ByteStream_bytes_read_def)
qed

theorem ByteStream_fifo_witness:
  "\<exists>t. stream_run (stream_exec ByteStream_write ByteStream_read ByteStream_end_input)
      [OpWrite [1, 2, 3], OpRead 1, OpWrite [4, 5], OpRead 2, OpEnd, OpWrite [6]] (ByteStream_new 2) =
    Some ([Accepted 2, Delivered [1], Accepted 1, Delivered [2, 4], Done, Accepted 0], t) \<and> ByteStream_eof t"
proof -
  have h: "0 < unat (2 :: size_t)" "unat (2 :: size_t) < 2 ^ 63"
    "list_all op_fits [OpWrite [1, 2, 3], OpRead 1, OpWrite [4, 5], OpRead 2, OpEnd, OpWrite [6]]"
    by (simp_all add: op_fits_def)
  have "queue_run [OpWrite [1, 2, 3], OpRead 1, OpWrite [4, 5], OpRead 2, OpEnd, OpWrite [6]]
      \<lparr>fq_bytes = [], fq_capacity = unat (2 :: size_t), fq_ended = False\<rparr> =
    ([Accepted 2, Delivered [1], Accepted 1, Delivered [2, 4], Done, Accepted 0], \<lparr>fq_bytes = [], fq_capacity = 2, fq_ended = True\<rparr>)"
    by code_simp
  from ByteStream_fifo [OF h this] show ?thesis by auto
qed

text \<open>
  \<open>write\<close> on every branch: it accepts exactly as many bytes as fit (none after
  \<open>end_input\<close>), appends that prefix of the data to the buffered bytes, and moves the
  write counter by the number it returns.
\<close>

lemma ByteStream_write_functional:
  assumes "bs_inv bs" and "length d < 2 ^ 64"
  shows "case ByteStream_write d bs of (n, bs') \<Rightarrow>
    unat n = (if bs_input_ended bs then 0
              else min (unat (ByteStream_remaining_capacity bs)) (length d)) \<and>
    bs_contents bs' = bs_contents bs @ take (unat n) d \<and> bs_inv bs' \<and>
    ByteStream_bytes_written bs' = ByteStream_bytes_written bs + n \<and>
    ByteStream_bytes_read bs' = ByteStream_bytes_read bs"
proof -
  obtain n bs' where w: "ByteStream_write d bs = (n, bs')" by fastforce
  from write_spec [OF assms w] assms(1) w show ?thesis
    by (simp add: accepted_def unat_remaining_capacity ByteStream_bytes_written_def ByteStream_bytes_read_def)
qed

lemma ByteStream_write_functional_witness:
  "bs_inv (ByteStream_new 4) \<and>
   (case ByteStream_write [7, 8] (ByteStream_new 4) of (n, bs') \<Rightarrow> bs_contents bs' = take (unat n) [7, 8])"
proof -
  have h: "bs_inv (ByteStream_new 4)" "length [7, 8 :: byte] < 2 ^ 64"
    by (simp_all add: bs_inv_new)
  from ByteStream_write_functional [OF h] h show ?thesis by auto
qed

text \<open>
  \<open>pop_output\<close> (and with it \<open>read\<close>) traps exactly on streams of capacity 0, whatever
  the requested length: the reduction modulo the capacity is not guarded.
\<close>

theorem ByteStream_pop_output_trap:
  "(ByteStream_pop_output n bs = None \<longleftrightarrow> bs_capacity bs = 0) \<and>
   (ByteStream_read n bs = None \<longleftrightarrow> bs_capacity bs = 0) \<and>
   ByteStream_read 0 (ByteStream_new 0) = None"
  by (simp add: ByteStream_read_def ByteStream_pop_output_def Let_def ByteStream_new_def)

end
