(* ===== verification/Stream_Reassembler.thy ===== *)
theory Stream_Reassembler
  imports Byte_Stream "HOL-Library.Product_Lexorder" "HOL-Library.List_Lexorder"
begin

text \<open>
  \<open>libsponge/stream_reassembler.hh\<close> and \<open>.cc\<close>: substrings of a byte stream arrive in any
  order, overlapping and repeated, and are assembled into a \<open>ByteStream\<close>. The \<open>std::set\<close> of
  pairs (index, string) is a list in ascending lexicographic order of the pairs, with
  \<open>lower_bound\<close>, \<open>insert\<close> and \<open>erase\<close> on it. The theory shows that pushes of non-empty
  substrings of one stream, interleaved with reads, deliver exactly a prefix of that
  stream, that every byte inside the window is kept, and that the byte counts and the
  capacity bound are right; and it shows what empty substrings do to the structure.
\<close>

section \<open>Model\<close>

type_synonym node = "size_t \<times> bytes"

record StreamReassembler =
  sr_unassembled_bytes :: size_t
  sr_head_index :: size_t
  sr_auxiliary_cache :: "node list"
  sr_eof :: bool
  sr_output :: ByteStream
  sr_capacity :: size_t

definition StreamReassembler_new :: "size_t \<Rightarrow> StreamReassembler" where
  "StreamReassembler_new capacity =
     \<lparr>sr_unassembled_bytes = 0, sr_head_index = 0, sr_auxiliary_cache = [], sr_eof = False,
      sr_output = ByteStream_new capacity, sr_capacity = capacity\<rparr>"

subsection \<open>\<open>std::set\<close> as an ascending list\<close>

definition set_prefix :: "'a::linorder \<Rightarrow> 'a list \<Rightarrow> 'a list" where
  "set_prefix x xs = takeWhile (\<lambda>e. e < x) xs"

definition set_lower_bound :: "'a::linorder \<Rightarrow> 'a list \<Rightarrow> 'a list" where
  "set_lower_bound x xs = dropWhile (\<lambda>e. e < x) xs"

definition set_insert :: "'a::linorder \<Rightarrow> 'a list \<Rightarrow> 'a list" where
  "set_insert x xs = (if x \<in> set xs then xs else set_prefix x xs @ x # set_lower_bound x xs)"

definition set_erase :: "'a::linorder \<Rightarrow> 'a list \<Rightarrow> 'a list" where
  "set_erase x xs = remove1 x xs"

subsection \<open>Merging\<close>

definition StreamReassembler_merge :: "node \<Rightarrow> node \<Rightarrow> size_t \<times> node" where
  "StreamReassembler_merge pa pb =
     (if fst pa + str_size (snd pa) \<le> fst pb then (0, pa)
      else if fst pa + str_size (snd pa) \<ge> fst pb + str_size (snd pb) then (str_size (snd pb), pa)
      else
        let start_index = fst pa + str_size (snd pa) - fst pb
        in (start_index, (fst pa, snd pa @ drop (unat start_index) (snd pb))))"

text \<open>The first loop of \<open>push_substring\<close>: the node absorbs the cache entries behind it.\<close>

function merge_following :: "size_t \<Rightarrow> node \<Rightarrow> node list \<Rightarrow> size_t \<Rightarrow> node \<times> node list \<times> size_t" where
  "merge_following node_end node cache unassembled =
     (case set_lower_bound node cache of
        [] \<Rightarrow> (node, cache, unassembled)
      | it # _ \<Rightarrow>
          if fst it + str_size (snd it) \<le> node_end
          then merge_following node_end node (set_erase it cache) (unassembled - str_size (snd it))
          else
            let (overlap_size, node') = StreamReassembler_merge node it
            in (node', if overlap_size \<noteq> 0 then set_erase it cache else cache, unassembled - overlap_size))"
  by pat_completeness auto
termination
proof (relation "measure (\<lambda>(_, _, cache, _). length cache)")
  fix node_end unassembled :: size_t and node it :: node and cache xs :: "node list"
  assume "set_lower_bound node cache = it # xs"
  then have "it \<in> set cache"
    unfolding set_lower_bound_def by (metis list.set_intros(1) set_dropWhileD)
  then have "length (remove1 it cache) < length cache"
    by (metis One_nat_def Suc_pred length_pos_if_in_set length_remove1 lessI)
  then show "((node_end, node, set_erase it cache, unassembled - str_size (snd it)),
      node_end, node, cache, unassembled) \<in> measure (\<lambda>(_, _, cache, _). length cache)"
    by (simp add: set_erase_def)
qed simp

declare merge_following.simps [simp del]

text \<open>The second part: the node is merged with its predecessor, or inserted.\<close>

definition merge_preceding :: "size_t \<Rightarrow> node \<Rightarrow> node list \<Rightarrow> size_t \<Rightarrow> node list \<times> size_t" where
  "merge_preceding write_len node cache unassembled =
     (if set_prefix node cache \<noteq> []
      then
        let pre = last (set_prefix node cache);
            (overlap_size, pre_node) = StreamReassembler_merge pre node
        in (if overlap_size = 0 then set_insert node cache
            else set_insert pre_node (set_erase pre cache),
            unassembled + write_len - overlap_size)
      else (set_insert node cache, unassembled + write_len))"

subsection \<open>Assembling\<close>

fun assemble_loop :: "node list \<Rightarrow> size_t \<Rightarrow> size_t \<Rightarrow> ByteStream
    \<Rightarrow> node list \<times> size_t \<times> size_t \<times> ByteStream" where
  "assemble_loop [] unassembled head_index output = ([], unassembled, head_index, output)"
| "assemble_loop (it # cache) unassembled head_index output =
     (if fst it > head_index then (it # cache, unassembled, head_index, output)
      else
        let str = snd it;
            (write_len, output') = ByteStream_write str output
        in assemble_loop cache (unassembled - str_size str) (head_index + write_len) output')"

definition assemble_string :: "StreamReassembler \<Rightarrow> StreamReassembler" where
  "assemble_string r =
     (let (cache, unassembled, head_index, output) =
        assemble_loop (sr_auxiliary_cache r) (sr_unassembled_bytes r) (sr_head_index r) (sr_output r)
      in r\<lparr>sr_auxiliary_cache := cache, sr_unassembled_bytes := unassembled,
           sr_head_index := head_index, sr_output := output\<rparr>)"

definition StreamReassembler_unassembled_bytes :: "StreamReassembler \<Rightarrow> size_t" where
  "StreamReassembler_unassembled_bytes r = sr_unassembled_bytes r"

definition StreamReassembler_empty :: "StreamReassembler \<Rightarrow> bool" where
  "StreamReassembler_empty r \<longleftrightarrow> sr_unassembled_bytes r = 0"

definition end_if_done :: "StreamReassembler \<Rightarrow> StreamReassembler" where
  "end_if_done r =
     (if sr_eof r \<and> StreamReassembler_empty r
      then r\<lparr>sr_output := ByteStream_end_input (sr_output r)\<rparr> else r)"

text \<open>
  \<open>substr\<close> throws when its position is beyond the end of the string. Here the position is at most the
  length, unless the index of the last byte exceeds \<open>2 ^ 64 - 1\<close>, so the function is total in the model.
\<close>

definition push_substring :: "bytes \<Rightarrow> u64 \<Rightarrow> bool \<Rightarrow> StreamReassembler \<Rightarrow> StreamReassembler" where
  "push_substring data index eof r0 =
     (let window_end = sr_head_index r0 + ByteStream_remaining_capacity (sr_output r0);
          data_end = index + str_size data;
          r = (if data_end \<le> window_end then r0\<lparr>sr_eof := sr_eof r0 \<or> eof\<rparr> else r0)
      in if index \<ge> window_end \<or> data_end \<le> sr_head_index r
         then end_if_done r
         else
           let start_index = max index (sr_head_index r);
               write_len = min window_end data_end - start_index;
               node = (start_index, substr data (start_index - index) write_len);
               (node', cache', unassembled') =
                 merge_following (start_index + write_len) node (sr_auxiliary_cache r) (sr_unassembled_bytes r);
               (cache'', unassembled'') = merge_preceding write_len node' cache' unassembled';
               r' = assemble_string (r\<lparr>sr_auxiliary_cache := cache'', sr_unassembled_bytes := unassembled''\<rparr>)
           in end_if_done r')"


section \<open>Chains of disjoint fragments\<close>

definition nstart :: "node \<Rightarrow> nat" where
  "nstart e = unat (fst e)"

definition nend :: "node \<Rightarrow> nat" where
  "nend e = nstart e + length (snd e)"

text \<open>The node holds the bytes of the stream \<open>S\<close> at its index.\<close>

definition frag :: "bytes \<Rightarrow> node \<Rightarrow> bool" where
  "frag S e \<longleftrightarrow> nend e \<le> length S \<and> snd e = take (length (snd e)) (drop (nstart e) S)"

text \<open>Non-empty nodes in ascending order, none reaching into the next, from \<open>lo\<close> on.\<close>

primrec chain :: "nat \<Rightarrow> node list \<Rightarrow> bool" where
  "chain lo [] \<longleftrightarrow> True"
| "chain lo (e # es) \<longleftrightarrow> lo \<le> nstart e \<and> snd e \<noteq> [] \<and> chain (nend e) es"

definition total_len :: "node list \<Rightarrow> nat" where
  "total_len es = sum_list (map (length \<circ> snd) es)"

definition cells :: "node list \<Rightarrow> nat set" where
  "cells es = (\<Union>e\<in>set es. {nstart e..<nend e})"

lemma total_len_simps [simp]:
  "total_len [] = 0" "total_len (e # es) = length (snd e) + total_len es" "total_len (xs @ ys) = total_len xs + total_len ys"
  by (simp_all add: total_len_def)

lemma cells_simps [simp]:
  "cells [] = {}" "cells (e # es) = {nstart e..<nend e} \<union> cells es" "cells (xs @ ys) = cells xs \<union> cells ys"
  by (auto simp: cells_def)

lemma nend_ge_nstart: "nstart e \<le> nend e"
  by (simp add: nend_def)

lemma nend_gt_nstart: "snd e \<noteq> [] \<Longrightarrow> nstart e < nend e"
  by (simp add: nend_def)

lemma chain_mono: "chain lo es \<Longrightarrow> lo' \<le> lo \<Longrightarrow> chain lo' es"
  by (cases es) auto

lemma chain_append:
  "chain lo (xs @ ys) \<longleftrightarrow> chain lo xs \<and> chain (if xs = [] then lo else nend (last xs)) ys"
  by (induction xs arbitrary: lo) auto

lemma chain_ge: "chain lo es \<Longrightarrow> e \<in> set es \<Longrightarrow> lo \<le> nstart e \<and> snd e \<noteq> []"
proof (induction es arbitrary: lo)
  case (Cons x es)
  from Cons.prems Cons.IH [of "nend x"] show ?case
    using nend_ge_nstart [of x] by auto
qed simp

lemma chain_raise:
  "chain lo es \<Longrightarrow> (\<And>e. e \<in> set es \<Longrightarrow> lo' \<le> nstart e) \<Longrightarrow> chain lo' es"
  by (cases es) auto

lemma chain_apart:
  "chain lo (xs @ ys) \<Longrightarrow> e \<in> set xs \<Longrightarrow> f \<in> set ys \<Longrightarrow> nend e \<le> nstart f"
proof (induction xs arbitrary: lo)
  case (Cons x xs)
  then show ?case using chain_ge [of "nend x" "xs @ ys" f] by auto
qed simp

lemma cells_ge: "chain lo es \<Longrightarrow> x \<in> cells es \<Longrightarrow> lo \<le> x"
  using chain_ge by (fastforce simp: cells_def)

lemma chain_total_le:
  "chain lo es \<Longrightarrow> (\<And>e. e \<in> set es \<Longrightarrow> nend e \<le> hi) \<Longrightarrow> lo \<le> hi \<Longrightarrow> lo + total_len es \<le> hi"
proof (induction es arbitrary: lo)
  case (Cons e es)
  then have "nend e + total_len es \<le> hi" by simp
  with Cons.prems show ?case by (simp add: nend_def)
qed simp

lemma chain_total_0: "chain lo es \<Longrightarrow> total_len es = 0 \<longleftrightarrow> es = []"
  by (cases es) auto

lemma finite_cells [simp]: "finite (cells es)"
  by (simp add: cells_def)

lemma card_cells: "chain lo es \<Longrightarrow> card (cells es) = total_len es"
proof (induction es arbitrary: lo)
  case (Cons e es)
  then have "{nstart e..<nend e} \<inter> cells es = {}"
    using cells_ge [of "nend e" es] by fastforce
  moreover have "card (cells es) = total_len es" using Cons.prems by (intro Cons.IH [of "nend e"]) simp
  ultimately show ?case by (simp add: card_Un_disjoint nend_def)
qed simp

lemma frag_sub:
  assumes "frag S (i, d)" and "unat j = unat i + k" and "k \<le> length d"
  shows "frag S (j, take n (drop k d))"
proof -
  have d: "d = take (length d) (drop (unat i) S)" "unat i + length d \<le> length S"
    using assms by (auto simp: frag_def nend_def nstart_def)
  have "take n (drop k d) = take (min n (length d - k)) (drop (unat j) S)"
    by (subst d(1)) (simp add: drop_take assms(2) add.commute)
  moreover have "length (take n (drop k d)) = min n (length d - k)" by simp
  ultimately show ?thesis
    using d(2) assms(2,3) by (auto simp: frag_def nend_def nstart_def)
qed

text \<open>Two overlapping fragments of one stream join to a fragment.\<close>

lemma frag_join:
  assumes a: "frag S a" and b: "frag S b"
    and 1: "nstart a \<le> nstart b" and 2: "nstart b \<le> nend a" and 3: "nend a \<le> nend b"
  shows "frag S (fst a, snd a @ drop (nend a - nstart b) (snd b))"
    and "nend (fst a, snd a @ drop (nend a - nstart b) (snd b)) = nend b"
proof -
  let ?k = "nend a - nstart b" and ?i = "nstart a"
  have lb: "nend b \<le> length S" and la: "nend a = ?i + length (snd a)" and lb': "nend b = nstart b + length (snd b)"
    using b by (auto simp: frag_def nend_def)
  have len: "length (snd a @ drop ?k (snd b)) = nend b - ?i"
    using 1 2 3 la lb' by auto
  then show n: "nend (fst a, snd a @ drop ?k (snd b)) = nend b"
    using 1 2 3 by (simp add: nend_def nstart_def)
  have "drop ?k (snd b) = drop ?k (take (length (snd b)) (drop (nstart b) S))"
    using b by (simp add: frag_def)
  also have "\<dots> = take (nend b - nend a) (drop (nend a) S)"
    using 2 3 lb' by (simp add: drop_take add.commute)
  finally have eb: "drop ?k (snd b) = take (nend b - nend a) (drop (length (snd a)) (drop ?i S))"
    using la by (simp add: add.commute)
  have ea: "snd a = take (length (snd a)) (drop ?i S)"
    using a by (simp add: frag_def)
  have "snd a @ drop ?k (snd b) = take (length (snd a) + (nend b - nend a)) (drop ?i S)"
    unfolding eb by (subst take_add) (simp add: ea [symmetric])
  also have "length (snd a) + (nend b - nend a) = nend b - ?i"
    using 3 la by simp
  finally show "frag S (fst a, snd a @ drop ?k (snd b))"
    using n lb len by (simp add: frag_def nstart_def)
qed


section \<open>Inserting a fragment\<close>

subsection \<open>Comparing nodes\<close>

lemma node_less_iff: "(a :: node) < b \<longleftrightarrow> nstart a < nstart b \<or> nstart a = nstart b \<and> snd a < snd b"
  by (cases a; cases b) (auto simp: nstart_def less_prod_def' word_less_nat_alt word_unat_eq_iff)

lemma list_less_append: "(xs :: 'a::linorder list) < ys \<Longrightarrow> xs < ys @ zs"
proof (cases "zs = []")
  case False
  assume "xs < ys"
  also have "ys < ys @ zs" using False
    by (induction ys) (auto simp: neq_Nil_conv)
  finally show ?thesis .
qed simp

lemma node_less_extend:
  "(e :: node) < n \<Longrightarrow> fst n' = fst n \<Longrightarrow> snd n' = snd n @ z \<Longrightarrow> e < n'"
  using list_less_append [of "snd e" "snd n" z] unfolding node_less_iff nstart_def by auto

lemma set_split_at:
  assumes "\<forall>e\<in>set B. e < x" and "\<forall>e\<in>set A. \<not> e < x"
  shows "set_prefix x (B @ A) = B" and "set_lower_bound x (B @ A) = A"
  using assms by (cases A; auto simp: set_prefix_def set_lower_bound_def takeWhile_append dropWhile_append)+

lemma set_insert_at:
  assumes "\<forall>e\<in>set B. e < x" and "\<forall>e\<in>set A. x < e"
  shows "set_insert x (B @ A) = B @ x # A"
proof -
  have "\<forall>e\<in>set A. \<not> e < x" using assms(2) by (auto dest: less_not_sym)
  with assms show ?thesis using set_split_at [of B x A] by (auto simp: set_insert_def)
qed

lemma set_erase_at: "x \<notin> set B \<Longrightarrow> set_erase x (B @ x # A) = B @ A"
  by (simp add: set_erase_def remove1_append)

subsection \<open>Absorbing what follows\<close>

fun absorb :: "node \<Rightarrow> node list \<Rightarrow> node \<times> node list \<times> nat" where
  "absorb n [] = (n, [], 0)"
| "absorb n (it # A) =
     (if nend it \<le> nend n
      then let (n', A', k) = absorb n A in (n', A', length (snd it) + k)
      else if nend n \<le> nstart it then (n, it # A, 0)
      else ((fst n, snd n @ drop (nend n - nstart it) (snd it)), A, nend n - nstart it))"

lemma unat_node_end:
  "nend e < 2 ^ 64 \<Longrightarrow> unat (fst e + str_size (snd e)) = nend e"
  by (simp add: nend_def nstart_def unat_add_small unat_str_size)

lemma merge_nat:
  assumes "nend a < 2 ^ 64" and "nend b < 2 ^ 64"
  shows "StreamReassembler_merge a b =
    (if nend a \<le> nstart b then (0, a)
     else if nend b \<le> nend a then (of_nat (length (snd b)), a)
     else (of_nat (nend a - nstart b), (fst a, snd a @ drop (nend a - nstart b) (snd b))))"
proof -
  have "unat (fst a + str_size (snd a) - fst b) = nend a - nstart b" if "nstart b \<le> nend a"
    using that assms by (simp add: unat_sub word_le_nat_alt unat_node_end nstart_def)
  moreover from this have "fst a + str_size (snd a) - fst b = of_nat (nend a - nstart b)"
    if "nstart b \<le> nend a" using that by (intro eq_of_natI)
  ultimately show ?thesis
    using assms by (simp add: StreamReassembler_merge_def word_le_nat_alt unat_node_end Let_def
        nstart_def [symmetric] str_size_def [symmetric])
qed

lemma merge_following_absorb:
  assumes "\<forall>e\<in>set B. e < n" and "\<forall>e\<in>set A. \<not> e < n" and "chain lo A"
    and "\<forall>e\<in>set A. nend e < 2 ^ 64" and "nend n < 2 ^ 64" and "unat node_end = nend n"
    and "absorb n A = (n', A', k)"
  shows "merge_following node_end n (B @ A) un = (n', B @ A', un - of_nat k)"
  using assms
proof (induction A arbitrary: un k lo)
  case Nil
  then have "set_lower_bound n B = []" using set_split_at(2) [of B n "[]"] by simp
  with Nil show ?case by (subst merge_following.simps) auto
next
  case (Cons it A)
  have lb: "set_lower_bound n (B @ it # A) = it # A" and er: "set_erase it (B @ it # A) = B @ A"
    using Cons.prems by (auto intro!: set_split_at set_erase_at)
  have cmp: "fst it + str_size (snd it) \<le> node_end \<longleftrightarrow> nend it \<le> nend n"
    using Cons.prems by (simp add: word_le_nat_alt unat_node_end)
  show ?case
  proof (cases "nend it \<le> nend n")
    case True
    then obtain k' where k': "absorb n A = (n', A', k')" "k = length (snd it) + k'"
      using Cons.prems by (auto split: prod.splits)
    have "merge_following node_end n (B @ A) (un - str_size (snd it))
        = (n', B @ A', un - of_nat k)"
      using Cons.prems k' by (subst Cons.IH [of "nend it"]) (auto simp: str_size_def)
    with True k' show ?thesis
      by (subst merge_following.simps) (simp add: lb er cmp)
  next
    case False
    have "of_nat (nend n - nstart it) \<noteq> (0 :: size_t)" if "\<not> nend n \<le> nstart it"
      using that Cons.prems(5) by (intro of_nat_neq_0_small) auto
    with False Cons.prems show ?thesis
      by (subst merge_following.simps) (auto simp: lb er cmp merge_nat)
  qed
qed

lemma absorb_spec:
  assumes "absorb n A = (n', A', k)" and "chain lo A" and "nstart n \<le> lo" and "snd n \<noteq> []"
    and "frag S n" and "\<forall>e\<in>set A. frag S e" and "nend n \<le> W" and "\<forall>e\<in>set A. nend e \<le> W"
  shows "fst n' = fst n" and "\<exists>z. snd n' = snd n @ z" and "frag S n'" and "nend n' \<le> W"
    and "chain (nend n') A'" and "chain lo A'" and "set A' \<subseteq> set A"
    and "total_len A' + length (snd n') + k = total_len A + length (snd n)"
    and "cells (n' # A') = cells (n # A)"
proof -
  have "fst n' = fst n \<and> (\<exists>z. snd n' = snd n @ z) \<and> frag S n' \<and> nend n' \<le> W \<and> chain (nend n') A'
    \<and> chain lo A' \<and> set A' \<subseteq> set A \<and> total_len A' + length (snd n') + k = total_len A + length (snd n)
    \<and> cells (n' # A') = cells (n # A)"
    using assms
  proof (induction A arbitrary: lo k)
    case (Cons it A)
    show ?case
    proof (cases "nend it \<le> nend n")
      case True
      then obtain k' where k': "absorb n A = (n', A', k')" "k = length (snd it) + k'"
        using Cons.prems by (auto split: prod.splits)
      have "nstart n \<le> nend it" using Cons.prems nend_ge_nstart [of it] by simp
      then have "fst n' = fst n \<and> (\<exists>z. snd n' = snd n @ z) \<and> frag S n' \<and> nend n' \<le> W \<and> chain (nend n') A'
        \<and> chain (nend it) A' \<and> set A' \<subseteq> set A \<and> total_len A' + length (snd n') + k' = total_len A + length (snd n)
        \<and> cells (n' # A') = cells (n # A)"
        using Cons.prems k' by (intro Cons.IH) auto
      moreover have "lo \<le> nend it" using Cons.prems nend_ge_nstart [of it] by simp
      moreover have "{nstart it..<nend it} \<subseteq> {nstart n..<nend n}" using True Cons.prems by auto
      ultimately show ?thesis using k' chain_mono by auto
    next
      case False
      show ?thesis
      proof (cases "nend n \<le> nstart it")
        case True
        with False Cons.prems show ?thesis by auto
      next
        case F2: False
        let ?n = "(fst n, snd n @ drop (nend n - nstart it) (snd it))"
        have eq: "n' = ?n" "A' = A" "k = nend n - nstart it"
          using Cons.prems False F2 by auto
        have le: "nstart n \<le> nstart it" "nstart it \<le> nend n" "nend n \<le> nend it" "lo \<le> nend it"
          using Cons.prems False F2 nend_ge_nstart [of it] by auto
        note j = frag_join [OF _ _ le(1-3), of S]
        have "nend n' = nend it" "frag S n'" using j Cons.prems eq by auto
        moreover have "nstart n' = nstart n" by (simp add: eq nstart_def)
        moreover have "length (snd n') + k = length (snd it) + length (snd n)"
          using le eq by (auto simp: nend_def)
        ultimately show ?thesis
          using Cons.prems le eq chain_mono [of "nend it" A lo] by auto
      qed
    qed
  qed auto
  then show "fst n' = fst n" "\<exists>z. snd n' = snd n @ z" "frag S n'" "nend n' \<le> W" "chain (nend n') A'"
    "chain lo A'" "set A' \<subseteq> set A" "total_len A' + length (snd n') + k = total_len A + length (snd n)"
    "cells (n' # A') = cells (n # A)" by blast+
qed


subsection \<open>Joining the predecessor\<close>

lemma merge_preceding_first:
  assumes "\<forall>e\<in>set A. n < e"
  shows "merge_preceding len n A un = (n # A, un + len)"
proof -
  have "set_prefix n A = []"
    using assms set_split_at(1) [of "[]" n A] by (auto dest: less_not_sym)
  with set_insert_at [of "[]" n A] assms show ?thesis by (simp add: merge_preceding_def)
qed

lemma merge_preceding_last:
  assumes B: "\<forall>e\<in>set B. e < pre" and p: "pre < n" and A: "\<forall>e\<in>set A. n < e"
    and b: "nend pre < 2 ^ 64" "nend n < 2 ^ 64" and ne: "snd n \<noteq> []"
    and Ap: "\<forall>e\<in>set A. nstart pre < nstart e" and Bp: "\<forall>e\<in>set B. nstart e < nstart pre"
  shows "merge_preceding len n (B @ pre # A) un =
    (if nend pre \<le> nstart n then (B @ pre # n # A, un + len)
     else if nend n \<le> nend pre then (B @ pre # A, un + len - of_nat (length (snd n)))
     else (B @ (fst pre, snd pre @ drop (nend pre - nstart n) (snd n)) # A,
           un + len - of_nat (nend pre - nstart n)))"
proof -
  let ?m = "(fst pre, snd pre @ drop (nend pre - nstart n) (snd n))"
  have "\<forall>e\<in>set (B @ [pre]). e < n" using B p by auto
  moreover have "\<forall>e\<in>set A. \<not> e < n" using A by (auto dest: less_not_sym)
  ultimately have pf: "set_prefix n ((B @ [pre]) @ A) = B @ [pre]"
    and ins: "set_insert n ((B @ [pre]) @ A) = (B @ [pre]) @ n # A"
    using A set_split_at(1) [of "B @ [pre]" n A] set_insert_at [of "B @ [pre]" n A] by auto
  have er: "set_erase pre (B @ pre # A) = B @ A" using B by (intro set_erase_at) auto
  have re: "set_insert pre (B @ A) = B @ pre # A"
    using B Ap by (intro set_insert_at) (auto simp: node_less_iff)
  have re2: "set_insert ?m (B @ A) = B @ ?m # A"
    using Bp Ap by (intro set_insert_at) (auto simp: node_less_iff nstart_def)
  have "(of_nat (length (snd n)) :: size_t) \<noteq> 0"
    using b ne by (intro of_nat_neq_0_small) (auto simp: nend_def)
  moreover have "of_nat (nend pre - nstart n) \<noteq> (0 :: size_t)" if "\<not> nend pre \<le> nstart n"
    using that b by (intro of_nat_neq_0_small) auto
  ultimately show ?thesis
    using pf ins b by (auto simp: merge_preceding_def Let_def merge_nat er re re2)
qed

lemma chain_lower_bound:
  assumes "chain lo cache" and "e \<in> set (set_lower_bound n cache)"
  shows "\<not> e < n"
proof -
  obtain f A where fA: "set_lower_bound n cache = f # A" using assms(2) by (cases "set_lower_bound n cache") auto
  then have f: "\<not> f < n" unfolding set_lower_bound_def by (metis dropWhile_eq_Cons_conv)
  have "cache = set_prefix n cache @ f # A"
    by (simp add: fA [symmetric] set_prefix_def set_lower_bound_def)
  with assms(1) have "chain lo ((set_prefix n cache @ [f]) @ A)" by simp
  then have "nend f \<le> nstart e" "snd f \<noteq> []" if "e \<in> set A"
    using that chain_apart [of lo "set_prefix n cache @ [f]" A f e]
      chain_ge [of lo "(set_prefix n cache @ [f]) @ A" f] by auto
  then have "f < e" if "e \<in> set A" using that nend_gt_nstart [of f] by (simp add: node_less_iff)
  with f fA assms(2) show ?thesis by auto
qed

lemma of_nat_recount:
  assumes "a + ov + k = b + (l :: nat)"
  shows "of_nat b - of_nat k + of_nat l - of_nat ov = (of_nat a :: 'a::len word)"
proof -
  have "(of_nat (a + ov + k) :: 'a word) = of_nat (b + l)" using assms by simp
  then show ?thesis by (simp add: algebra_simps)
qed

lemma join_predecessor:
  assumes ch: "chain lo (B @ [pre])" and chA: "chain (nend n) A"
    and P: "\<forall>e\<in>set (B @ pre # n # A). frag S e \<and> nend e \<le> W" and big: "W < 2 ^ 64"
    and ne: "snd n \<noteq> []" and pn: "pre < n" and apart: "\<forall>e\<in>set A. nend pre \<le> nstart e"
    and mp: "merge_preceding len n (B @ pre # A) un = (c, un')"
  obtains ov where "chain lo c" and "\<forall>e\<in>set c. frag S e \<and> nend e \<le> W" and "un' = un + len - of_nat ov"
    and "total_len c + ov = total_len (B @ pre # n # A)" and "cells c = cells (B @ pre # n # A)"
proof -
  have lt: "nstart pre < nend pre" "nstart n < nend n" "nstart pre \<le> nstart n"
    using ch ne pn by (auto simp: chain_append nend_gt_nstart node_less_iff)
  have bnd: "nend pre < 2 ^ 64" "nend n < 2 ^ 64" using P big by auto
  have Bp: "\<forall>e\<in>set B. nstart e < nstart pre"
  proof
    fix e assume "e \<in> set B"
    with ch have "nend e \<le> nstart pre" "snd e \<noteq> []"
      using chain_apart [of lo B "[pre]" e pre] chain_ge [of lo B e] by (auto simp: chain_append)
    then show "nstart e < nstart pre" using nend_gt_nstart [of e] by simp
  qed
  have Ap: "\<forall>e\<in>set A. nstart pre < nstart e" and An: "\<forall>e\<in>set A. n < e"
    using apart chain_ge [OF chA] lt by (auto simp: node_less_iff intro: order.strict_trans2)
  have "\<forall>e\<in>set B. e < pre" using Bp by (simp add: node_less_iff)
  note mpl = merge_preceding_last [OF this pn An bnd ne Ap Bp, of len un, unfolded mp]
  show thesis
  proof (cases "nend pre \<le> nstart n")
    case True
    with mpl that [of 0] ch chA P ne show thesis by (auto simp: chain_append)
  next
    case c: False
    show thesis
    proof (cases "nend n \<le> nend pre")
      case True
      have "chain (nend pre) A" by (rule chain_raise [OF chA]) (use apart in auto)
      moreover have "cells (B @ pre # A) = cells (B @ pre # n # A)" using True lt by auto
      ultimately show thesis
        using that [of "length (snd n)"] mpl c True ch P
        by (auto simp: chain_append simp del: cells_simps)
    next
      case False
      let ?m = "(fst pre, snd pre @ drop (nend pre - nstart n) (snd n))"
      have le: "nstart pre \<le> nstart n" "nstart n \<le> nend pre" "nend pre \<le> nend n" using c lt False by auto
      note j = frag_join [OF _ _ le, of S]
      have m: "nstart ?m = nstart pre" "frag S ?m" "nend ?m = nend n" using P j by (auto simp: nstart_def)
      moreover have "{nstart ?m..<nend ?m} = {nstart pre..<nend pre} \<union> {nstart n..<nend n}"
        unfolding m using le by auto
      moreover have "length (snd ?m) + (nend pre - nstart n) = length (snd pre) + length (snd n)"
        using le by (auto simp: nend_def)
      ultimately show thesis
        using that [of "nend pre - nstart n"] mpl c False ch chA P by (auto simp: chain_append)
    qed
  qed
qed

text \<open>Both steps together: the fragment is added to the chain and every byte is counted once.\<close>

lemma insert_fragment:
  assumes ch: "chain lo cache" and fr: "\<forall>e\<in>set cache. frag S e" and W: "\<forall>e\<in>set cache. nend e \<le> W"
    and n: "frag S n" "snd n \<noteq> []" "nend n \<le> W" "lo \<le> nstart n" and big: "W < 2 ^ 64"
    and ne: "unat node_end = nend n" and len: "len = of_nat (length (snd n))"
    and un: "un = of_nat (total_len cache)"
    and mf: "merge_following node_end n cache un = (n', cache', un')"
    and mp: "merge_preceding len n' cache' un' = (cache'', un'')"
  shows "chain lo cache''" and "\<forall>e\<in>set cache''. frag S e \<and> nend e \<le> W"
    and "un'' = of_nat (total_len cache'')" and "cells cache'' = cells (n # cache)"
proof -
  define B where "B = set_prefix n cache"
  define A where "A = set_lower_bound n cache"
  have cBA: "cache = B @ A" by (simp add: A_def B_def set_prefix_def set_lower_bound_def)
  have Bn: "\<forall>e\<in>set B. e < n" by (auto simp: B_def set_prefix_def dest: set_takeWhileD)
  have An: "\<forall>e\<in>set A. \<not> e < n"
    using chain_lower_bound [OF ch] by (simp add: A_def)
  then have An': "\<forall>e\<in>set A. nstart n \<le> nstart e" by (auto simp: node_less_iff)
  have "chain (if B = [] then lo else nend (last B)) A" using ch by (simp add: cBA chain_append)
  then have chA: "chain (nstart n) A" by (rule chain_raise) (use An' in auto)
  obtain A' k where ab: "absorb n A = (n', A', k)" and c': "cache' = B @ A'" and un': "un' = un - of_nat k"
  proof -
    obtain n0 A' k where ab: "absorb n A = (n0, A', k)" by (metis prod_cases3)
    have "merge_following node_end n (B @ A) un = (n0, B @ A', un - of_nat k)"
      using n W big ne cBA by (intro merge_following_absorb [OF Bn An chA _ _ _ ab]) (auto dest!: bspec)
    with ab that mf cBA show thesis by simp
  qed
  have AS: "\<forall>e\<in>set A. frag S e" "\<forall>e\<in>set A. nend e \<le> W" using fr W cBA by auto
  note X = absorb_spec [OF ab chA order_refl n(2,1) AS(1) n(3) AS(2)]
  have ns: "nstart n' = nstart n" "snd n' \<noteq> []" using X(1,2) n by (auto simp: nstart_def)
  then have "nstart n' < nend n'" by (intro nend_gt_nstart)
  then have A'n: "\<forall>e\<in>set A'. n' < e" using chain_ge [OF X(5)] by (auto simp: node_less_iff intro: order.strict_trans2)
  have Bn': "\<forall>e\<in>set B. e < n'"
    using Bn X(1,2) node_less_extend by blast
  have A'P: "\<forall>e\<in>set A'. frag S e \<and> nend e \<le> W" using X(7) AS by auto
  have *: "chain lo cache'' \<and> (\<forall>e\<in>set cache''. frag S e \<and> nend e \<le> W) \<and> un'' = of_nat (total_len cache'')
      \<and> cells cache'' = cells (n # cache)"
  proof (cases B rule: rev_cases)
    case Nil
    then have eq: "cache'' = n' # A'" "un'' = un' + len"
      using mp c' merge_preceding_first [OF A'n] by auto
    have "total_len cache'' + 0 + k = total_len cache + length (snd n)" using X(8) eq cBA Nil by simp
    note count = of_nat_recount [OF this]
    show ?thesis
      using eq X A'P ns n Nil cBA count by (simp add: un un' len)
  next
    case (snoc B' pre)
    have ch2: "chain lo ((B' @ [pre]) @ A)" using ch cBA snoc by auto
    have chB: "chain lo (B' @ [pre])" using ch2 by (simp add: chain_append del: append_assoc)
    have apart: "\<forall>e\<in>set A'. nend pre \<le> nstart e"
      using chain_apart [OF ch2, of pre] X(7) by auto
    have P: "\<forall>e\<in>set (B' @ pre # n' # A'). frag S e \<and> nend e \<le> W"
      using fr W cBA snoc X A'P by auto
    have "pre < n'" "merge_preceding len n' (B' @ pre # A') un' = (cache'', un'')"
      using Bn' mp c' snoc by auto
    from join_predecessor [OF chB X(5) P big ns(2) this(1) apart this(2)]
    obtain ov where r: "chain lo cache''" "\<forall>e\<in>set cache''. frag S e \<and> nend e \<le> W"
      "un'' = un' + len - of_nat ov" "total_len cache'' + ov = total_len (B' @ pre # n' # A')"
      "cells cache'' = cells (B' @ pre # n' # A')" .
    then have "total_len cache'' + ov + k = total_len cache + length (snd n)"
      using X(8) cBA snoc by simp
    from of_nat_recount [OF this, where 'a = 64] r X(9) cBA snoc show ?thesis
      by (auto simp: un un' len)
  qed
  then show "chain lo cache''" "\<forall>e\<in>set cache''. frag S e \<and> nend e \<le> W" "un'' = of_nat (total_len cache'')"
    "cells cache'' = cells (n # cache)" by auto
qed


section \<open>Assembling the head of the chain\<close>

lemma assemble_spec:
  assumes "assemble_loop es un head out = (es', un', head', out')"
    and "chain (unat head) es" and "\<forall>e\<in>set es. frag S e \<and> nend e \<le> unat head + bs_room out"
    and "bs_inv out" and "\<not> bs_input_ended out" and "un = of_nat (total_len es)"
    and "unat head + bs_room out < 2 ^ 64"
  shows "bs_inv out' \<and> bs_contents out' = bs_contents out @ take (unat head' - unat head) (drop (unat head) S)
    \<and> unat head \<le> unat head' \<and> chain (Suc (unat head')) es' \<and> set es' \<subseteq> set es
    \<and> {unat head..<unat head'} \<union> cells es' = cells es
    \<and> un' = of_nat (total_len es') \<and> unat head' + bs_room out' = unat head + bs_room out
    \<and> bs_write_count out' - head' = bs_write_count out - head \<and> bs_read_count out' = bs_read_count out
    \<and> bs_capacity out' = bs_capacity out \<and> bs_error out' = bs_error out \<and> \<not> bs_input_ended out'
    \<and> (unat head' = unat head \<and> es' = es \<or> unat head' \<in> nend ` set es)"
  using assms
proof (induction es un head out rule: assemble_loop.induct)
  case (2 it es un head out)
  show ?case
  proof (cases "fst it > head")
    case True
    with "2.prems" show ?thesis by (auto simp: word_less_nat_alt nstart_def)
  next
    case False
    obtain n out1 where w: "ByteStream_write (snd it) out = (n, out1)" by fastforce
    have it: "nstart it = unat head" "snd it \<noteq> []" "frag S it" "nend it \<le> unat head + bs_room out"
      using "2.prems" False by (auto simp: word_less_nat_alt nstart_def)
    then have len: "length (snd it) \<le> bs_room out" "length (snd it) < 2 ^ 64"
      using "2.prems"(7) by (auto simp: nend_def)
    note W = write_spec [OF "2.prems"(4) len(2) w]
    have n: "unat n = length (snd it)" using W(1) len "2.prems"(5) by (simp add: accepted_def)
    have h1: "unat (head + n) = nend it"
      using n it "2.prems"(7) by (subst unat_add_small) (auto simp: nend_def)
    have c1: "bs_contents out1 = bs_contents out @ snd it" using W(3) n by simp
    then have "unat (bs_cur_size out1) = unat (bs_cur_size out) + length (snd it)"
      by (metis length_append length_bs_contents)
    then have room: "nend it + bs_room out1 = unat head + bs_room out"
      using W(4) it len by (simp add: bs_room_def nend_def)
    have IH: "bs_inv out' \<and> bs_contents out' = bs_contents out1 @ take (unat head' - unat (head + n)) (drop (unat (head + n)) S)
      \<and> unat (head + n) \<le> unat head' \<and> chain (Suc (unat head')) es' \<and> set es' \<subseteq> set es
      \<and> {unat (head + n)..<unat head'} \<union> cells es' = cells es
      \<and> un' = of_nat (total_len es') \<and> unat head' + bs_room out' = unat (head + n) + bs_room out1
      \<and> bs_write_count out' - head' = bs_write_count out1 - (head + n) \<and> bs_read_count out' = bs_read_count out1
      \<and> bs_capacity out' = bs_capacity out1 \<and> bs_error out' = bs_error out1 \<and> \<not> bs_input_ended out'
      \<and> (unat head' = unat (head + n) \<and> es' = es \<or> unat head' \<in> nend ` set es)"
      using "2.prems" False w h1 room W
      by (intro "2.IH" [OF False refl, of "(n, out1)"]) (auto simp: str_size_def)
    have "snd it = take (length (snd it)) (drop (unat head) S)" using it by (simp add: frag_def)
    then have "snd it @ take (unat head' - nend it) (drop (nend it) S)
        = take (length (snd it) + (unat head' - nend it)) (drop (unat head) S)"
      by (subst take_add) (simp add: nend_def it(1) add.commute)
    also have "length (snd it) + (unat head' - nend it) = unat head' - unat head"
      using IH h1 it by (simp add: nend_def)
    finally have "bs_contents out' = bs_contents out @ take (unat head' - unat head) (drop (unat head) S)"
      using IH c1 h1 by simp
    moreover have "{unat head..<unat head'} = {nstart it..<nend it} \<union> {nend it..<unat head'}"
      using it IH h1 nend_ge_nstart [of it] by auto
    ultimately show ?thesis using IH W h1 room nend_ge_nstart [of it] it by auto
  qed
qed simp


section \<open>Invariant\<close>

text \<open>The indices whose byte the reassembler has taken in.\<close>

definition received :: "StreamReassembler \<Rightarrow> nat set" where
  "received r = {..<unat (sr_head_index r)} \<union> cells (sr_auxiliary_cache r)"

definition window_end :: "StreamReassembler \<Rightarrow> nat" where
  "window_end r = unat (sr_head_index r) + bs_room (sr_output r)"

text \<open>
  \<open>out\<close> is what the reader has taken from the output of a reassembler of the stream \<open>S\<close>.
\<close>

definition sr_core :: "bytes \<Rightarrow> bytes \<Rightarrow> StreamReassembler \<Rightarrow> bool" where
  "sr_core S out r \<longleftrightarrow>
     bs_inv (sr_output r) \<and> length S + unat (bs_capacity (sr_output r)) < 2 ^ 64 \<and>
     unat (sr_head_index r) \<le> length S \<and>
     out @ bs_contents (sr_output r) = take (unat (sr_head_index r)) S \<and>
     chain (Suc (unat (sr_head_index r))) (sr_auxiliary_cache r) \<and>
     (\<forall>e\<in>set (sr_auxiliary_cache r). frag S e \<and> nend e \<le> window_end r) \<and>
     sr_unassembled_bytes r = of_nat (total_len (sr_auxiliary_cache r)) \<and>
     bs_write_count (sr_output r) = sr_head_index r \<and> bs_capacity (sr_output r) = sr_capacity r"

definition sr_inv :: "bytes \<Rightarrow> bytes \<Rightarrow> StreamReassembler \<Rightarrow> bool" where
  "sr_inv S out r \<longleftrightarrow>
     sr_core S out r \<and>
     (bs_input_ended (sr_output r) \<longleftrightarrow> sr_eof r \<and> sr_auxiliary_cache r = []) \<and>
     (sr_eof r \<longrightarrow> {length S - 1..<length S} \<subseteq> received r)"

lemma sr_coreD:
  assumes "sr_core S out r"
  shows "bs_inv (sr_output r)" and "unat (sr_head_index r) \<le> length S"
    and "length S + unat (bs_capacity (sr_output r)) < 2 ^ 64"
    and "out @ bs_contents (sr_output r) = take (unat (sr_head_index r)) S"
    and "chain (Suc (unat (sr_head_index r))) (sr_auxiliary_cache r)"
    and "\<forall>e\<in>set (sr_auxiliary_cache r). frag S e" and "\<forall>e\<in>set (sr_auxiliary_cache r). nend e \<le> window_end r"
    and "sr_unassembled_bytes r = of_nat (total_len (sr_auxiliary_cache r))"
    and "bs_write_count (sr_output r) = sr_head_index r" and "bs_capacity (sr_output r) = sr_capacity r"
  using assms by (auto simp: sr_core_def)

lemma window_end_bound: "sr_core S out r \<Longrightarrow> window_end r < 2 ^ 64"
  unfolding sr_core_def window_end_def bs_room_def by linarith

lemma unat_window_end:
  assumes "sr_core S out r"
  shows "unat (sr_head_index r + ByteStream_remaining_capacity (sr_output r)) = window_end r"
proof -
  have "unat (ByteStream_remaining_capacity (sr_output r)) = bs_room (sr_output r)"
    using assms by (simp add: unat_remaining_capacity sr_core_def)
  then show ?thesis
    using window_end_bound [OF assms] by (subst unat_add_small) (simp_all add: window_end_def)
qed

lemma sr_core_total:
  assumes "sr_core S out r"
  shows "unat (sr_head_index r) + total_len (sr_auxiliary_cache r) \<le> window_end r"
proof (cases "sr_auxiliary_cache r")
  case (Cons e es)
  note C = sr_coreD [OF assms]
  have "Suc (unat (sr_head_index r)) \<le> window_end r"
    using C(5,7) Cons nend_ge_nstart [of e] by auto
  with chain_total_le [OF C(5), of "window_end r"] C(7) show ?thesis by simp
qed (simp add: window_end_def)

lemma unat_unassembled:
  assumes "sr_core S out r"
  shows "unat (sr_unassembled_bytes r) = total_len (sr_auxiliary_cache r)"
  using sr_core_total [OF assms] window_end_bound [OF assms] sr_coreD(8) [OF assms]
  by (simp add: unat_of_nat)

lemma empty_iff: "sr_core S out r \<Longrightarrow> StreamReassembler_empty r \<longleftrightarrow> sr_auxiliary_cache r = []"
  using unat_unassembled [of S out r] chain_total_0 [OF sr_coreD(5), of S out r]
  by (simp add: StreamReassembler_empty_def unat_eq_0 [symmetric])

lemma head_gap: "sr_core S out r \<Longrightarrow> unat (sr_head_index r) \<notin> received r"
  using cells_ge [OF sr_coreD(5)] by (force simp: received_def)

lemma head_least: "sr_core S out r \<Longrightarrow> unat (sr_head_index r) = (LEAST i. i \<notin> received r)"
  by (rule Least_equality [symmetric]) (auto simp: head_gap, auto simp: received_def not_le)

lemma sr_core_full: "sr_core S out r \<Longrightarrow> unat (sr_head_index r) = length S \<Longrightarrow> sr_auxiliary_cache r = []"
  using nend_ge_nstart by (cases "sr_auxiliary_cache r") (fastforce simp: sr_core_def frag_def)+

lemma received_all:
  assumes "sr_core S out r" and "sr_auxiliary_cache r = []" and "{length S - 1..<length S} \<subseteq> received r"
  shows "unat (sr_head_index r) = length S"
  using assms sr_coreD(2) [OF assms(1)] by (cases "length S") (auto simp: received_def)

text \<open>The input ends exactly when the last byte has been assembled.\<close>

lemma ended_iff:
  assumes "sr_inv S out r"
  shows "bs_input_ended (sr_output r) \<longleftrightarrow> sr_eof r \<and> unat (sr_head_index r) = length S"
  using assms received_all [of S out r] sr_core_full [of S out r] by (auto simp: sr_inv_def)

lemma sr_inv_end_if_done:
  assumes "sr_core S out r" and "bs_input_ended (sr_output r) \<longrightarrow> sr_eof r \<and> sr_auxiliary_cache r = []"
    and "sr_eof r \<longrightarrow> {length S - 1..<length S} \<subseteq> received r"
  shows "sr_inv S out (end_if_done r)"
  using assms empty_iff [OF assms(1)]
  by (auto simp: sr_inv_def end_if_done_def sr_core_def ByteStream_end_input_def received_def
      window_end_def bs_inv_def bs_contents_def bs_room_def)

lemma end_if_done_simps [simp]:
  "sr_head_index (end_if_done r) = sr_head_index r"
  "sr_auxiliary_cache (end_if_done r) = sr_auxiliary_cache r"
  "sr_unassembled_bytes (end_if_done r) = sr_unassembled_bytes r"
  "sr_eof (end_if_done r) = sr_eof r" "received (end_if_done r) = received r"
  by (simp_all add: end_if_done_def received_def)


section \<open>Pushing a substring\<close>

text \<open>A substring of \<open>S\<close>, flagged as the last one only at the end of \<open>S\<close>, empty only at the head.\<close>

definition valid_push :: "bytes \<Rightarrow> StreamReassembler \<Rightarrow> bytes \<Rightarrow> u64 \<Rightarrow> bool \<Rightarrow> bool" where
  "valid_push S r d i e \<longleftrightarrow>
     frag S (i, d) \<and> (e \<longrightarrow> unat i + length d = length S) \<and> (d = [] \<longrightarrow> i \<le> sr_head_index r)"

text \<open>What a push does to the cache when the window is not closed.\<close>

lemma assemble_string_core:
  assumes c: "sr_core S out r" and ne: "\<not> bs_input_ended (sr_output r)"
    and n: "frag S n" "snd n \<noteq> []" "nend n \<le> window_end r" "unat (sr_head_index r) \<le> nstart n"
    and e: "unat node_end = nend n" and len: "len = of_nat (length (snd n))"
    and mf: "merge_following node_end n (sr_auxiliary_cache r) (sr_unassembled_bytes r) = (n', cache', un')"
    and mp: "merge_preceding len n' cache' un' = (cache'', un'')"
    and r': "r' = assemble_string (r\<lparr>sr_auxiliary_cache := cache'', sr_unassembled_bytes := un''\<rparr>)"
  shows "sr_core S out r' \<and> \<not> bs_input_ended (sr_output r') \<and> sr_eof r' = sr_eof r
    \<and> received r' = received r \<union> {nstart n..<nend n}"
proof -
  note C = sr_coreD [OF c]
  let ?H = "unat (sr_head_index r)"
  have ch: "chain ?H (sr_auxiliary_cache r)" using C(5) by (rule chain_mono) simp
  note I = insert_fragment [OF ch C(6,7) n window_end_bound [OF c] e len C(8) mf mp]
  obtain es un3 head o1 where a: "assemble_loop cache'' un'' (sr_head_index r) (sr_output r) = (es, un3, head, o1)"
    by (metis prod_cases4)
  have req: "r' = r\<lparr>sr_auxiliary_cache := es, sr_unassembled_bytes := un3, sr_head_index := head, sr_output := o1\<rparr>"
    using a by (simp add: r' assemble_string_def)
  have A: "bs_inv o1 \<and> bs_contents o1 = bs_contents (sr_output r) @ take (unat head - ?H) (drop ?H S)
    \<and> ?H \<le> unat head \<and> chain (Suc (unat head)) es \<and> set es \<subseteq> set cache''
    \<and> {?H..<unat head} \<union> cells es = cells cache''
    \<and> un3 = of_nat (total_len es) \<and> unat head + bs_room o1 = ?H + bs_room (sr_output r)
    \<and> bs_write_count o1 - head = bs_write_count (sr_output r) - sr_head_index r
    \<and> bs_read_count o1 = bs_read_count (sr_output r)
    \<and> bs_capacity o1 = bs_capacity (sr_output r) \<and> bs_error o1 = bs_error (sr_output r)
    \<and> \<not> bs_input_ended o1 \<and> (unat head = ?H \<and> es = cache'' \<or> unat head \<in> nend ` set cache'')"
    using I C(1) ne window_end_bound [OF c] by (intro assemble_spec [OF a]) (auto simp: window_end_def)
  have "unat head \<le> length S" using A C(2) I(2) by (auto simp: frag_def)
  moreover have "out @ bs_contents o1 = take (unat head) S"
    using A C(4) by (simp add: append_assoc [symmetric] del: append_assoc)
      (metis le_add_diff_inverse take_add)
  moreover have "{..<unat head} = {..<?H} \<union> {?H..<unat head}" using A by auto
  then have "received r' = received r \<union> {nstart n..<nend n}"
    using A I(4) by (auto simp: received_def req)
  ultimately show ?thesis
    using A I C(3,9,10) unfolding sr_core_def req window_end_def by auto
qed

text \<open>A push into a closed window leaves the cache as it is.\<close>

lemma assemble_string_closed:
  assumes c: "sr_core S out r"
    and mf: "merge_following (sr_head_index r) (sr_head_index r, []) (sr_auxiliary_cache r) (sr_unassembled_bytes r) = (n', cache', un')"
    and mp: "merge_preceding 0 n' cache' un' = (cache'', un'')"
  shows "assemble_string (r\<lparr>sr_auxiliary_cache := cache'', sr_unassembled_bytes := un''\<rparr>) = r"
proof -
  note C = sr_coreD [OF c]
  let ?n = "(sr_head_index r, []) :: node"
  have gt: "\<forall>e\<in>set (sr_auxiliary_cache r). nstart ?n < nstart e \<and> nend e < 2 ^ 64"
    using chain_ge [OF C(5)] C(7) window_end_bound [OF c] by (fastforce simp: nstart_def)
  then have lt: "\<forall>e\<in>set (sr_auxiliary_cache r). ?n < e" by (simp add: node_less_iff)
  have ab: "absorb ?n (sr_auxiliary_cache r) = (?n, sr_auxiliary_cache r, 0)"
    using gt nend_ge_nstart [of "hd (sr_auxiliary_cache r)"] by (cases "sr_auxiliary_cache r") (auto simp: nend_def)
  have "merge_following (sr_head_index r) ?n ([] @ sr_auxiliary_cache r) (sr_unassembled_bytes r)
      = (?n, [] @ sr_auxiliary_cache r, sr_unassembled_bytes r - of_nat 0)"
    using gt lt unat_lt_64 [of "sr_head_index r"]
    by (intro merge_following_absorb [OF _ _ C(5) _ _ _ ab]) (auto simp: nend_def nstart_def dest: less_not_sym)
  with mf merge_preceding_first [OF lt] mp
  have eq: "cache'' = ?n # sr_auxiliary_cache r" "un'' = sr_unassembled_bytes r" by auto
  have w: "ByteStream_write [] (sr_output r) = (0, sr_output r)"
    by (cases "sr_output r") (simp add: ByteStream_write_def str_size_def)
  have "assemble_loop (sr_auxiliary_cache r) un h out = (sr_auxiliary_cache r, un, h, out)"
    if "h = sr_head_index r" for un h out
    using that gt by (cases "sr_auxiliary_cache r") (auto simp: nstart_def word_less_nat_alt)
  then show ?thesis by (simp add: assemble_string_def eq w str_size_def)
qed


lemma frag_first_part:
  assumes "frag S (i, d)" and "unat i \<le> unat j" and "unat j \<le> unat i + length d"
  shows "frag S (j, substr d (j - i) n)"
proof -
  have "unat (j - i) = unat j - unat i" using assms(2) by (simp add: unat_sub word_le_nat_alt)
  then show ?thesis
    unfolding substr_def using assms by (intro frag_sub [OF assms(1)]) auto
qed

lemma push_main:
  assumes c: "sr_core S out r" and ne: "\<not> bs_input_ended (sr_output r)" and v: "frag S (i, d)" "d \<noteq> []"
    and in1: "unat i < window_end r" and in2: "unat (sr_head_index r) < unat i + length d"
    and st: "start = max i (sr_head_index r)"
    and len: "len = min (sr_head_index r + ByteStream_remaining_capacity (sr_output r)) (i + str_size d) - start"
    and mf: "merge_following (start + len) (start, substr d (start - i) len) (sr_auxiliary_cache r)
      (sr_unassembled_bytes r) = (n', cache', un')"
    and mp: "merge_preceding len n' cache' un' = (cache'', un'')"
    and r': "r' = assemble_string (r\<lparr>sr_auxiliary_cache := cache'', sr_unassembled_bytes := un''\<rparr>)"
  shows "sr_core S out r' \<and> \<not> bs_input_ended (sr_output r') \<and> sr_eof r' = sr_eof r
    \<and> received r' = received r \<union> ({unat i..<unat i + length d} \<inter> {..<window_end r})"
proof -
  let ?H = "unat (sr_head_index r)" and ?W = "window_end r" and ?n = "(start, substr d (start - i) len)"
  have S: "unat i + length d \<le> length S" "length S < 2 ^ 64"
    using v(1) sr_coreD(3) [OF c] by (auto simp: frag_def nend_def nstart_def)
  have ust: "unat start = max (unat i) ?H" by (simp add: st unat_max)
  have HW: "?H \<le> ?W" by (simp add: window_end_def)
  have de: "unat (i + str_size d) = unat i + length d"
    using S by (subst unat_add_small) (simp_all add: unat_str_size)
  then have mn: "unat (min (sr_head_index r + ByteStream_remaining_capacity (sr_output r)) (i + str_size d))
      = min ?W (unat i + length d)" by (simp add: unat_min unat_window_end [OF c])
  have le: "unat start \<le> min ?W (unat i + length d)" using in1 in2 ust HW by auto
  then have ulen: "unat len = min ?W (unat i + length d) - unat start"
    unfolding len by (subst unat_sub) (simp_all only: word_le_nat_alt mn)
  have uend: "unat (start + len) = min ?W (unat i + length d)"
    using le ulen S by (subst unat_add_small) auto
  have off: "unat (start - i) = unat start - unat i" using ust by (simp add: unat_sub word_le_nat_alt)
  have ln: "length (snd ?n) = unat len" using ulen off ust le by (auto simp: substr_def min_def max_def)
  have fr: "frag S ?n" using v(1) ust in2 by (intro frag_first_part) auto
  have n: "nstart ?n = unat start" "nend ?n = min ?W (unat i + length d)"
    using ln ulen le by (simp_all add: nend_def nstart_def)
  show ?thesis
  proof (cases "unat len = 0")
    case True
    then have "len = 0" by (simp add: unat_eq_0)
    moreover from True ulen le in1 in2 ust HW v(2) have "?W = ?H" "unat start = ?H"
      by (auto simp: min_def max_def neq_Nil_conv split: if_splits)
    moreover from this have "start = sr_head_index r" by (intro word_eq_unatI)
    ultimately have "r' = r" using assemble_string_closed [OF c, of n' cache' un' cache'' un''] mf mp
      by (simp add: r' substr_def)
    with c ne \<open>?W = ?H\<close> show ?thesis by (auto simp: received_def)
  next
    case False
    with ln have "snd ?n \<noteq> []" by auto
    moreover have "len = of_nat (length (snd ?n))" using ln by simp
    ultimately have A: "sr_core S out r' \<and> \<not> bs_input_ended (sr_output r') \<and> sr_eof r' = sr_eof r
      \<and> received r' = received r \<union> {nstart ?n..<nend ?n}"
      using uend n ust by (intro assemble_string_core [OF c ne fr _ _ _ _ _ mf mp r']) auto
    have "received r \<union> {nstart ?n..<nend ?n} = received r \<union> ({unat i..<unat i + length d} \<inter> {..<?W})"
      using n ust by (auto simp: received_def)
    with A show ?thesis by simp
  qed
qed

lemma push_spec:
  assumes inv: "sr_inv S out r" and v: "valid_push S r d i e"
  shows "sr_inv S out (push_substring d i e r)
    \<and> received (push_substring d i e r) = received r \<union> ({unat i..<unat i + length d} \<inter> {..<window_end r})
    \<and> (sr_eof (push_substring d i e r) \<longleftrightarrow> sr_eof r \<or> e \<and> unat i + length d \<le> window_end r)"
proof -
  let ?H = "unat (sr_head_index r)" and ?W = "window_end r" and ?E = "unat i + length d"
  define r1 where "r1 = r\<lparr>sr_eof := sr_eof r \<or> e \<and> ?E \<le> ?W\<rparr>"
  have c: "sr_core S out r" using inv by (simp add: sr_inv_def)
  have S: "?E \<le> length S" "length S < 2 ^ 64" and fr: "frag S (i, d)" and last: "e \<longrightarrow> ?E = length S"
    and em: "d = [] \<longrightarrow> unat i \<le> ?H"
    using v sr_coreD(3) [OF c] by (auto simp: valid_push_def frag_def nend_def nstart_def word_le_nat_alt)
  have de: "unat (i + str_size d) = ?E"
    using S by (subst unat_add_small) (simp_all add: unat_str_size)
  have r1: "(if i + str_size d \<le> sr_head_index r + ByteStream_remaining_capacity (sr_output r)
      then r\<lparr>sr_eof := sr_eof r \<or> e\<rparr> else r) = r1"
    by (simp add: word_le_nat_alt de unat_window_end [OF c] r1_def)
  have c1: "sr_core S out r1" and rec1: "received r1 = received r"
    using c by (auto simp: r1_def sr_core_def window_end_def received_def)
  have old: "sr_eof r \<longrightarrow> {length S - 1..<length S} \<subseteq> received r" using inv by (simp add: sr_inv_def)
  have new: "{length S - 1..<length S} \<subseteq> received r \<union> ({unat i..<?E} \<inter> {..<?W})" if "e" "?E \<le> ?W"
    using that last em by (cases "length d") (auto simp: received_def)
  show ?thesis
  proof (cases "unat i \<ge> ?W \<or> ?E \<le> ?H")
    case True
    then have p: "push_substring d i e r = end_if_done r1"
      using r1 by (auto simp: push_substring_def Let_def word_le_nat_alt de unat_window_end [OF c] r1_def)
    from True have rec: "received r \<union> ({unat i..<?E} \<inter> {..<?W}) = received r"
      by (auto simp: received_def)
    have "sr_inv S out (end_if_done r1)"
      using inv c1 old new rec by (intro sr_inv_end_if_done) (auto simp: r1_def received_def sr_inv_def)
    with p rec rec1 show ?thesis by (simp add: r1_def)
  next
    case False
    define start len where "start = max i (sr_head_index r)"
      and "len = min (sr_head_index r + ByteStream_remaining_capacity (sr_output r)) (i + str_size d) - start"
    obtain n' cache' un' where mf: "merge_following (start + len) (start, substr d (start - i) len)
      (sr_auxiliary_cache r) (sr_unassembled_bytes r) = (n', cache', un')" by (metis prod_cases3)
    obtain cache'' un'' where mp: "merge_preceding len n' cache' un' = (cache'', un'')" by fastforce
    define r2 where "r2 = assemble_string (r1\<lparr>sr_auxiliary_cache := cache'', sr_unassembled_bytes := un''\<rparr>)"
    have p: "push_substring d i e r = end_if_done r2"
      using r1 False mf mp
      by (simp add: push_substring_def Let_def word_le_nat_alt de unat_window_end [OF c] r2_def
          start_def len_def) (simp add: r1_def)
    have dne: "d \<noteq> []" using False em by auto
    have ne: "\<not> bs_input_ended (sr_output r1)"
      using False ended_iff [OF inv] S by (auto simp: r1_def)
    have M: "sr_core S out r2 \<and> \<not> bs_input_ended (sr_output r2) \<and> sr_eof r2 = sr_eof r1
      \<and> received r2 = received r1 \<union> ({unat i..<unat i + length d} \<inter> {..<window_end r1})"
      using False mf mp
      by (intro push_main [OF c1 ne fr dne _ _ _ _ _ _ r2_def, of start len n' cache' un'])
         (auto simp: r1_def start_def len_def window_end_def)
    have "window_end r1 = ?W" and "sr_eof r1 \<longleftrightarrow> sr_eof r \<or> e \<and> ?E \<le> ?W"
      by (simp_all add: r1_def window_end_def)
    note M' = M [unfolded rec1 this]
    have "sr_inv S out (end_if_done r2)"
      using M' old new by (intro sr_inv_end_if_done) blast+
    with p M' show ?thesis by simp
  qed
qed


section \<open>Runs: pushes interleaved with reads\<close>

text \<open>
  The state of a run is the reassembler with the bytes its reader has taken so far. A step
  pushes a substring of \<open>S\<close> or reads from \<open>stream_out()\<close>.
\<close>

inductive sr_step :: "bytes \<Rightarrow> StreamReassembler \<times> bytes \<Rightarrow> StreamReassembler \<times> bytes \<Rightarrow> bool" for S where
  sr_push: "valid_push S r d i e \<Longrightarrow> sr_step S (r, out) (push_substring d i e r, out)"
| sr_read: "ByteStream_read n (sr_output r) = Some (d, o') \<Longrightarrow>
     sr_step S (r, out) (r\<lparr>sr_output := o'\<rparr>, out @ d)"

inductive_cases sr_stepE: "sr_step S (r, out) (r', out')"

definition sr_init :: "bytes \<Rightarrow> size_t \<Rightarrow> StreamReassembler \<times> bytes \<Rightarrow> bool" where
  "sr_init S cap s \<longleftrightarrow>
     0 < unat cap \<and> unat cap < 2 ^ 63 \<and> length S + unat cap < 2 ^ 64 \<and> s = (StreamReassembler_new cap, [])"

lemma sr_inv_new: "sr_init S cap s \<Longrightarrow> sr_inv S (snd s) (fst s)"
  by (auto simp: sr_init_def sr_inv_def sr_core_def StreamReassembler_new_def bs_inv_new received_def
      ByteStream_new_def bs_contents_def bs_inv_def)

lemma sr_inv_read:
  assumes inv: "sr_inv S out r" and rd: "ByteStream_read n (sr_output r) = Some (d, o')"
  shows "sr_inv S (out @ d) (r\<lparr>sr_output := o'\<rparr>)"
proof -
  have b: "bs_inv (sr_output r)" using inv by (simp add: sr_inv_def sr_core_def)
  obtain b' where R: "ByteStream_read n (sr_output r) = Some (take (unat n) (bs_contents (sr_output r)), b')"
    "bs_inv b'" "bs_contents b' = drop (unat n) (bs_contents (sr_output r))"
    "bs_capacity b' = bs_capacity (sr_output r)" "bs_write_count b' = bs_write_count (sr_output r)"
    "bs_input_ended b' = bs_input_ended (sr_output r)"
    by (rule read_spec [OF b, of n])
  have b': "b' = o'" "d = take (unat n) (bs_contents (sr_output r))" using R(1) rd by auto
  have "unat (bs_cur_size b') \<le> unat (bs_cur_size (sr_output r))"
    using arg_cong [OF R(3), of length] by simp
  then have "bs_room (sr_output r) \<le> bs_room b'" by (simp add: bs_room_def R(4))
  then have W: "window_end r \<le> window_end (r\<lparr>sr_output := o'\<rparr>)" by (simp add: window_end_def b')
  have "(out @ d) @ bs_contents o' = out @ bs_contents (sr_output r)"
    using R(3) b' by simp
  with W R inv show ?thesis
    unfolding sr_inv_def sr_core_def b'(1) [symmetric] received_def by (auto intro: order_trans)
qed

lemma sr_capacity_assemble [simp]: "sr_capacity (assemble_string r) = sr_capacity r"
  by (simp add: assemble_string_def split: prod.splits)

lemma sr_capacity_push [simp]: "sr_capacity (push_substring d i e r) = sr_capacity r"
  by (simp add: push_substring_def end_if_done_def Let_def split: prod.splits)

definition sr_run_inv :: "bytes \<Rightarrow> size_t \<Rightarrow> StreamReassembler \<times> bytes \<Rightarrow> bool" where
  "sr_run_inv S cap s \<longleftrightarrow> sr_inv S (snd s) (fst s) \<and> sr_capacity (fst s) = cap"

interpretation sr: invariant_system "sr_init S cap" "sr_step S" "sr_run_inv S cap"
proof
  fix s assume "sr_init S cap s"
  then show "sr_run_inv S cap s"
    using sr_inv_new [of S cap s] by (auto simp: sr_run_inv_def sr_init_def StreamReassembler_new_def)
next
  fix s t assume "sr_run_inv S cap s" "sr_step S s t"
  then show "sr_run_inv S cap t" unfolding sr_run_inv_def
    by (cases s; cases t) (auto elim!: sr_stepE simp: push_spec sr_inv_read)
qed

lemma sr_reachable:
  assumes "reachable (sr_init S cap) (sr_step S) (r, out)"
  shows "sr_inv S out r" and "sr_core S out r" and "bs_capacity (sr_output r) = cap"
  using sr.reachable_inv [OF assms] by (auto simp: sr_run_inv_def sr_inv_def sr_coreD(10))

lemma received_above_head:
  assumes "sr_core S out r"
  shows "{i \<in> received r. unat (sr_head_index r) \<le> i} = cells (sr_auxiliary_cache r)"
  using cells_ge [OF sr_coreD(5) [OF assms]] by (auto simp: received_def intro: Suc_leD)

lemma sr_capacity_bound:
  assumes "sr_core S out r"
  shows "length (bs_contents (sr_output r)) + unat (sr_unassembled_bytes r) \<le> unat (bs_capacity (sr_output r))"
  using sr_core_total [OF assms] unat_unassembled [OF assms] bs_inv_length [OF sr_coreD(1) [OF assms]]
  by (simp add: window_end_def bs_room_def)

section \<open>Properties\<close>

text \<open>
  C6: in every run of reads and of pushes of substrings of \<open>S\<close> in which no empty substring is pushed
  ahead of the assembled bytes (\<open>valid_push\<close>), what has been read followed by what is buffered is exactly the prefix of
  \<open>S\<close> up to the head index; the head index is the number of bytes written; the input ends
  exactly when the end was seen and all of \<open>S\<close> is assembled; \<open>unassembled_bytes()\<close> counts
  every stored index once; and stored plus buffered bytes never exceed the capacity.
\<close>
theorem StreamReassembler_safe:
  assumes "reachable (sr_init S cap) (sr_step S) (r, out)"
  shows "out @ bs_contents (sr_output r) = take (unat (sr_head_index r)) S \<and>
    ByteStream_bytes_written (sr_output r) = sr_head_index r \<and>
    (bs_input_ended (sr_output r) \<longleftrightarrow> sr_eof r \<and> unat (sr_head_index r) = length S) \<and>
    unat (StreamReassembler_unassembled_bytes r) = card {i \<in> received r. unat (sr_head_index r) \<le> i} \<and>
    length (bs_contents (sr_output r)) + unat (StreamReassembler_unassembled_bytes r) \<le> unat cap"
proof -
  note R = sr_reachable [OF assms]
  note C = sr_coreD [OF R(2)]
  have "unat (StreamReassembler_unassembled_bytes r) = card {i \<in> received r. unat (sr_head_index r) \<le> i}"
    using card_cells [OF C(5)] unat_unassembled [OF R(2)] received_above_head [OF R(2)]
    by (simp add: StreamReassembler_unassembled_bytes_def)
  then show ?thesis
    using C(4,9) ended_iff [OF R(1)] sr_capacity_bound [OF R(2)] R(3)
    by (simp add: StreamReassembler_unassembled_bytes_def ByteStream_bytes_written_def)
qed

lemma sr_example_run:
  "reachable (sr_init [10, 20, 30] 4) (sr_step [10, 20, 30])
     (push_substring [10] 0 False (push_substring [20, 30] 1 True (StreamReassembler_new 4)), [])"
proof -
  let ?r = "StreamReassembler_new 4"
  have "reachable (sr_init [10, 20, 30] 4) (sr_step [10, 20, 30]) (?r, [])"
    by (rule reach_init) (simp add: sr_init_def)
  moreover have "sr_step [10, 20, 30] (?r, []) (push_substring [20, 30] 1 True ?r, [])"
    by (rule sr_push) code_simp
  moreover have "sr_step [10, 20, 30] (push_substring [20, 30] 1 True ?r, [])
      (push_substring [10] 0 False (push_substring [20, 30] 1 True ?r), [])"
    by (rule sr_push) code_simp
  ultimately show ?thesis by (rule reach_step [OF reach_step])
qed

theorem StreamReassembler_safe_witness:
  "bs_contents (sr_output (push_substring [10] 0 False (push_substring [20, 30] 1 True (StreamReassembler_new 4))))
     = [10, 20, 30]"
proof -
  have "unat (sr_head_index (push_substring [10] 0 False (push_substring [20, 30] 1 True (StreamReassembler_new 4)))) = 3"
    by code_simp
  with conjunct1 [OF StreamReassembler_safe [OF sr_example_run]] show ?thesis by simp
qed

text \<open>
  C7: in a state reached by such pushes, a push of a substring of \<open>S\<close> that is not empty, or not ahead
  of the assembled bytes (\<open>valid_push\<close>), adds to the received indices exactly those of its substring that lie before the
  end of the window (head index plus free room), and afterwards the head index is the
  first index not yet received: every byte that can be assembled has been assembled.
\<close>
theorem push_substring_refines:
  assumes "reachable (sr_init S cap) (sr_step S) (r, out)" and "valid_push S r d i e"
  shows "received (push_substring d i e r) = received r \<union>
      ({unat i..<unat i + length d} \<inter> {..<unat (sr_head_index r) + bs_room (sr_output r)}) \<and>
    unat (sr_head_index (push_substring d i e r)) = (LEAST j. j \<notin> received (push_substring d i e r)) \<and>
    (sr_eof (push_substring d i e r) \<longleftrightarrow>
      sr_eof r \<or> e \<and> unat i + length d \<le> unat (sr_head_index r) + bs_room (sr_output r))"
proof -
  note P = push_spec [OF sr_reachable(1) [OF assms(1)] assms(2)]
  then have "sr_core S out (push_substring d i e r)" by (simp add: sr_inv_def)
  with P head_least show ?thesis by (auto simp: window_end_def)
qed

theorem push_substring_refines_witness:
  "received (push_substring [20, 30] 1 True (push_substring [10] 0 False
     (push_substring [20, 30] 1 True (StreamReassembler_new 4)))) = {..<3}"
proof -
  let ?r = "push_substring [10] 0 False (push_substring [20, 30] 1 True (StreamReassembler_new 4))"
  have v: "valid_push [10, 20, 30] ?r [20, 30] 1 True" by code_simp
  have "sr_auxiliary_cache ?r = [] \<and> unat (sr_head_index ?r) = 3" by code_simp
  then have "received ?r = {..<3}" by (simp add: received_def)
  with conjunct1 [OF push_substring_refines [OF sr_example_run v]]
  have "received (push_substring [20, 30] 1 True ?r) = {..<3} \<union>
      ({1..<3} \<inter> {..<unat (sr_head_index ?r) + bs_room (sr_output ?r)})"
    by (simp add: numeral_3_eq_3)
  also have "{..<3} \<union> ({1..<3} \<inter> A) = {..<3}" for A :: "nat set" by auto
  finally show ?thesis .
qed

section \<open>Empty substrings ahead of the head\<close>

text \<open>Once the output has ended, no push changes it any more.\<close>

lemma assemble_loop_ended:
  "bs_input_ended out \<Longrightarrow> assemble_loop es un h out = (es', un', h', out') \<Longrightarrow> out' = out"
  by (induction es arbitrary: un h) (auto simp: write_ended split: if_splits)

lemma push_ended:
  assumes "bs_input_ended (sr_output r)"
  shows "sr_output (push_substring d i e r) = sr_output r"
proof -
  have same: "ByteStream_end_input (sr_output r) = sr_output r" using assms by (simp add: ByteStream_end_input_def)
  have "sr_output (assemble_string q) = sr_output r" if "sr_output q = sr_output r" for q
    using that assms assemble_loop_ended [of "sr_output r"] by (auto simp: assemble_string_def split: prod.splits)
  then show ?thesis using same
    by (simp add: push_substring_def Let_def end_if_done_def split: prod.splits)
qed

definition push_all :: "(bytes \<times> u64 \<times> bool) list \<Rightarrow> StreamReassembler \<Rightarrow> StreamReassembler" where
  "push_all ps r = fold (\<lambda>(d, i, e). push_substring d i e) ps r"

lemma push_all_ended: "bs_input_ended (sr_output r) \<Longrightarrow> sr_output (push_all ps r) = sr_output r"
  unfolding push_all_def by (induction ps arbitrary: r) (auto simp: push_ended)

text \<open>A push inside the window, at or ahead of the head, stores its bytes as they are.\<close>

lemma push_inside:
  assumes b: "bs_inv (sr_output r)" "window_end r < 2 ^ 64"
    and i: "unat (sr_head_index r) \<le> unat i" "unat i < window_end r" "unat i + length d \<le> window_end r"
      "unat (sr_head_index r) < unat i + length d"
    and m: "merge_following (i + str_size d) (i, d) (sr_auxiliary_cache r) (sr_unassembled_bytes r) = (n, cache, un)"
      "merge_preceding (str_size d) n cache un = (cache', un')"
  shows "push_substring d i e r =
    end_if_done (assemble_string (r\<lparr>sr_eof := sr_eof r \<or> e, sr_auxiliary_cache := cache', sr_unassembled_bytes := un'\<rparr>))"
proof -
  have d: "length d < 2 ^ 64" "unat (str_size d) = length d" using i(3) b(2) by (simp_all add: unat_str_size)
  have w: "unat (sr_head_index r + ByteStream_remaining_capacity (sr_output r)) = window_end r"
    using b by (simp add: unat_add_small unat_remaining_capacity window_end_def)
  have e: "unat (i + str_size d) = unat i + length d" using i(3) b(2) d by (simp add: unat_add_small)
  have c: "i + str_size d \<le> sr_head_index r + ByteStream_remaining_capacity (sr_output r)"
    "\<not> sr_head_index r + ByteStream_remaining_capacity (sr_output r) \<le> i" "\<not> i + str_size d \<le> sr_head_index r"
    using i w e by (simp_all add: word_le_nat_alt)
  have s: "max i (sr_head_index r) = i" "min (sr_head_index r + ByteStream_remaining_capacity (sr_output r)) (i + str_size d) = i + str_size d"
    using i(1) c(1) by (simp_all add: max_absorb1 min_absorb2 word_le_nat_alt)
  have "substr d (i - i) (i + str_size d - i) = d" using d by (simp add: substr_def)
  then show ?thesis using c s m
    by (simp add: push_substring_def Let_def assemble_string_def)
qed

lemma push_empty_alone:
  assumes "sr_core S out r" and "sr_auxiliary_cache r = []" and "unat (sr_head_index r) < unat i" and "unat i < window_end r"
  shows "push_substring [] i e r = end_if_done (r\<lparr>sr_eof := sr_eof r \<or> e, sr_auxiliary_cache := [(i, [])], sr_unassembled_bytes := 0\<rparr>)"
proof -
  have un: "sr_unassembled_bytes r = 0" using sr_coreD(8) [OF assms(1)] assms(2) by simp
  have m: "merge_following (i + str_size []) (i, []) (sr_auxiliary_cache r) (sr_unassembled_bytes r) = ((i, []), [], 0)"
    by (simp add: merge_following.simps assms(2) un set_lower_bound_def)
  have p: "merge_preceding (str_size []) (i, []) [] 0 = ([(i, [])], 0)"
    by (simp add: merge_preceding_def set_prefix_def set_insert_def set_lower_bound_def str_size_def)
  have h: "i > sr_head_index r" using assms(3) by (simp add: word_less_nat_alt)
  show ?thesis
    using push_inside [OF sr_coreD(1) [OF assms(1)] window_end_bound [OF assms(1)] _ assms(4) _ _ m p, of e] assms(3,4) h un
    by (simp add: assemble_string_def)
qed

text \<open>Nodes that are assembled one after the other although they overlap.\<close>

fun reaches :: "nat \<Rightarrow> node list \<Rightarrow> bool" where
  "reaches h [] \<longleftrightarrow> True"
| "reaches h (e # es) \<longleftrightarrow> nstart e \<le> h \<and> reaches (h + length (snd e)) es"

lemma assemble_all:
  assumes "reaches (unat h) es" and "bs_inv out" and "\<not> bs_input_ended out" and "total_len es \<le> bs_room out"
    and "unat h + total_len es < 2 ^ 64" and "assemble_loop es un h out = (es', un', h', out')"
  shows "bs_contents out' = bs_contents out @ concat (map snd es)"
  using assms
proof (induction es arbitrary: un h out)
  case (Cons e es)
  obtain n out1 where w: "ByteStream_write (snd e) out = (n, out1)" by fastforce
  have l: "length (snd e) < 2 ^ 64" "length (snd e) \<le> bs_room out" using Cons.prems(4,5) by auto
  note W = write_spec [OF Cons.prems(2) l(1) w]
  have n: "unat n = length (snd e)" using W(1) l(2) Cons.prems(3) by (simp add: accepted_def)
  have h: "unat (h + n) = unat h + length (snd e)" using n Cons.prems(5) by (subst unat_add_small) auto
  have c: "bs_contents out1 = bs_contents out @ snd e" using W(3) n by simp
  then have "unat (bs_cur_size out1) = unat (bs_cur_size out) + length (snd e)" by (metis length_append length_bs_contents)
  then have "total_len es \<le> bs_room out1" using W(4) Cons.prems(4) by (simp add: bs_room_def)
  moreover have "assemble_loop es (un - str_size (snd e)) (h + n) out1 = (es', un', h', out')"
    using Cons.prems(1,6) w by (auto simp: word_less_nat_alt nstart_def)
  ultimately have "bs_contents out' = bs_contents out1 @ concat (map snd es)"
    using Cons.prems W h by (intro Cons.IH) auto
  with c show ?case by simp
qed simp

definition part :: "bytes \<Rightarrow> nat \<Rightarrow> nat \<Rightarrow> bytes" where
  "part S a b = take (b - a) (drop a S)"

lemma length_part [simp]: "b \<le> length S \<Longrightarrow> length (part S a b) = b - a"
  by (simp add: part_def)

lemma part_append: "a \<le> b \<Longrightarrow> b \<le> c \<Longrightarrow> part S a b @ part S b c = part S a c"
proof -
  assume "a \<le> b" "b \<le> c"
  then have "c - a = (b - a) + (c - b)" "b = (b - a) + a" by auto
  then show ?thesis unfolding part_def by (metis add.commute drop_drop take_add)
qed

text \<open>
  A node that starts after everything in the cache, and does not reach back to the last node
  in the order of the set, is appended to the cache.
\<close>

lemma push_appends:
  assumes "bs_inv (sr_output r)" and "window_end r < 2 ^ 64" and "\<not> sr_eof r"
    and "\<forall>e\<in>set (sr_auxiliary_cache r). fst e < i \<and> sr_head_index r < fst e" and "sr_head_index r < i"
    and "unat i + length d \<le> window_end r" and "unat i < window_end r"
    and "sr_auxiliary_cache r \<noteq> [] \<longrightarrow> fst (StreamReassembler_merge (last (sr_auxiliary_cache r)) (i, d)) = 0"
  shows "push_substring d i False r = r\<lparr>sr_auxiliary_cache := sr_auxiliary_cache r @ [(i, d)],
      sr_unassembled_bytes := sr_unassembled_bytes r + str_size d\<rparr>"
proof -
  let ?c = "sr_auxiliary_cache r"
  have lt: "\<forall>e\<in>set ?c. e < (i, d)" using assms(4) by (auto simp: node_less_iff nstart_def word_less_nat_alt)
  then have "set_prefix (i, d) ?c = ?c" "set_lower_bound (i, d) ?c = []" using set_split_at [of ?c "(i, d)" "[]"] by simp_all
  moreover from this have "merge_following (i + str_size d) (i, d) ?c (sr_unassembled_bytes r) = ((i, d), ?c, sr_unassembled_bytes r)"
    by (simp add: merge_following.simps)
  moreover have "set_insert (i, d) ?c = ?c @ [(i, d)]" using set_insert_at [of ?c "(i, d)" "[]"] lt by simp
  ultimately have m: "merge_following (i + str_size d) (i, d) ?c (sr_unassembled_bytes r) = ((i, d), ?c, sr_unassembled_bytes r)"
    "merge_preceding (str_size d) (i, d) ?c (sr_unassembled_bytes r) = (?c @ [(i, d)], sr_unassembled_bytes r + str_size d)"
    using assms(8) by (auto simp: merge_preceding_def Let_def split: prod.splits)
  have "assemble_loop (?c @ [(i, d)]) un (sr_head_index r) out = (?c @ [(i, d)], un, sr_head_index r, out)" for un out
    using assms(4,5) by (cases ?c) auto
  with push_inside [OF assms(1,2) _ assms(7,6) _ m, of False] assms(3,5) show ?thesis
    by (simp add: assemble_string_def end_if_done_def word_less_nat_alt)
qed

text \<open>Three pushes that leave an overlap in the cache: the empty node in the middle hides the first node.\<close>

definition overlapping :: "bytes \<Rightarrow> nat \<Rightarrow> nat \<Rightarrow> nat \<Rightarrow> nat \<Rightarrow> nat \<Rightarrow> node list" where
  "overlapping S a b m c e = [(of_nat a, part S a b), (of_nat m, []), (of_nat c, part S c e)]"

lemma push_overlapping:
  assumes "sr_core S out r" and "sr_auxiliary_cache r = []" and "\<not> sr_eof r"
    and "unat (sr_head_index r) < a" "a < m" "m < c" "c < b" "b < e" "e \<le> length S" "e \<le> window_end r"
  shows "\<exists>un. push_all [(part S a b, of_nat a, False), ([], of_nat m, False), (part S c e, of_nat c, False)] r =
    r\<lparr>sr_auxiliary_cache := overlapping S a b m c e, sr_unassembled_bytes := un\<rparr>"
proof -
  note W = sr_coreD(1) [OF assms(1)] window_end_bound [OF assms(1)]
  have u: "unat (of_nat x :: u64) = x" if "x \<le> e" for x using that assms(10) W(2) by (intro unat_of_nat_small) simp
  have z: "unat (of_nat x + str_size (part S x y) :: u64) = y" "str_size (part S x y) = of_nat (y - x)" if "x \<le> y" "y \<le> e" for x y
  proof -
    show s: "str_size (part S x y) = of_nat (y - x)" using that assms(9) by (simp add: str_size_def)
    show "unat (of_nat x + str_size (part S x y) :: u64) = y" unfolding s of_nat_add [symmetric] using that by (simp add: u)
  qed
  have lt: "(of_nat x :: u64) < of_nat y \<longleftrightarrow> x < y" if "x \<le> e" "y \<le> e" for x y using that by (simp add: word_less_nat_alt u)
  have h: "sr_head_index r < of_nat x \<longleftrightarrow> unat (sr_head_index r) < x" if "x \<le> e" for x using that by (simp add: word_less_nat_alt u)
  have m1: "fst (StreamReassembler_merge (of_nat a, part S a b) (of_nat m, [])) = 0"
    using assms(5-8) z(1) [of a b] by (simp add: StreamReassembler_merge_def word_le_nat_alt u str_size_def)
  have m2: "fst (StreamReassembler_merge (of_nat m, []) (of_nat c, part S c e)) = 0"
    using assms(5-8) by (simp add: StreamReassembler_merge_def word_le_nat_alt u str_size_def)
  define r1 where "r1 = r\<lparr>sr_auxiliary_cache := [(of_nat a, part S a b)],
    sr_unassembled_bytes := sr_unassembled_bytes r + str_size (part S a b)\<rparr>"
  define r2 where "r2 = r1\<lparr>sr_auxiliary_cache := [(of_nat a, part S a b), (of_nat m, [])],
    sr_unassembled_bytes := sr_unassembled_bytes r1 + str_size []\<rparr>"
  have w: "window_end r1 = window_end r" "window_end r2 = window_end r" by (simp_all add: r1_def r2_def window_end_def)
  have "push_substring (part S a b) (of_nat a) False r = r1"
    using push_appends [OF W assms(3), of "of_nat a" "part S a b"] assms by (simp add: r1_def h u)
  moreover have "push_substring [] (of_nat m) False r1 = r2"
    using push_appends [of r1 "of_nat m" "[]"] W assms m1 by (simp add: r2_def w h u lt) (simp add: r1_def h lt)
  moreover have "push_substring (part S c e) (of_nat c) False r2 = r2\<lparr>sr_auxiliary_cache := overlapping S a b m c e,
      sr_unassembled_bytes := sr_unassembled_bytes r2 + str_size (part S c e)\<rparr>"
    using push_appends [of r2 "of_nat c" "part S c e"] W assms m2
    by (simp add: w h u lt overlapping_def) (simp add: r2_def r1_def h lt)
  ultimately show ?thesis by (auto simp: push_all_def r2_def r1_def)
qed

lemma fill_overlapping:
  assumes "bs_inv (sr_output r)" and "window_end r < 2 ^ 64" and "\<not> sr_eof r" and "\<not> bs_input_ended (sr_output r)"
    and "sr_auxiliary_cache r = overlapping S a b m c e"
    and "unat (sr_head_index r) < a" "a < m" "m < c" "c < b" "b < e" "e \<le> length S" "b + (e - c) \<le> window_end r"
  shows "bs_contents (sr_output (push_substring (part S (unat (sr_head_index r)) a) (sr_head_index r) False r)) =
    bs_contents (sr_output r) @ part S (unat (sr_head_index r)) a @ part S a b @ part S c e"
proof -
  let ?h = "unat (sr_head_index r)" and ?O = "overlapping S a b m c e" and ?un = "sr_unassembled_bytes r"
  define d where "d = part S ?h a"
  have u: "unat (of_nat x :: u64) = x" if "x \<le> e" for x using that assms(2,8-10,12) by (intro unat_of_nat_small) simp
  have l: "length d = a - ?h" "length (part S a b) = b - a" "length (part S c e) = e - c" using assms(6-11) by (simp_all add: d_def)
  have "sr_head_index r = of_nat ?h" by simp
  then have z: "sr_head_index r + str_size d = of_nat a"
    using l(1) assms(6) by (metis str_size_def of_nat_add le_add_diff_inverse less_imp_le)
  have lt: "\<forall>x\<in>set ?O. (sr_head_index r, d) < x" using assms(6-10) u by (auto simp: overlapping_def node_less_iff nstart_def)
  then have lb: "set_lower_bound (sr_head_index r, d) ?O = ?O" using set_split_at(2) [of "[]" "(sr_head_index r, d)" ?O] by force
  have "\<not> (of_nat a + str_size (part S a b) :: u64) \<le> of_nat a"
    unfolding str_size_def l of_nat_add [symmetric] using assms(7-10) by (simp add: word_le_nat_alt u)
  then have m: "merge_following (sr_head_index r + str_size d) (sr_head_index r, d) (sr_auxiliary_cache r) ?un
      = ((sr_head_index r, d), ?O, ?un)"
    using lb z by (simp add: assms(5) merge_following.simps overlapping_def StreamReassembler_merge_def)
  obtain es' un' h' out' where A: "assemble_loop ((sr_head_index r, d) # ?O) (?un + str_size d) (sr_head_index r) (sr_output r) = (es', un', h', out')"
    by (metis prod_cases4)
  have "push_substring d (sr_head_index r) False r =
      end_if_done (assemble_string (r\<lparr>sr_eof := sr_eof r \<or> False, sr_auxiliary_cache := (sr_head_index r, d) # ?O, sr_unassembled_bytes := ?un + str_size d\<rparr>))"
    using assms(6-12) l(1)
    by (intro push_inside [OF assms(1,2) _ _ _ _ m merge_preceding_first [OF lt]]) simp_all
  then have "sr_output (push_substring d (sr_head_index r) False r) = out'"
    using assms(3) A by (simp add: assemble_string_def end_if_done_def del: assemble_loop.simps)
  moreover have "bs_contents out' = bs_contents (sr_output r) @ concat (map snd ((sr_head_index r, d) # ?O))"
    using assms(2,4,6-12) l
    by (intro assemble_all [OF _ assms(1) _ _ _ A]) (simp_all add: overlapping_def nstart_def u window_end_def)
  ultimately show ?thesis by (simp add: overlapping_def d_def)
qed

text \<open>
  C17: an empty substring ahead of the head index makes the reassembler deliver bytes twice. Take
  any reachable reassembler of a stream \<open>S\<close> with nothing stored ahead of its head \<open>h\<close>, and push
  \<open>S[a..b)\<close>, the empty string at \<open>m\<close>, \<open>S[c..e)\<close> and \<open>S[h..a)\<close>, where \<open>h < a < m < c < b < e\<close> and
  there is room for all of it. The empty node hides the first one from the merge with the third,
  both are stored whole, and the output is \<open>S[0..b)\<close> followed by \<open>S[c..e)\<close>: the bytes from \<open>c\<close> to
  \<open>b\<close> come twice.
\<close>
theorem push_substring_empty_duplicates:
  assumes "reachable (sr_init S cap) (sr_step S) (r, out)" and "StreamReassembler_unassembled_bytes r = 0"
    and "unat (sr_head_index r) < a" and "a < m" and "m < c" and "c < b" and "b < e" and "e \<le> length S"
    and "b + (e - c) \<le> unat (sr_head_index r) + bs_room (sr_output r)"
  shows "out @ bs_contents (sr_output (push_all
      [(part S a b, of_nat a, False), ([], of_nat m, False), (part S c e, of_nat c, False),
       (part S (unat (sr_head_index r)) a, sr_head_index r, False)] r)) = part S 0 b @ part S c e"
proof -
  let ?h = "unat (sr_head_index r)"
  note R = sr_reachable [OF assms(1)]
  note W = sr_coreD(1) [OF R(2)] window_end_bound [OF R(2)]
  have c: "sr_auxiliary_cache r = []" using assms(2) empty_iff [OF R(2)]
    by (simp add: StreamReassembler_empty_def StreamReassembler_unassembled_bytes_def)
  have eof: "\<not> sr_eof r" "\<not> bs_input_ended (sr_output r)"
    using received_all [OF R(2) c] R(1) assms(3-8) by (auto simp: sr_inv_def)
  have win: "b + (e - c) \<le> window_end r" "e \<le> window_end r" using assms(5-7,9) by (simp_all add: window_end_def)
  obtain un where p: "push_all [(part S a b, of_nat a, False), ([], of_nat m, False), (part S c e, of_nat c, False)] r =
      r\<lparr>sr_auxiliary_cache := overlapping S a b m c e, sr_unassembled_bytes := un\<rparr>" (is "_ = ?r")
    using push_overlapping [OF R(2) c eof(1) assms(3-8) win(2)] by blast
  have "bs_contents (sr_output (push_substring (part S ?h a) (sr_head_index r) False ?r)) =
      bs_contents (sr_output r) @ part S ?h a @ part S a b @ part S c e"
    using fill_overlapping [of ?r S a b m c e] W eof win(1) assms(3-8) by (simp add: window_end_def)
  moreover have "out @ bs_contents (sr_output r) = part S 0 ?h" using sr_coreD(4) [OF R(2)] by (simp add: part_def)
  ultimately show ?thesis using p assms(3,4) part_append [of 0 ?h a S] part_append [of 0 a b S] assms(5-7)
    by (simp add: push_all_def) (metis append_assoc less_imp_le less_trans)
qed

theorem push_substring_empty_duplicates_witness:
  "bs_contents (sr_output (push_all [([1, 2, 3, 4, 5, 6], 1, False), ([], 3, False), ([4, 5, 6, 7], 4, False), ([0], 0, False)]
     (StreamReassembler_new 20))) = [0, 1, 2, 3, 4, 5, 6, 4, 5, 6, 7]"
proof -
  let ?S = "[0, 1, 2, 3, 4, 5, 6, 7] :: bytes"
  have r: "reachable (sr_init ?S 20) (sr_step ?S) (StreamReassembler_new 20, [])"
    by (rule reach_init) (simp add: sr_init_def)
  have h: "StreamReassembler_unassembled_bytes (StreamReassembler_new 20) = 0" "unat (sr_head_index (StreamReassembler_new 20)) = 0"
    "bs_room (sr_output (StreamReassembler_new 20)) = 20" "sr_head_index (StreamReassembler_new 20) = 0"
    by (simp_all add: StreamReassembler_unassembled_bytes_def StreamReassembler_new_def bs_room_def ByteStream_new_def)
  from push_substring_empty_duplicates [OF r h(1), of 1 3 4 7 8] show ?thesis
    by (simp add: h part_def)
qed

text \<open>
  C18: an empty last substring ahead of the head index (a FIN without payload that overtakes
  data) ends the output too early. Take any reachable reassembler with nothing stored ahead of
  its head, and push the empty string as the last one at an index inside the window and ahead
  of the head: the output ends at once, and whatever is pushed after that, the reader never
  gets a byte beyond the head.
\<close>
theorem push_substring_early_end:
  assumes "reachable (sr_init S cap) (sr_step S) (r, out)" and "StreamReassembler_unassembled_bytes r = 0"
    and "unat (sr_head_index r) < unat i" and "unat i < unat (sr_head_index r) + bs_room (sr_output r)"
  shows "bs_input_ended (sr_output (push_substring [] i True r)) \<and>
    out @ bs_contents (sr_output (push_all ps (push_substring [] i True r))) = take (unat (sr_head_index r)) S"
proof -
  note R = sr_reachable [OF assms(1)]
  have c: "sr_auxiliary_cache r = []" using assms(2) empty_iff [OF R(2)]
    by (simp add: StreamReassembler_empty_def StreamReassembler_unassembled_bytes_def)
  have o: "sr_output (push_substring [] i True r) = ByteStream_end_input (sr_output r)"
    using push_empty_alone [OF R(2) c assms(3)] assms(4) by (simp add: window_end_def end_if_done_def StreamReassembler_empty_def)
  then show ?thesis using push_all_ended [of "push_substring [] i True r" ps] sr_coreD(4) [OF R(2)]
    by (simp add: ByteStream_end_input_def bs_contents_def)
qed

theorem push_substring_early_end_witness:
  "bs_input_ended (sr_output (push_substring [] 3 True (StreamReassembler_new 20))) \<and>
   bs_contents (sr_output (push_all [([1, 2, 3], 0, False)] (push_substring [] 3 True (StreamReassembler_new 20)))) = []"
proof -
  let ?S = "[1, 2, 3] :: bytes"
  have r: "reachable (sr_init ?S 20) (sr_step ?S) (StreamReassembler_new 20, [])"
    by (rule reach_init) (simp add: sr_init_def)
  have h: "StreamReassembler_unassembled_bytes (StreamReassembler_new 20) = 0" "unat (sr_head_index (StreamReassembler_new 20)) = 0"
    "bs_room (sr_output (StreamReassembler_new 20)) = 20"
    by (simp_all add: StreamReassembler_unassembled_bytes_def StreamReassembler_new_def bs_room_def ByteStream_new_def)
  from push_substring_early_end [OF r h(1), of 3 "[([1, 2, 3], 0, False)]"] show ?thesis by (simp add: h)
qed

end
