(* ===== verification/Wrapping_Integers.thy ===== *)
theory Wrapping_Integers
  imports Prelude
begin

text \<open>
  \<open>libsponge/wrapping_integers.hh\<close> and \<open>.cc\<close>: 32-bit sequence numbers relative to an
  initial sequence number, and their conversion from and to 64-bit absolute sequence
  numbers. The main facts: \<open>unwrap\<close> returns, among all 64-bit numbers that wrap to its
  argument, one that is closest to the checkpoint, and it inverts \<open>wrap\<close> on every number
  less than \<open>2 ^ 31\<close> away from the checkpoint.
\<close>

section \<open>Model\<close>

datatype WrappingInt32 = WrappingInt32 (raw_value: u32)

definition wi_diff :: "WrappingInt32 \<Rightarrow> WrappingInt32 \<Rightarrow> int" where
  "wi_diff a b = sint (raw_value a - raw_value b)"

definition wi_eq :: "WrappingInt32 \<Rightarrow> WrappingInt32 \<Rightarrow> bool" where
  "wi_eq a b \<longleftrightarrow> raw_value a = raw_value b"

definition wi_neq :: "WrappingInt32 \<Rightarrow> WrappingInt32 \<Rightarrow> bool" where
  "wi_neq a b \<longleftrightarrow> \<not> wi_eq a b"

definition wi_add :: "WrappingInt32 \<Rightarrow> u32 \<Rightarrow> WrappingInt32" where
  "wi_add a b = WrappingInt32 (raw_value a + b)"

definition wi_sub :: "WrappingInt32 \<Rightarrow> u32 \<Rightarrow> WrappingInt32" where
  "wi_sub a b = wi_add a (- b)"

definition wrap :: "u64 \<Rightarrow> WrappingInt32 \<Rightarrow> WrappingInt32" where
  "wrap n isn =
     (let diff = n + ucast (raw_value isn);
          msk = push_bit 32 1 - 1
      in WrappingInt32 (ucast (diff AND msk)))"

text \<open>\<open>std::min_element\<close> on a non-empty range: the first element that no other is below.\<close>

fun min_element_from :: "('a \<Rightarrow> 'a \<Rightarrow> bool) \<Rightarrow> 'a \<Rightarrow> 'a list \<Rightarrow> 'a" where
  "min_element_from lessp smallest [] = smallest"
| "min_element_from lessp smallest (x # xs) =
     min_element_from lessp (if lessp x smallest then x else smallest) xs"

definition abs_distance :: "u64 \<Rightarrow> u64 \<Rightarrow> u64" where
  "abs_distance checkpoint a = (if checkpoint > a then checkpoint - a else a - checkpoint)"

definition unwrap :: "WrappingInt32 \<Rightarrow> WrappingInt32 \<Rightarrow> u64 \<Rightarrow> u64" where
  "unwrap n isn checkpoint =
     (let diff = raw_value n - raw_value isn;
          msk = push_bit 32 (push_bit 32 1 - 1);
          n0 = (checkpoint AND msk) OR ucast diff;
          n1 = ((checkpoint + push_bit 32 1) AND msk) OR ucast diff;
          n2 = ((checkpoint - push_bit 32 1) AND msk) OR ucast diff
      in min_element_from (\<lambda>a b. abs_distance checkpoint a < abs_distance checkpoint b) n0 [n1, n2])"

text \<open>The same function with its constants evaluated, for fast evaluation.\<close>

definition unwrap_pick :: "u64 \<Rightarrow> u64 \<Rightarrow> u64" where
  "unwrap_pick c d =
     min_element_from (\<lambda>a b. abs_distance c a < abs_distance c b) ((c AND 0xffffffff00000000) OR d)
       [((c + 0x100000000) AND 0xffffffff00000000) OR d, ((c - 0x100000000) AND 0xffffffff00000000) OR d]"

lemma unwrap_code [code]: "unwrap n isn c = unwrap_pick c (ucast (raw_value n - raw_value isn))"
proof -
  have "push_bit 32 (push_bit 32 1 - 1) = (0xffffffff00000000 :: u64)" "push_bit 32 1 = (0x100000000 :: u64)"
    by (simp_all add: push_bit_eq_mult)
  then show ?thesis by (simp only: unwrap_def unwrap_pick_def Let_def)
qed

section \<open>Wrapping\<close>

lemma unat_raw_wrap: "unat (raw_value (wrap n isn)) = (unat n + unat (raw_value isn)) mod 2 ^ 32"
proof -
  have m: "(push_bit 32 1 - 1 :: u64) = mask 32"
    by (simp add: mask_eq_exp_minus_1)
  have "unat (raw_value (wrap n isn)) = unat (n + ucast (raw_value isn)) mod 2 ^ 32"
    by (simp only: wrap_def Let_def m WrappingInt32.sel unat_ucast_down unat_and_mask) simp
  also have "\<dots> = (unat n + unat (raw_value isn)) mod 2 ^ 64 mod 2 ^ 32"
    by (simp add: unat_word_ariths unat_ucast_up)
  also have "\<dots> = (unat n + unat (raw_value isn)) mod 2 ^ 32"
    by (rule mod_mod_cancel) (rule le_imp_power_dvd, simp)
  finally show ?thesis .
qed

lemma raw_wrap: "raw_value (wrap n isn) = raw_value isn + ucast n"
proof (rule word_eq_unatI)
  have "unat (raw_value isn + ucast n) = (unat (raw_value isn) + unat n mod 2 ^ 32) mod 2 ^ 32"
    by (simp only: unat_word_ariths unat_ucast_down) simp
  then show "unat (raw_value (wrap n isn)) = unat (raw_value isn + ucast n)"
    by (simp only: unat_raw_wrap mod_add_right_eq add.commute)
qed

lemma wrap_code [code]: "wrap n isn = WrappingInt32 (ucast n + raw_value isn)"
  by (rule WrappingInt32.expand) (simp add: raw_wrap)

text \<open>The absolute numbers that wrap to \<open>n\<close> are those with the same low 32 bits.\<close>

lemma wrap_eq_iff: "wrap x isn = n \<longleftrightarrow> unat x mod 2 ^ 32 = unat (raw_value n - raw_value isn)"
proof -
  have "wrap x isn = n \<longleftrightarrow> raw_value (wrap x isn) = raw_value n"
    by (auto intro: WrappingInt32.expand)
  also have "\<dots> \<longleftrightarrow> ucast x = raw_value n - raw_value isn"
    by (auto simp: raw_wrap algebra_simps)
  also have "\<dots> \<longleftrightarrow> unat (ucast x :: u32) = unat (raw_value n - raw_value isn)"
    by (simp add: word_unat_eq_iff)
  finally show ?thesis by (simp add: unat_ucast_down)
qed

lemma ucast_add_down: "(ucast (x + y :: u64) :: u32) = ucast x + ucast y"
proof (rule word_eq_unatI)
  have "unat (ucast (x + y) :: u32) = (unat x + unat y) mod 2 ^ 64 mod 2 ^ 32"
    by (simp only: unat_word_ariths unat_ucast_down) simp
  also have "\<dots> = (unat x + unat y) mod 2 ^ 32"
    by (rule mod_mod_cancel) (rule le_imp_power_dvd, simp)
  finally show "unat (ucast (x + y) :: u32) = unat (ucast x + ucast y :: u32)"
    by (simp only: unat_word_ariths unat_ucast_down) (simp add: mod_add_eq)
qed

lemma wrap_add: "wrap (x + y) isn = wi_add (wrap x isn) (ucast y)"
  by (simp add: WrappingInt32.expand wi_add_def raw_wrap ucast_add_down add.assoc)

section \<open>Unwrapping\<close>

definition ndist :: "nat \<Rightarrow> nat \<Rightarrow> nat" where
  "ndist a b = (if a < b then b - a else a - b)"

lemma unat_abs_distance: "unat (abs_distance c a) = ndist (unat a) (unat c)"
  by (auto simp: abs_distance_def ndist_def word_less_nat_alt unat_sub word_le_nat_alt)

lemma min_element_from_in: "min_element_from lessp s xs \<in> insert s (set xs)"
  by (induction lessp s xs rule: min_element_from.induct) auto

lemma min_element_from_le:
  fixes f :: "'a \<Rightarrow> 'b::linorder"
  assumes "lessp = (\<lambda>a b. f a < f b)" and "y \<in> insert s (set xs)"
  shows "f (min_element_from lessp s xs) \<le> f y"
  using assms(2) unfolding assms(1)
proof (induction xs arbitrary: s y)
  case (Cons x xs)
  show ?case
  proof (cases "y \<in> set xs")
    case True
    with Cons.IH show ?thesis by simp
  next
    case False
    with Cons.prems have "y = s \<or> y = x" by auto
    moreover have "f (min_element_from (\<lambda>a b. f a < f b) (if f x < f s then x else s) xs)
        \<le> f (if f x < f s then x else s)"
      by (rule Cons.IH) simp
    ultimately show ?thesis by (auto split: if_splits)
  qed
qed simp

lemma unat_candidate:
  "unat (((c :: u64) AND push_bit 32 (push_bit 32 1 - 1)) OR ucast (d :: u32))
    = unat c div 2 ^ 32 * 2 ^ 32 + unat d"
proof -
  have "(push_bit 32 (push_bit 32 1 - 1) :: u64) = NOT (mask 32)"
    by (simp add: mask_eq_exp_minus_1)
  then have "unat ((c AND push_bit 32 (push_bit 32 1 - 1)) OR ucast d)
      = unat ((c AND NOT (mask 32)) OR ucast d)"
    by (simp only:)
  also have "\<dots> = unat c div 2 ^ 32 * 2 ^ 32 + unat (ucast d :: u64)"
    by (rule unat_high_or_low) (simp add: unat_ucast_up unat_lt_32)
  finally show ?thesis by (simp add: unat_ucast_up)
qed

text \<open>The three candidates, as natural numbers.\<close>

definition candidates :: "u32 \<Rightarrow> u64 \<Rightarrow> u64 set" where
  "candidates d c =
     {x. \<exists>k \<in> {unat c div 2 ^ 32, unat (c + push_bit 32 1) div 2 ^ 32,
                unat (c - push_bit 32 1) div 2 ^ 32}. unat x = k * 2 ^ 32 + unat d}"

lemma unwrap_candidate: "unwrap n isn c \<in> candidates (raw_value n - raw_value isn) c"
  unfolding unwrap_def Let_def candidates_def
  by (rule insertE [OF min_element_from_in]) (auto simp: unat_candidate simp del: push_bit_of_1)

lemma unwrap_le_candidate:
  assumes "x \<in> candidates (raw_value n - raw_value isn) c"
  shows "ndist (unat (unwrap n isn c)) (unat c) \<le> ndist (unat x) (unat c)"
proof -
  let ?d = "raw_value n - raw_value isn"
  let ?m = "push_bit 32 (push_bit 32 1 - 1) :: u64"
  have "x = (c AND ?m) OR ucast ?d \<or> x = ((c + push_bit 32 1) AND ?m) OR ucast ?d
      \<or> x = ((c - push_bit 32 1) AND ?m) OR ucast ?d"
    using assms unfolding candidates_def word_unat_eq_iff unat_candidate by auto
  then have "abs_distance c (unwrap n isn c) \<le> abs_distance c x"
    unfolding unwrap_def Let_def
    by (intro min_element_from_le [where f = "abs_distance c"]) auto
  then show ?thesis by (simp add: word_le_nat_alt unat_abs_distance)
qed

lemma wrap_unwrap: "wrap (unwrap n isn c) isn = n"
  using unwrap_candidate [of n isn c] by (auto simp: wrap_eq_iff candidates_def unat_lt_32)


text \<open>Any 64-bit number with the right low half is at least as far away as some candidate.\<close>

lemma closest_candidate_nat:
  fixes h c d k B :: nat
  assumes "c < B" "d < B" "k < B" "h < B"
  shows "\<exists>k' \<in> {h, (h + 1) mod B, (h + B - 1) mod B}.
           ndist (k' * B + d) (h * B + c) \<le> ndist (k * B + d) (h * B + c)"
proof -
  consider "k = h" | "h < k" | "k < h" by linarith
  then show ?thesis
  proof cases
    case 1
    then show ?thesis by blast
  next
    case 2
    with assms have m: "(h + 1) mod B = h + 1" by simp
    from 2 have "(h + 1) * B \<le> k * B" by (intro mult_le_mono1) simp
    with assms have "ndist ((h + 1) * B + d) (h * B + c) \<le> ndist (k * B + d) (h * B + c)"
      by (simp add: ndist_def)
    with m show ?thesis by (metis insertI1 insertI2)
  next
    case 3
    then have "h + B - 1 = (h - 1) + B" by simp
    then have m: "(h + B - 1) mod B = h - 1"
      using assms by (metis less_imp_diff_less mod_add_self2 mod_less)
    from 3 have le: "k * B \<le> (h - 1) * B" by (intro mult_le_mono1) simp
    from 3 have "h * B = (h - 1) * B + B" by (cases h) simp_all
    with assms le have "ndist ((h - 1) * B + d) (h * B + c) \<le> ndist (k * B + d) (h * B + c)"
      unfolding ndist_def by (simp del: mult_le_cancel2; linarith)
    with m show ?thesis by (metis insertI1 insertI2)
  qed
qed

lemma mod_square_div: "0 < B \<Longrightarrow> (a mod (B * B)) div B = a div B mod (B :: nat)"
  by (simp add: mod_mult2_eq)

lemma unat_shift_high:
  fixes c :: u64
  shows "unat (c + push_bit 32 1) div 2 ^ 32 = (unat c div 2 ^ 32 + 1) mod 2 ^ 32"
    and "unat (c - push_bit 32 1) div 2 ^ 32 = (unat c div 2 ^ 32 + 2 ^ 32 - 1) mod 2 ^ 32"
proof -
  let ?B = "2 ^ 32 :: nat"
  have "unat (c + push_bit 32 1) = (unat c + ?B) mod (?B * ?B)"
    by (simp add: unat_word_ariths)
  moreover have "(unat c + ?B) div ?B = unat c div ?B + 1" by simp
  ultimately show "unat (c + push_bit 32 1) div ?B = (unat c div ?B + 1) mod ?B"
    by (simp only: mod_square_div [of ?B] zero_less_power zero_less_numeral)
  have "c - push_bit 32 1 = c + 18446744069414584320" by simp
  then have "unat (c - push_bit 32 1) = (unat c + (?B - 1) * ?B) mod (?B * ?B)"
    by (simp only: unat_word_ariths) simp
  moreover have "(unat c + (?B - 1) * ?B) div ?B = unat c div ?B + ?B - 1" by simp
  ultimately show "unat (c - push_bit 32 1) div ?B = (unat c div ?B + ?B - 1) mod ?B"
    by (simp only: mod_square_div [of ?B] zero_less_power zero_less_numeral)
qed

lemma candidateI:
  fixes d :: u32
  assumes "k \<in> {unat c div 2 ^ 32, (unat c div 2 ^ 32 + 1) mod 2 ^ 32,
                  (unat c div 2 ^ 32 + 2 ^ 32 - 1) mod 2 ^ 32}"
  obtains x where "x \<in> candidates d c" and "unat x = k * 2 ^ 32 + unat d"
proof -
  have "unat c div 2 ^ 32 < 2 ^ 32"
    using unat_lt_64 [of c] by (simp add: less_mult_imp_div_less)
  with assms have "k < 2 ^ 32" by auto
  then have "k * 2 ^ 32 + unat d < 2 ^ LENGTH(64)"
    using unat_lt_32 [of d] by simp
  then have u: "unat (of_nat (k * 2 ^ 32 + unat d) :: u64) = k * 2 ^ 32 + unat d"
    by (rule unat_of_nat_small)
  with assms have "of_nat (k * 2 ^ 32 + unat d) \<in> candidates d c"
    unfolding candidates_def unat_shift_high by blast
  then show thesis using u by (rule that)
qed

lemma unwrap_closest_aux:
  assumes "wrap x isn = n"
  shows "ndist (unat (unwrap n isn c)) (unat c) \<le> ndist (unat x) (unat c)"
proof -
  define B where "B = (2 :: nat) ^ 32"
  define d where "d = raw_value n - raw_value isn"
  have x: "unat x div B * B + unat d = unat x"
    using assms unfolding wrap_eq_iff B_def d_def by (metis div_mult_mod_eq)
  have c: "unat c div B * B + unat c mod B = unat c" by simp
  have lt: "unat c mod B < B" "unat d < B" "unat x div B < B" "unat c div B < B"
    using unat_lt_64 [of x] unat_lt_64 [of c] by (simp_all add: B_def less_mult_imp_div_less unat_lt_32)
  from closest_candidate_nat [OF lt] obtain k'
    where k': "k' \<in> {unat c div B, (unat c div B + 1) mod B, (unat c div B + B - 1) mod B}"
      and le: "ndist (k' * B + unat d) (unat c) \<le> ndist (unat x) (unat c)"
    unfolding x c by blast
  from k' obtain y where "y \<in> candidates d c" and "unat y = k' * B + unat d"
    unfolding B_def by (rule candidateI)
  with le show ?thesis using unwrap_le_candidate [of y n isn c] by (simp add: d_def)
qed

lemma ndist_mod_eq: "a mod B = b mod B \<Longrightarrow> ndist a b < B \<Longrightarrow> a = b"
proof (induction a b rule: linorder_wlog)
  case (le a b)
  then have "B dvd b - a" by (metis mod_eq_dvd_iff_nat)
  with le show ?case by (auto simp: ndist_def dest: nat_dvd_not_less split: if_splits)
next
  case (sym a b)
  then have "ndist b a < B" by (auto simp: ndist_def split: if_splits)
  with sym show ?case by simp
qed

lemma unwrap_unique:
  assumes "wrap x isn = n" and "ndist (unat x) (unat c) < 2 ^ 31"
  shows "unwrap n isn c = x"
proof -
  have eq: "unat (unwrap n isn c) mod 2 ^ 32 = unat x mod 2 ^ 32"
    using assms(1) wrap_unwrap [of n isn c] by (simp add: wrap_eq_iff)
  have "ndist (unat (unwrap n isn c)) (unat c) < 2 ^ 31"
    using unwrap_closest_aux [OF assms(1), of c] assms(2) by linarith
  then have "ndist (unat (unwrap n isn c)) (unat x) < 2 ^ 32"
    using assms(2) unfolding ndist_def by (simp split: if_splits; linarith)
  with eq have "unat (unwrap n isn c) = unat x"
    by (rule ndist_mod_eq)
  then show ?thesis by (rule word_eq_unatI)
qed

section \<open>Properties\<close>

text \<open>
  C4: \<open>unwrap\<close> meets its documented contract for every argument: the result wraps to the
  given sequence number, and no 64-bit absolute sequence number that wraps to it is
  closer to the checkpoint.
\<close>

theorem unwrap_closest:
  "wrap (unwrap n isn checkpoint) isn = n \<and>
   (\<forall>x. wrap x isn = n \<longrightarrow>
      ndist (unat (unwrap n isn checkpoint)) (unat checkpoint) \<le> ndist (unat x) (unat checkpoint))"
  using wrap_unwrap unwrap_closest_aux by blast

theorem unwrap_closest_witness:
  "wrap (2 ^ 32 + 1) (WrappingInt32 7) = WrappingInt32 8 \<and>
   ndist (unat (unwrap (WrappingInt32 8) (WrappingInt32 7) (2 ^ 32))) (unat (2 ^ 32 :: u64))
     \<le> ndist (unat (2 ^ 32 + 1 :: u64)) (unat (2 ^ 32 :: u64))"
proof -
  have w: "wrap (2 ^ 32 + 1) (WrappingInt32 7) = WrappingInt32 8"
    by (simp add: wrap_def)
  with unwrap_closest [of "WrappingInt32 8" "WrappingInt32 7" "2 ^ 32"] show ?thesis by blast
qed

text \<open>
  C5: converting an absolute sequence number to 32 bits and back restores it, whatever
  the initial sequence number, as long as it is less than \<open>2 ^ 31\<close> away from the
  checkpoint.
\<close>

theorem unwrap_wrap:
  assumes "ndist (unat x) (unat checkpoint) < 2 ^ 31"
  shows "unwrap (wrap x isn) isn checkpoint = x"
  by (rule unwrap_unique [OF refl assms])

theorem unwrap_wrap_witness:
  "ndist (unat (5000000000 :: u64)) (unat (4294967296 :: u64)) < 2 ^ 31 \<and>
   unwrap (wrap 5000000000 (WrappingInt32 4294967295)) (WrappingInt32 4294967295) 4294967296 = 5000000000"
proof -
  have d: "ndist (unat (5000000000 :: u64)) (unat (4294967296 :: u64)) < 2 ^ 31"
    by (simp add: ndist_def)
  then show ?thesis using unwrap_wrap [OF d] by blast
qed

end
