(* ===== verification/Buffers.thy ===== *)
theory Buffers
  imports Prelude
begin

text \<open>
  \<open>libsponge/util/buffer.hh\<close> and \<open>.cc\<close>: reference-counted strings that drop bytes from the
  front, and lists of them. The storage is never written, so sharing it is invisible and a
  \<open>Buffer\<close> is the string it points to (\<open>None\<close> for the null pointer) with an offset. The
  three classes with a \<open>remove_prefix\<close> implement one contract, the locale \<open>byte_view\<close>.
\<close>

section \<open>Model\<close>

record Buffer =
  buf_storage :: "bytes option"
  buf_starting_offset :: size_t

definition Buffer_default :: Buffer where
  "Buffer_default = \<lparr>buf_storage = None, buf_starting_offset = 0\<rparr>"

definition Buffer_of :: "bytes \<Rightarrow> Buffer" where
  "Buffer_of s = \<lparr>buf_storage = Some s, buf_starting_offset = 0\<rparr>"

definition Buffer_str :: "Buffer \<Rightarrow> bytes" where
  "Buffer_str b =
     (case buf_storage b of
        None \<Rightarrow> []
      | Some s \<Rightarrow> take (unat (str_size s - buf_starting_offset b)) (drop (unat (buf_starting_offset b)) s))"

definition Buffer_at :: "Buffer \<Rightarrow> size_t \<Rightarrow> u8 res" where
  "Buffer_at b n = (if unat n < length (Buffer_str b) then Inr (Buffer_str b ! unat n) else Inl Out_of_range)"

definition Buffer_size :: "Buffer \<Rightarrow> size_t" where
  "Buffer_size b = str_size (Buffer_str b)"

definition Buffer_copy :: "Buffer \<Rightarrow> bytes" where
  "Buffer_copy b = Buffer_str b"

text \<open>The part of \<open>remove_prefix\<close> behind its check.\<close>

definition Buffer_advance :: "size_t \<Rightarrow> Buffer \<Rightarrow> Buffer" where
  "Buffer_advance n b =
     (let b' = b\<lparr>buf_starting_offset := buf_starting_offset b + n\<rparr>
      in case buf_storage b' of
           None \<Rightarrow> b'
         | Some s \<Rightarrow> if buf_starting_offset b' = str_size s then b'\<lparr>buf_storage := None\<rparr> else b')"

definition Buffer_remove_prefix :: "size_t \<Rightarrow> Buffer \<Rightarrow> Buffer res" where
  "Buffer_remove_prefix n b =
     (if n > str_size (Buffer_str b) then Inl Out_of_range else Inr (Buffer_advance n b))"

type_synonym BufferList = "Buffer list"

definition BufferList_of_Buffer :: "Buffer \<Rightarrow> BufferList" where
  "BufferList_of_Buffer b = [b]"

definition BufferList_append :: "BufferList \<Rightarrow> BufferList \<Rightarrow> BufferList" where
  "BufferList_append bl other = bl @ other"

definition BufferList_of_string :: "bytes \<Rightarrow> BufferList" where
  "BufferList_of_string s = BufferList_append [] (BufferList_of_Buffer (Buffer_of s))"

definition BufferList_to_Buffer :: "BufferList \<Rightarrow> Buffer res" where
  "BufferList_to_Buffer bl =
     (case bl of
        [] \<Rightarrow> Inr Buffer_default
      | [b] \<Rightarrow> Inr b
      | _ \<Rightarrow> Inl (Runtime_error ''BufferList: please use concatenate() to combine a multi-Buffer BufferList into one Buffer''))"

fun BufferList_concatenate :: "BufferList \<Rightarrow> bytes" where
  "BufferList_concatenate [] = []"
| "BufferList_concatenate (b # bl) = Buffer_str b @ BufferList_concatenate bl"

fun BufferList_size :: "BufferList \<Rightarrow> size_t" where
  "BufferList_size [] = 0"
| "BufferList_size (b # bl) = Buffer_size b + BufferList_size bl"

fun BufferList_remove_prefix :: "size_t \<Rightarrow> BufferList \<Rightarrow> BufferList res" where
  "BufferList_remove_prefix n [] = (if n > 0 then Inl Out_of_range else Inr [])"
| "BufferList_remove_prefix n (b # bl) =
     (if n > 0
      then if n < str_size (Buffer_str b)
           then (case Buffer_remove_prefix n b of Inl e \<Rightarrow> Inl e | Inr b' \<Rightarrow> Inr (b' # bl))
           else BufferList_remove_prefix (n - str_size (Buffer_str b)) bl
      else Inr (b # bl))"

type_synonym BufferViewList = "bytes list"

definition BufferViewList_of :: "BufferList \<Rightarrow> BufferViewList" where
  "BufferViewList_of bl = map Buffer_str bl"

fun BufferViewList_size :: "BufferViewList \<Rightarrow> size_t" where
  "BufferViewList_size [] = 0"
| "BufferViewList_size (v # vs) = str_size v + BufferViewList_size vs"

fun BufferViewList_remove_prefix :: "size_t \<Rightarrow> BufferViewList \<Rightarrow> BufferViewList res" where
  "BufferViewList_remove_prefix n [] = (if n > 0 then Inl Out_of_range else Inr [])"
| "BufferViewList_remove_prefix n (v # vs) =
     (if n > 0
      then if n < str_size v
           then Inr (drop (unat n) v # vs)
           else BufferViewList_remove_prefix (n - str_size v) vs
      else Inr (v # vs))"

definition as_iovecs :: "BufferViewList \<Rightarrow> (bytes \<times> size_t) list" where
  "as_iovecs vs = map (\<lambda>x. (x, str_size x)) vs"

section \<open>The contract of a prefix-removable string\<close>

locale byte_view =
  fixes invar :: "'v \<Rightarrow> bool"
    and contents :: "'v \<Rightarrow> bytes"
    and remove :: "size_t \<Rightarrow> 'v \<Rightarrow> 'v res"
  assumes remove_law: "invar v \<Longrightarrow> unat n \<le> length (contents v) \<Longrightarrow>
      \<exists>v'. remove n v = Inr v' \<and> invar v' \<and> contents v' = drop (unat n) (contents v)"
    and remove_throws: "invar v \<Longrightarrow> length (contents v) < unat n \<Longrightarrow> remove n v = Inl Out_of_range"
begin

lemma remove_cases:
  assumes "invar v"
  obtains (ok) v' where "unat n \<le> length (contents v)" "remove n v = Inr v'" "invar v'"
      "contents v' = drop (unat n) (contents v)"
  | (throws) "length (contents v) < unat n" "remove n v = Inl Out_of_range"
  using remove_law [OF assms] remove_throws [OF assms] by (meson not_le)

lemma remove_iff: "invar v \<Longrightarrow> remove n v = Inl Out_of_range \<longleftrightarrow> length (contents v) < unat n"
  by (cases rule: remove_cases) auto

lemma remove_twice:
  assumes "invar v" and "remove n v = Inr v'" and "remove m v' = Inr v''"
  shows "contents v'' = drop (unat n + unat m) (contents v)"
proof -
  have v': "invar v'" "contents v' = drop (unat n) (contents v)"
    using remove_cases [OF assms(1), of n] assms(2) by auto
  then show ?thesis using remove_cases [OF v'(1), of m] assms(3) by (auto simp: add.commute)
qed

end

section \<open>The three classes keep it\<close>

definition buffer_ok :: "Buffer \<Rightarrow> bool" where
  "buffer_ok b \<longleftrightarrow>
     (case buf_storage b of None \<Rightarrow> True | Some s \<Rightarrow> length s < 2 ^ 64 \<and> unat (buf_starting_offset b) \<le> length s)"

lemma Buffer_str_drop:
  "buffer_ok b \<Longrightarrow> Buffer_str b = (case buf_storage b of None \<Rightarrow> [] | Some s \<Rightarrow> drop (unat (buf_starting_offset b)) s)"
  by (auto simp: buffer_ok_def Buffer_str_def unat_sub word_le_nat_alt unat_str_size split: option.splits)

lemma Buffer_str_default [simp]: "Buffer_str Buffer_default = []"
  by (simp add: Buffer_str_def Buffer_default_def)

lemma buffer_ok_default [simp]: "buffer_ok Buffer_default"
  by (simp add: buffer_ok_def Buffer_default_def)

lemma Buffer_str_of: "length s < 2 ^ 64 \<Longrightarrow> Buffer_str (Buffer_of s) = s"
  by (simp add: Buffer_str_def Buffer_of_def unat_str_size)

lemma buffer_ok_of: "length s < 2 ^ 64 \<Longrightarrow> buffer_ok (Buffer_of s)"
  by (simp add: buffer_ok_def Buffer_of_def)

lemma buffer_ok_length: "buffer_ok b \<Longrightarrow> length (Buffer_str b) < 2 ^ 64"
  by (auto simp: Buffer_str_drop buffer_ok_def split: option.splits)

lemma unat_str_size_buffer: "buffer_ok b \<Longrightarrow> unat (str_size (Buffer_str b)) = length (Buffer_str b)"
  using buffer_ok_length by (simp add: unat_str_size)

lemma unat_Buffer_size: "buffer_ok b \<Longrightarrow> unat (Buffer_size b) = length (Buffer_str b)"
  using buffer_ok_length by (simp add: Buffer_size_def unat_str_size)

lemma Buffer_advance_ok:
  assumes ok: "buffer_ok b" and n: "unat n \<le> length (Buffer_str b)"
  shows "buffer_ok (Buffer_advance n b)" and "Buffer_str (Buffer_advance n b) = drop (unat n) (Buffer_str b)"
proof -
  have *: "buffer_ok (Buffer_advance n b) \<and> Buffer_str (Buffer_advance n b) = drop (unat n) (Buffer_str b)"
  proof (cases "buf_storage b")
    case None
    then show ?thesis by (simp add: Buffer_advance_def buffer_ok_def Buffer_str_def)
  next
    case (Some s)
    let ?o = "buf_starting_offset b"
    have s: "length s < 2 ^ 64" "unat ?o + unat n \<le> length s"
      using ok n Some by (auto simp: buffer_ok_def Buffer_str_drop)
    then have o: "unat (?o + n) = unat ?o + unat n" by (intro unat_add_small) simp
    have "?o + n = str_size s \<longleftrightarrow> unat ?o + unat n = length s"
      using o s by (simp add: word_unat_eq_iff unat_str_size)
    moreover have "buffer_ok (b\<lparr>buf_starting_offset := ?o + n\<rparr>)"
      using Some s o by (simp add: buffer_ok_def)
    ultimately show ?thesis
      using Some s o ok by (auto simp: Buffer_advance_def Buffer_str_drop Let_def add.commute)
        (auto simp: buffer_ok_def Buffer_str_def)
  qed
  then show "buffer_ok (Buffer_advance n b)" "Buffer_str (Buffer_advance n b) = drop (unat n) (Buffer_str b)" by auto
qed

interpretation buffer: byte_view buffer_ok Buffer_str Buffer_remove_prefix
  by unfold_locales
     (auto simp: Buffer_remove_prefix_def word_less_nat_alt unat_str_size_buffer Buffer_advance_ok)

lemma BufferViewList_remove_prefix_ok:
  assumes "\<forall>v\<in>set vs. length v < 2 ^ 64"
  shows "(unat n \<le> length (concat vs) \<longrightarrow>
      (\<exists>vs'. BufferViewList_remove_prefix n vs = Inr vs' \<and> (\<forall>v\<in>set vs'. length v < 2 ^ 64) \<and>
        concat vs' = drop (unat n) (concat vs))) \<and>
    (length (concat vs) < unat n \<longrightarrow> BufferViewList_remove_prefix n vs = Inl Out_of_range)"
  using assms
proof (induction vs arbitrary: n)
  case (Cons v vs)
  have sz: "unat (str_size v) = length v" using Cons.prems by (simp add: unat_str_size)
  show ?case
  proof (cases "unat n < length v")
    case True
    with Cons.prems sz show ?thesis by (auto simp: word_less_nat_alt unat_eq_0)
  next
    case False
    then have "unat (n - str_size v) = unat n - length v"
      using sz by (simp add: unat_sub word_le_nat_alt)
    with False sz Cons.prems Cons.IH [of "n - str_size v"] show ?thesis
      by (auto simp: word_less_nat_alt unat_eq_0)
  qed
qed (auto simp: word_less_nat_alt unat_eq_0)


interpretation view_list: byte_view "\<lambda>vs. \<forall>v\<in>set vs. length v < 2 ^ 64" concat BufferViewList_remove_prefix
proof
  fix vs :: "bytes list" and n :: size_t
  assume "\<forall>v\<in>set vs. length v < 2 ^ 64"
  note V = BufferViewList_remove_prefix_ok [OF this, of n]
  show "\<exists>vs'. BufferViewList_remove_prefix n vs = Inr vs' \<and> (\<forall>v\<in>set vs'. length v < 2 ^ 64) \<and>
      concat vs' = drop (unat n) (concat vs)" if "unat n \<le> length (concat vs)"
    by (rule conjunct1 [OF V, rule_format, OF that])
  show "BufferViewList_remove_prefix n vs = Inl Out_of_range" if "length (concat vs) < unat n"
    by (rule conjunct2 [OF V, rule_format, OF that])
qed

lemma concat_views: "concat (BufferViewList_of bl) = BufferList_concatenate bl"
  by (induction bl) (auto simp: BufferViewList_of_def)

text \<open>A list of buffers and the list of their views drop bytes in step.\<close>

lemma BufferList_remove_prefix_views:
  assumes "\<forall>b\<in>set bl. buffer_ok b"
  shows "(case BufferList_remove_prefix n bl of
      Inl e \<Rightarrow> BufferViewList_remove_prefix n (BufferViewList_of bl) = Inl e
    | Inr bl' \<Rightarrow> BufferViewList_remove_prefix n (BufferViewList_of bl) = Inr (BufferViewList_of bl') \<and>
        (\<forall>b\<in>set bl'. buffer_ok b))"
  using assms
proof (induction bl arbitrary: n)
  case (Cons b bl)
  have ok: "buffer_ok b" using Cons.prems by simp
  show ?case
  proof (cases "n < str_size (Buffer_str b)")
    case True
    then have "unat n \<le> length (Buffer_str b)"
      using unat_str_size_buffer [OF ok] by (simp add: word_less_nat_alt)
    with True Cons.prems Buffer_advance_ok [OF ok, of n] show ?thesis
      by (auto simp: BufferViewList_of_def Buffer_remove_prefix_def not_less)
  next
    case False
    with Cons.IH [of "n - str_size (Buffer_str b)"] Cons.prems show ?thesis
      by (auto simp: BufferViewList_of_def split: sum.splits)
  qed
qed (simp add: BufferViewList_of_def)

interpretation buffer_list: byte_view "\<lambda>bl. \<forall>b\<in>set bl. buffer_ok b" BufferList_concatenate BufferList_remove_prefix
proof
  fix bl n assume ok: "\<forall>b\<in>set bl. buffer_ok b"
  have inv: "\<forall>v\<in>set (BufferViewList_of bl). length v < 2 ^ 64"
    using ok buffer_ok_length by (auto simp: BufferViewList_of_def)
  note V = BufferList_remove_prefix_views [OF ok, of n]
  show "\<exists>bl'. BufferList_remove_prefix n bl = Inr bl' \<and> (\<forall>b\<in>set bl'. buffer_ok b) \<and>
      BufferList_concatenate bl' = drop (unat n) (BufferList_concatenate bl)"
    if "unat n \<le> length (BufferList_concatenate bl)"
    using that V view_list.remove_law [OF inv, of n]
    by (auto simp: concat_views split: sum.splits)
  show "BufferList_remove_prefix n bl = Inl Out_of_range" if "length (BufferList_concatenate bl) < unat n"
    using that V view_list.remove_throws [OF inv, of n] by (auto simp: concat_views split: sum.splits)
qed

lemma BufferList_size_length:
  "\<forall>b\<in>set bl. buffer_ok b \<Longrightarrow> BufferList_size bl = of_nat (length (BufferList_concatenate bl))"
  by (induction bl) (auto simp: Buffer_size_def str_size_def)

section \<open>Properties\<close>

text \<open>
  \<open>BufferList::remove_prefix\<close> on well-formed buffers throws exactly when it is asked for
  more bytes than the list holds; otherwise the concatenation of what is left is the old
  concatenation without its first \<open>n\<close> bytes, and the buffers stay well-formed.
\<close>
lemma BufferList_remove_prefix_functional:
  assumes "\<forall>b\<in>set bl. buffer_ok b"
  shows "case BufferList_remove_prefix n bl of
      Inl e \<Rightarrow> e = Out_of_range \<and> length (BufferList_concatenate bl) < unat n
    | Inr bl' \<Rightarrow> unat n \<le> length (BufferList_concatenate bl) \<and> (\<forall>b\<in>set bl'. buffer_ok b) \<and>
        BufferList_concatenate bl' = drop (unat n) (BufferList_concatenate bl)"
  by (rule buffer_list.remove_cases [OF assms, of n]) simp_all

lemma BufferList_remove_prefix_functional_witness:
  "map_sum id BufferList_concatenate (BufferList_remove_prefix 3 [Buffer_of [1, 2], Buffer_default, Buffer_of [3, 4]])
     = Inr [4]"
proof -
  let ?bl = "[Buffer_of [1, 2], Buffer_default, Buffer_of [3, 4]]"
  have ok: "\<forall>b\<in>set ?bl. buffer_ok b" by (simp add: buffer_ok_of)
  have "BufferList_concatenate ?bl = [1, 2, 3, 4]" by code_simp
  moreover have "unat (3 :: size_t) = 3" by simp
  ultimately show ?thesis
    using BufferList_remove_prefix_functional [OF ok, of 3]
    by (cases "BufferList_remove_prefix 3 ?bl") (simp_all del: BufferList_remove_prefix.simps)
qed

end
