(* ===== verification/Net_Parser.thy ===== *)
theory Net_Parser
  imports Buffers
begin

text \<open>
  \<open>libsponge/util/parser.hh\<close> and \<open>.cc\<close>: reading and writing of 8-, 16- and 32-bit integers in
  network byte order. A parser is a buffer with an error code that sticks. The locale
  \<open>codec\<close> is the contract between an encoder and a decoder; the header formats of the
  other theories extend it field by field.
\<close>

section \<open>Model\<close>

datatype ParseResult = NoError | BadChecksum | PacketTooShort | WrongIPVersion | HeaderTooShort
  | TruncatedPacket | Unsupported

text \<open>The name table has six entries; the index of \<open>Unsupported\<close> is outside of it.\<close>

definition ParseResult_index :: "ParseResult \<Rightarrow> nat" where
  "ParseResult_index r =
     (case r of NoError \<Rightarrow> 0 | BadChecksum \<Rightarrow> 1 | PacketTooShort \<Rightarrow> 2 | WrongIPVersion \<Rightarrow> 3
      | HeaderTooShort \<Rightarrow> 4 | TruncatedPacket \<Rightarrow> 5 | Unsupported \<Rightarrow> 6)"

definition as_string :: "ParseResult \<Rightarrow> string res" where
  "as_string r =
     (let names = [''NoError'', ''BadChecksum'', ''PacketTooShort'', ''WrongIPVersion'', ''HeaderTooShort'',
        ''TruncatedPacket'']
      in if ParseResult_index r < length names then Inr (names ! ParseResult_index r) else Inl Undefined)"

record NetParser =
  np_buffer :: Buffer
  np_error :: ParseResult

definition NetParser_new :: "Buffer \<Rightarrow> NetParser" where
  "NetParser_new b = \<lparr>np_buffer = b, np_error = NoError\<rparr>"

definition NetParser_set_error :: "ParseResult \<Rightarrow> NetParser \<Rightarrow> NetParser" where
  "NetParser_set_error r p = p\<lparr>np_error := r\<rparr>"

definition NetParser_get_error :: "NetParser \<Rightarrow> ParseResult" where
  "NetParser_get_error p = np_error p"

definition NetParser_error :: "NetParser \<Rightarrow> bool" where
  "NetParser_error p \<longleftrightarrow> NetParser_get_error p \<noteq> NoError"

definition NetParser_check_size :: "size_t \<Rightarrow> NetParser \<Rightarrow> NetParser" where
  "NetParser_check_size sz p =
     (if sz > Buffer_size (np_buffer p) then NetParser_set_error PacketTooShort p else p)"

text \<open>
  Behind the size check neither \<open>at\<close> nor \<open>remove_prefix\<close> of the buffer can throw, so the reads
  are those of the first bytes and the removal is \<open>Buffer_advance\<close>.
\<close>

definition NetParser_parse_int :: "size_t \<Rightarrow> NetParser \<Rightarrow> 'a::len word \<times> NetParser" where
  "NetParser_parse_int len p0 =
     (let p = NetParser_check_size len p0
      in if NetParser_error p then (0, p)
         else (foldl (\<lambda>ret c. push_bit 8 ret + ucast c) 0 (take (unat len) (Buffer_str (np_buffer p))),
               p\<lparr>np_buffer := Buffer_advance len (np_buffer p)\<rparr>))"

definition NetParser_remove_prefix :: "size_t \<Rightarrow> NetParser \<Rightarrow> NetParser" where
  "NetParser_remove_prefix n p0 =
     (let p = NetParser_check_size n p0
      in if NetParser_error p then p else p\<lparr>np_buffer := Buffer_advance n (np_buffer p)\<rparr>)"

definition NetParser_u32 :: "NetParser \<Rightarrow> u32 \<times> NetParser" where
  "NetParser_u32 p = NetParser_parse_int 4 p"

definition NetParser_u16 :: "NetParser \<Rightarrow> u16 \<times> NetParser" where
  "NetParser_u16 p = NetParser_parse_int 2 p"

definition NetParser_u8 :: "NetParser \<Rightarrow> u8 \<times> NetParser" where
  "NetParser_u8 p = NetParser_parse_int 1 p"

definition NetUnparser_unparse_int :: "nat \<Rightarrow> bytes \<Rightarrow> 'a::len word \<Rightarrow> bytes" where
  "NetUnparser_unparse_int len s val =
     s @ map (\<lambda>i. ucast (drop_bit ((len - i - 1) * 8) val AND 0xff)) [0..<len]"

definition NetUnparser_u32 :: "bytes \<Rightarrow> u32 \<Rightarrow> bytes" where
  "NetUnparser_u32 s val = NetUnparser_unparse_int 4 s val"

definition NetUnparser_u16 :: "bytes \<Rightarrow> u16 \<Rightarrow> bytes" where
  "NetUnparser_u16 s val = NetUnparser_unparse_int 2 s val"

definition NetUnparser_u8 :: "bytes \<Rightarrow> u8 \<Rightarrow> bytes" where
  "NetUnparser_u8 s val = NetUnparser_unparse_int 1 s val"

section \<open>Network byte order\<close>

definition be_bytes :: "nat \<Rightarrow> 'a::len word \<Rightarrow> bytes" where
  "be_bytes len val = map (\<lambda>i. ucast (drop_bit ((len - i - 1) * 8) val AND 0xff)) [0..<len]"

lemma length_be_bytes [simp]: "length (be_bytes n v) = n"
  by (simp add: be_bytes_def)

lemma be_bytes_Suc: "be_bytes (Suc n) v = ucast (drop_bit (n * 8) v AND 0xff) # be_bytes n v"
  by (simp add: be_bytes_def upt_conv_Cons map_Suc_upt [symmetric] o_def del: upt_Suc map_Suc_upt)

lemma ucast_low_byte:
  "8 \<le> LENGTH('a) \<Longrightarrow> ucast (ucast (x AND 0xff :: 'a word) :: u8) = take_bit 8 (x :: 'a::len word)"
proof -
  have "x AND 0xff = take_bit 8 x" by (simp add: take_bit_eq_mask mask_eq_exp_minus_1)
  moreover assume "8 \<le> LENGTH('a)"
  ultimately show ?thesis by (auto intro!: bit_eqI simp: bit_simps)
qed

lemma foldl_be_bytes:
  assumes "8 \<le> LENGTH('a)"
  shows "foldl (\<lambda>ret c. push_bit 8 ret + ucast c) r (be_bytes n v)
     = push_bit (8 * n) r + take_bit (8 * n) (v :: 'a::len word)"
proof (induction n arbitrary: r)
  case (Suc n)
  have "push_bit (8 * n) (take_bit 8 (drop_bit (n * 8) v)) + take_bit (8 * n) v = take_bit (8 * Suc n) v"
  proof -
    have "push_bit (8 * n) (take_bit 8 (drop_bit (n * 8) v)) + take_bit (8 * n) v
        = push_bit (8 * n) (take_bit 8 (drop_bit (n * 8) v)) OR take_bit (8 * n) v"
      by (intro disjunctive_add_eq_or bit_eqI) (auto simp: bit_simps)
    also have "\<dots> = take_bit (8 * Suc n) v"
      by (rule bit_eqI) (auto simp: bit_simps ac_simps)
    finally show ?thesis .
  qed
  then have "push_bit (8 * n) (push_bit 8 r + take_bit 8 (drop_bit (n * 8) v)) + take_bit (8 * n) v
      = push_bit (8 * Suc n) r + take_bit (8 * Suc n) v"
    by (simp add: push_bit_add add.assoc) (simp add: add.commute)
  then show ?case
    by (simp only: be_bytes_Suc Suc foldl_Cons ucast_low_byte [OF assms])
qed (simp add: be_bytes_def)

section \<open>Decoding what was encoded\<close>

definition parser_at :: "NetParser \<Rightarrow> bytes \<Rightarrow> bool" where
  "parser_at p s \<longleftrightarrow> np_error p = NoError \<and> buffer_ok (np_buffer p) \<and> Buffer_str (np_buffer p) = s"

lemma parser_at_new: "buffer_ok b \<Longrightarrow> parser_at (NetParser_new b) (Buffer_str b)"
  by (simp add: parser_at_def NetParser_new_def)

lemma parser_atD:
  assumes "parser_at p s"
  shows "\<not> NetParser_error p" and "NetParser_get_error p = NoError" and "Buffer_str (np_buffer p) = s"
    and "buffer_ok (np_buffer p)"
  using assms by (auto simp: parser_at_def NetParser_error_def NetParser_get_error_def)

lemma check_size_ok:
  "parser_at p s \<Longrightarrow> unat n \<le> length s \<Longrightarrow> NetParser_check_size n p = p"
  by (auto simp: parser_at_def NetParser_check_size_def word_less_nat_alt unat_Buffer_size)

lemma check_size_short:
  "parser_at p s \<Longrightarrow> length s < unat n \<Longrightarrow> NetParser_check_size n p = p\<lparr>np_error := PacketTooShort\<rparr>"
  by (auto simp: parser_at_def NetParser_check_size_def word_less_nat_alt unat_Buffer_size NetParser_set_error_def)

lemma remove_prefix_at:
  assumes "parser_at p s" and "unat n \<le> length s"
  shows "parser_at (NetParser_remove_prefix n p) (drop (unat n) s)"
  using assms Buffer_advance_ok [of "np_buffer p" n]
  by (simp add: NetParser_remove_prefix_def check_size_ok) (simp add: parser_at_def NetParser_error_def NetParser_get_error_def)

locale codec =
  fixes valid :: "'a \<Rightarrow> bool"
    and enc :: "'a \<Rightarrow> bytes"
    and dec :: "NetParser \<Rightarrow> 'a \<times> NetParser"
  assumes dec_enc: "valid v \<Longrightarrow> parser_at p (enc v @ rest) \<Longrightarrow> \<exists>p'. dec p = (v, p') \<and> parser_at p' rest"
begin

lemma decE:
  assumes "parser_at p (enc v @ rest)" and "valid v"
  obtains p' where "dec p = (v, p')" and "parser_at p' rest"
  using dec_enc [OF assms(2,1)] by auto

lemma enc_inj:
  assumes "valid v" and "valid w" and "parser_at p (enc v @ rest)" and "enc v @ rest = enc w @ rest'"
  shows "v = w \<and> rest = rest'"
proof -
  have "parser_at p (enc w @ rest')" using assms(3) by (simp only: assms(4))
  with dec_enc [OF assms(1,3)] dec_enc [OF assms(2)] show ?thesis
    by (fastforce simp: parser_at_def)
qed

end

lemma parse_int_be:
  assumes "8 \<le> LENGTH('a)" and "LENGTH('a) = 8 * n" and "unat len = n"
    and "parser_at p (be_bytes n v @ rest)"
  shows "\<exists>p'. NetParser_parse_int len p = (v :: 'a::len word, p') \<and> parser_at p' rest"
proof -
  have "unat len \<le> length (Buffer_str (np_buffer p))" using assms(3,4) by (simp add: parser_at_def)
  then have "parser_at (p\<lparr>np_buffer := Buffer_advance len (np_buffer p)\<rparr>) rest"
    using assms(3,4) Buffer_advance_ok [of "np_buffer p" len] by (simp add: parser_at_def)
  moreover have "take_bit (8 * n) v = v" unfolding assms(2) [symmetric] by (rule take_bit_length_eq)
  moreover have "NetParser_check_size len p = p" using assms(3,4) by (intro check_size_ok) auto
  moreover have "take (unat len) (Buffer_str (np_buffer p)) = be_bytes n v"
    using assms(3) parser_atD(3) [OF assms(4)] by simp
  moreover have "foldl (\<lambda>ret c. push_bit 8 ret + ucast c) 0 (be_bytes n v) = take_bit (8 * n) v"
    by (simp only: foldl_be_bytes [OF assms(1)]) simp
  ultimately show ?thesis
    using parser_atD(1) [OF assms(4)] by (simp add: NetParser_parse_int_def)
qed

interpretation u32: codec "\<lambda>_. True" "be_bytes 4 :: u32 \<Rightarrow> bytes" NetParser_u32
  by unfold_locales (simp add: NetParser_u32_def parse_int_be)

interpretation u16: codec "\<lambda>_. True" "be_bytes 2 :: u16 \<Rightarrow> bytes" NetParser_u16
  by unfold_locales (simp add: NetParser_u16_def parse_int_be)

interpretation u8: codec "\<lambda>_. True" "be_bytes 1 :: u8 \<Rightarrow> bytes" NetParser_u8
  by unfold_locales (simp add: NetParser_u8_def parse_int_be)

lemma unparse_be [simp]:
  "NetUnparser_u32 s v32 = s @ be_bytes 4 v32" "NetUnparser_u16 s v16 = s @ be_bytes 2 v16"
  "NetUnparser_u8 s v8 = s @ be_bytes 1 v8"
  by (simp_all add: NetUnparser_u32_def NetUnparser_u16_def NetUnparser_u8_def NetUnparser_unparse_int_def be_bytes_def)


section \<open>Positions in the input\<close>

text \<open>The parser has been asked for \<open>n\<close> bytes of the input \<open>s\<close>: it stands behind them, or failed.\<close>

definition consumed :: "bytes \<Rightarrow> nat \<Rightarrow> NetParser \<Rightarrow> bool" where
  "consumed s n p \<longleftrightarrow> (if n \<le> length s then parser_at p (drop n s) else np_error p = PacketTooShort)"

lemma consumed_new: "buffer_ok b \<Longrightarrow> consumed (Buffer_str b) 0 (NetParser_new b)"
  by (simp add: consumed_def parser_at_new)

lemma consumed_error: "consumed s n p \<Longrightarrow> NetParser_error p \<longleftrightarrow> length s < n"
  by (auto simp: consumed_def parser_at_def NetParser_error_def NetParser_get_error_def split: if_splits)

lemma consumed_get_error:
  "consumed s n p \<Longrightarrow> NetParser_get_error p = (if n \<le> length s then NoError else PacketTooShort)"
  by (auto simp: consumed_def parser_at_def NetParser_get_error_def)

lemma check_size_consumed:
  assumes "consumed s n p"
  shows "NetParser_error (NetParser_check_size k p) \<longleftrightarrow> length s < n + unat k"
    and "length s < n + unat k \<Longrightarrow> np_error (NetParser_check_size k p) = PacketTooShort"
    and "\<not> length s < n + unat k \<Longrightarrow> NetParser_check_size k p = p"
proof -
  have *: "np_error (NetParser_check_size k p) = PacketTooShort" if "n \<le> length s" "length s < n + unat k"
    using check_size_short [of p "drop n s" k] assms that by (simp add: consumed_def)
  have **: "np_error (NetParser_check_size k p) = PacketTooShort" if "\<not> n \<le> length s"
    using assms that by (simp add: consumed_def NetParser_check_size_def NetParser_set_error_def)
  show 3: "\<not> length s < n + unat k \<Longrightarrow> NetParser_check_size k p = p"
    using check_size_ok [of p "drop n s" k] assms by (simp add: consumed_def)
  show 2: "length s < n + unat k \<Longrightarrow> np_error (NetParser_check_size k p) = PacketTooShort"
    using * ** by (cases "n \<le> length s") auto
  show "NetParser_error (NetParser_check_size k p) \<longleftrightarrow> length s < n + unat k"
    using 2 3 assms by (cases "length s < n + unat k")
      (auto simp: NetParser_error_def NetParser_get_error_def consumed_def parser_at_def)
qed

lemma advance_consumed:
  assumes "consumed s n p" and "n + unat k \<le> length s"
  shows "consumed s (n + unat k) (p\<lparr>np_buffer := Buffer_advance k (np_buffer p)\<rparr>)"
  using assms Buffer_advance_ok [of "np_buffer p" k]
  by (auto simp: consumed_def parser_at_def add.commute)

lemma parse_int_consumed:
  assumes "consumed s n p" and "NetParser_parse_int k p = (v, p')"
  shows "consumed s (n + unat k) p'"
    and "v = (if n + unat k \<le> length s
      then foldl (\<lambda>ret c. push_bit 8 ret + ucast c) 0 (take (unat k) (drop n s)) else 0)"
proof -
  note C = check_size_consumed [OF assms(1), of k]
  have "Buffer_str (np_buffer p) = drop n s" if "n + unat k \<le> length s"
    using assms(1) that by (simp add: consumed_def parser_at_def)
  then show "consumed s (n + unat k) p'"
    "v = (if n + unat k \<le> length s
      then foldl (\<lambda>ret c. push_bit 8 ret + ucast c) 0 (take (unat k) (drop n s)) else 0)"
    using assms C advance_consumed [OF assms(1), of k]
    by (cases "length s < n + unat k"; auto simp: NetParser_parse_int_def Let_def consumed_def)+
qed

lemma u_consumed:
  "consumed s n p \<Longrightarrow> NetParser_u32 p = (v32, p') \<Longrightarrow> consumed s (n + 4) p'"
  "consumed s n p \<Longrightarrow> NetParser_u16 p = (v16, p') \<Longrightarrow> consumed s (n + 2) p'"
  "consumed s n p \<Longrightarrow> NetParser_u8 p = (v8, p') \<Longrightarrow> consumed s (n + 1) p'"
  using parse_int_consumed(1) [of s n p 4 v32 p'] parse_int_consumed(1) [of s n p 2 v16 p']
    parse_int_consumed(1) [of s n p 1 v8 p']
  by (simp_all add: NetParser_u32_def NetParser_u16_def NetParser_u8_def)

lemma u8_value:
  assumes "consumed s n p" and "NetParser_u8 p = (v, p')"
  shows "v = (if n < length s then s ! n else 0)"
proof -
  have "take 1 (drop n s) = [s ! n]" if "n < length s"
    using that by (metis Cons_nth_drop_Suc One_nat_def take0 take_Suc_Cons)
  then show ?thesis
    using parse_int_consumed(2) [of s n p 1 v p'] assms by (auto simp: NetParser_u8_def)
qed

lemma u16_value:
  assumes "consumed s n p" and "NetParser_u16 p = (v, p')" and "n + 1 < length s"
  shows "unat v = 256 * unat (s ! n) + unat (s ! (n + 1))"
proof -
  have "take 2 (drop n s) = [s ! n, s ! (n + 1)]"
    using assms(3) by (simp add: numeral_2_eq_2 take_Suc_conv_app_nth)
  then have "v = push_bit 8 (ucast (s ! n)) + ucast (s ! (n + 1))"
    using parse_int_consumed(2) [of s n p 2 v p'] assms by (simp add: NetParser_u16_def)
  moreover have "unat (push_bit 8 (ucast (s ! n)) :: u16) = 256 * unat (s ! n)"
    using unat_lt_8 [of "s ! n"] by (simp add: push_bit_eq_mult unat_word_ariths unat_ucast_up)
  moreover have "unat (ucast (s ! (n + 1)) :: u16) = unat (s ! (n + 1))" by (simp add: unat_ucast_up)
  ultimately show ?thesis
    using unat_lt_8 [of "s ! n"] unat_lt_8 [of "s ! (n + 1)"] by (simp only: unat_add_small) (subst unat_add_small, auto)
qed

lemma remove_prefix_consumed:
  assumes "consumed s n p"
  shows "consumed s (n + unat k) (NetParser_remove_prefix k p)"
  using check_size_consumed [OF assms, of k] advance_consumed [OF assms, of k]
  by (cases "length s < n + unat k") (auto simp: NetParser_remove_prefix_def Let_def consumed_def)

section \<open>Properties\<close>

text \<open>
  What \<open>NetUnparser\<close> appends to a string, \<open>NetParser\<close> reads back: a 32-bit, a 16-bit and an
  8-bit integer written in turn are read in the same order, with the rest of the input left.
\<close>
theorem NetParser_roundtrip:
  assumes "length rest < 2 ^ 63"
  shows "\<exists>p1 p2 p3.
    NetParser_u32 (NetParser_new (Buffer_of (NetUnparser_u8 (NetUnparser_u16 (NetUnparser_u32 [] a) b) c @ rest))) = (a, p1) \<and>
    NetParser_u16 p1 = (b, p2) \<and> NetParser_u8 p2 = (c, p3) \<and>
    NetParser_get_error p3 = NoError \<and> Buffer_str (np_buffer p3) = rest"
proof -
  have 0: "parser_at (NetParser_new (Buffer_of (be_bytes 4 a @ be_bytes 2 b @ be_bytes 1 c @ rest)))
      (be_bytes 4 a @ be_bytes 2 b @ be_bytes 1 c @ rest)"
    using assms parser_at_new [OF buffer_ok_of] by (simp add: Buffer_str_of)
  obtain p1 where 1: "NetParser_u32 (NetParser_new (Buffer_of (be_bytes 4 a @ be_bytes 2 b @ be_bytes 1 c @ rest))) = (a, p1)"
    "parser_at p1 (be_bytes 2 b @ be_bytes 1 c @ rest)" by (rule u32.decE [OF 0 TrueI])
  obtain p2 where 2: "NetParser_u16 p1 = (b, p2)" "parser_at p2 (be_bytes 1 c @ rest)"
    by (rule u16.decE [OF 1(2) TrueI])
  obtain p3 where 3: "NetParser_u8 p2 = (c, p3)" "parser_at p3 rest" by (rule u8.decE [OF 2(2) TrueI])
  from 1 2 3 show ?thesis by (auto dest: parser_atD)
qed

theorem NetParser_roundtrip_witness:
  "fst (NetParser_u32 (NetParser_new (Buffer_of [0x12, 0x34, 0x56, 0x78, 0x9a, 0xbc, 0xde, 0xff]))) = 0x12345678"
proof -
  have "NetUnparser_u8 (NetUnparser_u16 (NetUnparser_u32 [] 0x12345678) 0x9abc) 0xde @ [0xff]
      = [0x12, 0x34, 0x56, 0x78, 0x9a, 0xbc, 0xde, 0xff]" by code_simp
  from NetParser_roundtrip [where rest = "[0xff]" and a = "0x12345678" and b = "0x9abc" and c = "0xde",
      unfolded this] show ?thesis by fastforce
qed

text \<open>
  The name table of \<open>as_string\<close> has a name for every result but \<open>Unsupported\<close>, for which the
  function reads past the end of its array.
\<close>
theorem as_string_undefined: "as_string r = Inl Undefined \<longleftrightarrow> r = Unsupported"
  by (cases r) (simp_all add: as_string_def ParseResult_index_def)

end
