(* ===== verification/Internet_Checksum.thy ===== *)
theory Internet_Checksum
  imports Prelude
begin

text \<open>
  The class \<open>InternetChecksum\<close> of \<open>libsponge/util/util.hh\<close> and \<open>.cc\<close>: the 16-bit one's
  complement sum of RFC 1071 over a 32-bit accumulator. The theory computes its value as
  arithmetic modulo 65535 and shows that a packet whose checksum field was filled in from
  the checksum over a zero field sums to zero.
\<close>

section \<open>Model\<close>

record InternetChecksum =
  ic_sum :: u32
  ic_parity :: bool

definition InternetChecksum_new :: "u32 \<Rightarrow> InternetChecksum" where
  "InternetChecksum_new initial_sum = \<lparr>ic_sum = initial_sum, ic_parity = False\<rparr>"

fun InternetChecksum_add :: "bytes \<Rightarrow> InternetChecksum \<Rightarrow> InternetChecksum" where
  "InternetChecksum_add [] ic = ic"
| "InternetChecksum_add (c # data) ic =
     (let val = (ucast c :: u16);
          val' = (if \<not> ic_parity ic then push_bit 8 val else val)
      in InternetChecksum_add data (ic\<lparr>ic_sum := ic_sum ic + ucast val', ic_parity := \<not> ic_parity ic\<rparr>))"

lemma unat_carry_step:
  fixes ret :: u32
  shows "unat (drop_bit 16 ret + (ret AND 0xffff)) = unat ret div 65536 + unat ret mod 65536"
proof -
  have "ret AND 0xffff = ret AND mask 16" by (simp add: mask_eq_exp_minus_1)
  then have l: "unat (ret AND 0xffff) = unat ret mod 65536" by (simp add: unat_and_mask)
  have h: "unat (drop_bit 16 ret) = unat ret div 65536"
    by (simp add: drop_bit_eq_div unat_div_distrib)
  have "unat ret div 65536 < 65536" using unat_lt_32 [of ret] by simp
  then have "unat (drop_bit 16 ret) + unat (ret AND 0xffff) < 2 ^ LENGTH(32)"
    unfolding h l using mod_less_divisor [of 65536 "unat ret"] by simp
  then show ?thesis using h l by (simp add: unat_add_small)
qed

function fold_carry :: "u32 \<Rightarrow> u32" where
  "fold_carry ret = (if ret > 0xffff then fold_carry (drop_bit 16 ret + (ret AND 0xffff)) else ret)"
  by pat_completeness auto
termination
proof (relation "measure unat")
  fix ret :: u32 assume "0xffff < ret"
  then have "65536 \<le> unat ret" by (simp add: word_less_nat_alt)
  then have "1 \<le> unat ret div 65536" by simp
  then have "unat ret div 65536 + unat ret mod 65536 < unat ret"
    using div_mult_mod_eq [of "unat ret" 65536] by linarith
  then show "(drop_bit 16 ret + (ret AND 0xffff), ret) \<in> measure unat"
    by (simp add: unat_carry_step)
qed simp

declare fold_carry.simps [simp del]

definition InternetChecksum_value :: "InternetChecksum \<Rightarrow> u16" where
  "InternetChecksum_value ic = ucast (NOT (fold_carry (ic_sum ic)))"

section \<open>The sum as a natural number\<close>

fun byte_sum :: "bool \<Rightarrow> bytes \<Rightarrow> nat" where
  "byte_sum p [] = 0"
| "byte_sum p (c # cs) = (if p then unat c else unat c * 256) + byte_sum (\<not> p) cs"

lemma byte_sum_append:
  "byte_sum p (xs @ ys) = byte_sum p xs + byte_sum (p \<noteq> odd (length xs)) ys"
proof (induction xs arbitrary: p)
  case (Cons c xs)
  have "((\<not> p) \<noteq> odd (length xs)) = (p \<noteq> odd (length (c # xs)))" by auto
  then show ?case by (simp only: append_Cons byte_sum.simps Cons add.assoc)
qed simp

lemma byte_sum_le: "byte_sum p bs \<le> 65280 * length bs"
proof (induction bs arbitrary: p)
  case (Cons c bs)
  have "(if p then unat c else unat c * 256) \<le> 65280" using unat_lt_8 [of c] by simp
  with Cons [of "\<not> p"] show ?case by simp
qed simp

lemma byte_sum_two_le: "byte_sum False bs \<le> 65535 * ((length bs + 1) div 2)"
proof (induction bs rule: induct_list012)
  case (2 c)
  then show ?case using unat_lt_8 [of c] by simp
next
  case (3 a b bs)
  then show ?case using unat_lt_8 [of a] unat_lt_8 [of b] by simp
qed simp

lemma InternetChecksum_add_append:
  "InternetChecksum_add (xs @ ys) ic = InternetChecksum_add ys (InternetChecksum_add xs ic)"
  by (induction xs arbitrary: ic) (auto simp: Let_def)

lemma ucast_val:
  "(ucast (if \<not> p then push_bit 8 (ucast c :: u16) else ucast c) :: u32)
     = of_nat (if p then unat (c :: u8) else unat c * 256)"
proof (rule word_eq_unatI, cases p)
  case True
  then show "unat (ucast (if \<not> p then push_bit 8 (ucast c :: u16) else ucast c) :: u32)
      = unat (of_nat (if p then unat c else unat c * 256) :: u32)"
    using unat_lt_8 [of c] by (simp add: unat_ucast_up unat_of_nat)
next
  case False
  have "unat (push_bit 8 (ucast c :: u16)) = unat c * 256"
    using unat_lt_8 [of c] by (simp add: push_bit_eq_mult unat_word_ariths unat_ucast_up)
  then have "unat (ucast (push_bit 8 (ucast c :: u16)) :: u32) = unat c * 256"
    by (simp only: unat_ucast_up [where 'a = 16 and 'b = 32, simplified])
  moreover have "unat (of_nat (unat c * 256) :: u32) = unat c * 256"
    using unat_lt_8 [of c] by (intro unat_of_nat_small) simp
  ultimately show "unat (ucast (if \<not> p then push_bit 8 (ucast c :: u16) else ucast c) :: u32)
      = unat (of_nat (if p then unat c else unat c * 256) :: u32)"
    using False by (simp only: if_False not_False_eq_True if_True)
qed

lemma InternetChecksum_add_sum:
  "ic_sum (InternetChecksum_add bs ic) = ic_sum ic + of_nat (byte_sum (ic_parity ic) bs)"
  "ic_parity (InternetChecksum_add bs ic) = (ic_parity ic \<noteq> odd (length bs))"
proof (induction bs arbitrary: ic)
  case (Cons c bs)
  {
    case 1
    show ?case unfolding InternetChecksum_add.simps Let_def ucast_val by (simp add: Cons)
  next
    case 2
    show ?case by (simp add: Cons Let_def)
  }
qed simp_all

text \<open>The value of a 16-bit one's complement sum: the representative in 1..65535, and 0 for 0.\<close>

definition ones_sum :: "nat \<Rightarrow> nat" where
  "ones_sum n = (if n = 0 then 0 else (n - 1) mod 65535 + 1)"

lemma ones_sum_small: "n \<le> 65535 \<Longrightarrow> ones_sum n = n"
  by (auto simp: ones_sum_def)

lemma ones_sum_le: "ones_sum n \<le> 65535"
  by (simp add: ones_sum_def Suc_le_eq)

lemma ones_sum_carry: "ones_sum (n div 65536 + n mod 65536) = ones_sum n"
proof (cases "n div 65536 + n mod 65536 = 0")
  case True
  then have "n = 0" by (metis add_is_0 div_mult_mod_eq mult_0)
  then show ?thesis by simp
next
  case False
  then have n: "n \<noteq> 0" by (cases n) auto
  define q r where "q = n div 65536" and "r = n mod 65536"
  have "n = q * 65536 + r" by (simp add: q_def r_def)
  moreover have "q + r \<noteq> 0" using False by (simp add: q_def r_def)
  ultimately have "n - 1 = (q + r - 1) + q * 65535" by simp
  then have "(n - 1) mod 65535 = (n div 65536 + n mod 65536 - 1) mod 65535"
    unfolding q_def [symmetric] r_def [symmetric] by (simp only: mod_mult_self1)
  with False n show ?thesis by (simp add: ones_sum_def)
qed

lemma unat_fold_carry: "unat (fold_carry ret) = ones_sum (unat ret)"
proof (induction ret rule: fold_carry.induct)
  case (1 ret)
  show ?case
  proof (cases "0xffff < ret")
    case True
    with 1 show ?thesis
      by (subst fold_carry.simps) (simp add: unat_carry_step ones_sum_carry)
  next
    case False
    then show ?thesis
      by (subst fold_carry.simps) (simp add: ones_sum_small word_less_nat_alt)
  qed
qed

lemma unat_value: "unat (InternetChecksum_value ic) = 65535 - ones_sum (unat (ic_sum ic))"
proof -
  let ?r = "fold_carry (ic_sum ic)"
  have r: "unat ?r \<le> 65535" by (simp add: unat_fold_carry ones_sum_le)
  have "unat (NOT ?r) = 4294967295 - unat ?r"
    by (simp add: unat_not)
  also have "\<dots> = 65535 - unat ?r + 65535 * 65536" using r by simp
  finally have "unat (NOT ?r) mod 65536 = (65535 - unat ?r) mod 65536"
    by (simp only: mod_mult_self1)
  also have "\<dots> = 65535 - unat ?r" by (rule mod_less) simp
  finally have "unat (NOT ?r) mod 65536 = 65535 - unat ?r" .
  then show ?thesis by (simp add: InternetChecksum_value_def unat_ucast_down unat_fold_carry)
qed


lemma ones_sum_max_iff: "ones_sum n = 65535 \<longleftrightarrow> 0 < n \<and> 65535 dvd n"
proof (cases n)
  case (Suc m)
  have "m mod 65535 + 1 = 65535 \<longleftrightarrow> Suc m mod 65535 = 0"
    using mod_Suc [of m 65535] mod_less_divisor [of 65535 m] by (auto split: if_splits)
  with Suc show ?thesis by (simp add: ones_sum_def dvd_eq_mod_eq_0)
qed (simp add: ones_sum_def)

lemma value_0_iff: "InternetChecksum_value ic = 0 \<longleftrightarrow> 0 < unat (ic_sum ic) \<and> 65535 dvd unat (ic_sum ic)"
proof -
  have "InternetChecksum_value ic = 0 \<longleftrightarrow> ones_sum (unat (ic_sum ic)) = 65535"
    using ones_sum_le [of "unat (ic_sum ic)"] by (simp add: unat_eq_0 [symmetric] unat_value)
  then show ?thesis by (simp only: ones_sum_max_iff)
qed

text \<open>Adding the complement of a sum gives a multiple of 65535.\<close>

lemma complement_completes: "65535 dvd n + (65535 - ones_sum n)" "0 < n + (65535 - ones_sum n)"
proof -
  have *: "65535 dvd n + (65535 - ones_sum n) \<and> 0 < n + (65535 - ones_sum n)"
  proof (cases n)
    case (Suc m)
    define q r where "q = m div 65535" and "r = m mod 65535"
    have m: "m = q * 65535 + r" and r: "r < 65535" by (simp_all add: q_def r_def)
    have "n + (65535 - ones_sum n) = (q + 1) * 65535"
      using r by (simp add: ones_sum_def Suc r_def [symmetric]) (simp add: m)
    then show ?thesis by (metis dvd_triv_right zero_less_Suc Suc add_gr_0)
  qed (simp add: ones_sum_def)
  then show "65535 dvd n + (65535 - ones_sum n)" "0 < n + (65535 - ones_sum n)" by auto
qed

lemma unat_sum_small:
  assumes "unat init < 2 ^ 30" and "length bs \<le> 65538"
  shows "unat (ic_sum (InternetChecksum_add bs (InternetChecksum_new init))) = unat init + byte_sum False bs"
    and "unat init + byte_sum False bs + 65535 < 2 ^ 32"
proof -
  have "(length bs + 1) div 2 \<le> 32769" using assms(2) by simp
  then have "65535 * ((length bs + 1) div 2) \<le> 65535 * 32769" by (rule mult_le_mono2)
  then have b: "byte_sum False bs \<le> 2147516415" using byte_sum_two_le [of bs] by linarith
  with assms(1) show "unat init + byte_sum False bs + 65535 < 2 ^ 32" by simp
  have "unat (of_nat (byte_sum False bs) :: u32) = byte_sum False bs"
    using b by (intro unat_of_nat_small) simp
  with b assms(1) show "unat (ic_sum (InternetChecksum_add bs (InternetChecksum_new init))) = unat init + byte_sum False bs"
    by (simp add: InternetChecksum_add_sum InternetChecksum_new_def unat_add_small)
qed

lemma byte_sum_field:
  assumes "even (length pre)"
  shows "byte_sum False (pre @ ucast (drop_bit 8 (c :: u16)) # ucast c # post) = byte_sum False (pre @ 0 # 0 # post) + unat c"
proof -
  have "unat (ucast (drop_bit 8 c) :: u8) = unat c div 256"
    using unat_lt_16 [of c] by (simp add: unat_ucast_down drop_bit_eq_div unat_div_distrib)
  moreover have "unat (ucast c :: u8) = unat c mod 256" by (simp add: unat_ucast_down)
  ultimately show ?thesis
    using assms div_mult_mod_eq [of "unat c" 256] by (simp add: byte_sum_append)
qed

lemma checksum_complete:
  assumes "even (length pre)" and "length pre + length post \<le> 65536" and "unat init < 2 ^ 30"
    and "c = InternetChecksum_value (InternetChecksum_add (pre @ 0 # 0 # post) (InternetChecksum_new init))"
  shows "InternetChecksum_value (InternetChecksum_add (pre @ ucast (drop_bit 8 c) # ucast c # post)
    (InternetChecksum_new init)) = 0"
proof -
  let ?n = "unat init + byte_sum False (pre @ 0 # 0 # post)"
  have "unat c = 65535 - ones_sum ?n"
    using assms unat_sum_small(1) [of init "pre @ 0 # 0 # post"] by (simp add: unat_value)
  then have "unat (ic_sum (InternetChecksum_add (pre @ ucast (drop_bit 8 c) # ucast c # post)
      (InternetChecksum_new init))) = ?n + (65535 - ones_sum ?n)"
    using assms(1-3) unat_sum_small(1) [of init "pre @ ucast (drop_bit 8 c) # ucast c # post"]
    by (simp add: byte_sum_field)
  then show ?thesis by (simp only: value_0_iff complement_completes simp_thms)
qed

section \<open>Properties\<close>

text \<open>
  C12: for a packet of at most 65538 bytes with a 16-bit checksum field at an even offset, and
  a pseudo-header sum below \<open>2 ^ 30\<close>: filling the field with the checksum computed over the
  packet with a zero field makes the packet check to 0.
\<close>
theorem InternetChecksum_verifies:
  assumes "even (length pre)" and "length pre + length post \<le> 65536" and "unat init < 2 ^ 30"
    and "c = InternetChecksum_value (InternetChecksum_add (pre @ 0 # 0 # post) (InternetChecksum_new init))"
  shows "InternetChecksum_value (InternetChecksum_add (pre @ ucast (drop_bit 8 c) # ucast c # post)
    (InternetChecksum_new init)) = 0"
  by (rule checksum_complete [OF assms])

theorem InternetChecksum_verifies_witness:
  "InternetChecksum_value (InternetChecksum_add [0x45, 0x00, 0xba, 0xff, 0x00] (InternetChecksum_new 0)) = 0"
proof -
  have c: "0xbaff = InternetChecksum_value (InternetChecksum_add ([0x45, 0x00] @ 0 # 0 # [0x00]) (InternetChecksum_new 0))"
    by code_simp
  show ?thesis
    using InternetChecksum_verifies [of "[0x45, 0x00]" "[0x00]" 0, OF _ _ _ c] by simp
qed

text \<open>
  C13: if a packet checks to 0, then no packet that differs from it in one aligned 16-bit word
  checks to 0, unless the change is between 0x0000 and 0xffff.
\<close>
theorem InternetChecksum_detects:
  fixes v w :: u16
  assumes "even (length pre)" and "length pre + length post \<le> 65536" and "unat init < 2 ^ 30"
    and "InternetChecksum_value (InternetChecksum_add (pre @ ucast (drop_bit 8 v) # ucast v # post)
      (InternetChecksum_new init)) = 0"
    and "w \<noteq> v" and "\<not> (v = 0 \<and> w = 0xffff)" and "\<not> (v = 0xffff \<and> w = 0)"
  shows "InternetChecksum_value (InternetChecksum_add (pre @ ucast (drop_bit 8 w) # ucast w # post)
    (InternetChecksum_new init)) \<noteq> 0"
proof
  let ?n = "unat init + byte_sum False (pre @ 0 # 0 # post)"
  have sum: "unat (ic_sum (InternetChecksum_add (pre @ ucast (drop_bit 8 x) # ucast x # post)
      (InternetChecksum_new init))) = ?n + unat x" for x :: u16
    using assms(1-3) unat_sum_small(1) [of init "pre @ ucast (drop_bit 8 x) # ucast x # post"]
    by (simp add: byte_sum_field)
  assume "InternetChecksum_value (InternetChecksum_add (pre @ ucast (drop_bit 8 w) # ucast w # post)
    (InternetChecksum_new init)) = 0"
  with assms(4) have "65535 dvd ?n + unat w" "65535 dvd ?n + unat v"
    by (simp_all only: value_0_iff sum)
  then have "(?n + unat w) mod 65535 = (?n + unat v) mod 65535" by (simp only: dvd_eq_mod_eq_0)
  then have "unat w mod 65535 = unat v mod 65535" by (rule nat_mod_cancel)
  moreover have "x mod 65535 = (if x = 65535 then 0 else x)" if "x < 65536" for x :: nat
    using that by (cases "x = 65535") auto
  ultimately have "(if unat w = 65535 then 0 else unat w) = (if unat v = 65535 then 0 else unat v)"
    using unat_lt_16 [of w] unat_lt_16 [of v] by metis
  with assms(5-7) show False by (auto simp: word_unat_eq_iff split: if_splits)
qed

theorem InternetChecksum_detects_witness:
  "InternetChecksum_value (InternetChecksum_add [0x45, 0x00, 0xba, 0xfe, 0x00] (InternetChecksum_new 0)) \<noteq> 0"
proof -
  have "InternetChecksum_value (InternetChecksum_add ([0x45, 0x00] @ ucast (drop_bit 8 (0xbaff :: u16)) # ucast (0xbaff :: u16) # [0x00])
      (InternetChecksum_new 0)) = 0" by code_simp
  from InternetChecksum_detects [of "[0x45, 0x00]" "[0x00]" 0 "0xbaff" "0xbafe", OF _ _ _ this] show ?thesis
    by simp
qed

end
