(* ===== verification/TCP_Segment.thy ===== *)
theory TCP_Segment
  imports Wrapping_Integers Net_Parser Internet_Checksum
begin

text \<open>
  \<open>libsponge/tcp_helpers/tcp_header.hh\<close>, \<open>tcp_segment.hh\<close> and their \<open>.cc\<close>: the TCP header with
  its wire format and the segment with checksum and payload. The header is an instance of
  the \<open>codec\<close> contract; a serialized segment parses back to itself with a good checksum,
  and the outcome of \<open>parse\<close> is determined for every input.
\<close>

section \<open>Header\<close>

record TCPHeader =
  th_sport :: u16
  th_dport :: u16
  th_seqno :: WrappingInt32
  th_ackno :: WrappingInt32
  th_doff :: u8
  th_urg :: bool
  th_ack :: bool
  th_psh :: bool
  th_rst :: bool
  th_syn :: bool
  th_fin :: bool
  th_win :: u16
  th_cksum :: u16
  th_uptr :: u16

definition TCPHeader_LENGTH :: size_t where
  "TCPHeader_LENGTH = 20"

definition TCPHeader_default :: TCPHeader where
  "TCPHeader_default =
     \<lparr>th_sport = 0, th_dport = 0, th_seqno = WrappingInt32 0, th_ackno = WrappingInt32 0, th_doff = 5,
      th_urg = False, th_ack = False, th_psh = False, th_rst = False, th_syn = False, th_fin = False,
      th_win = 0, th_cksum = 0, th_uptr = 0\<rparr>"

definition TCPHeader_parse :: "NetParser \<Rightarrow> ParseResult \<times> TCPHeader \<times> NetParser" where
  "TCPHeader_parse p0 =
     (let (sport, p1) = NetParser_u16 p0;
          (dport, p2) = NetParser_u16 p1;
          (seqno, p3) = NetParser_u32 p2;
          (ackno, p4) = NetParser_u32 p3;
          (doff_b, p5) = NetParser_u8 p4;
          doff = drop_bit 4 doff_b;
          (fl_b, p6) = NetParser_u8 p5;
          (win, p7) = NetParser_u16 p6;
          (cksum, p8) = NetParser_u16 p7;
          (uptr, p9) = NetParser_u16 p8;
          h = \<lparr>th_sport = sport, th_dport = dport, th_seqno = WrappingInt32 seqno, th_ackno = WrappingInt32 ackno,
               th_doff = doff,
               th_urg = (fl_b AND 0b00100000 \<noteq> 0), th_ack = (fl_b AND 0b00010000 \<noteq> 0),
               th_psh = (fl_b AND 0b00001000 \<noteq> 0), th_rst = (fl_b AND 0b00000100 \<noteq> 0),
               th_syn = (fl_b AND 0b00000010 \<noteq> 0), th_fin = (fl_b AND 0b00000001 \<noteq> 0),
               th_win = win, th_cksum = cksum, th_uptr = uptr\<rparr>
      in if doff < 5 then (HeaderTooShort, h, p9)
         else
           let p10 = NetParser_remove_prefix (ucast doff * 4 - TCPHeader_LENGTH) p9
           in if NetParser_error p10 then (NetParser_get_error p10, h, p10) else (NoError, h, p10))"

definition TCPHeader_flags :: "TCPHeader \<Rightarrow> u8" where
  "TCPHeader_flags h =
     (if th_urg h then 0b00100000 else 0) OR (if th_ack h then 0b00010000 else 0) OR
     (if th_psh h then 0b00001000 else 0) OR (if th_rst h then 0b00000100 else 0) OR
     (if th_syn h then 0b00000010 else 0) OR (if th_fin h then 0b00000001 else 0)"

definition TCPHeader_serialize :: "TCPHeader \<Rightarrow> bytes res" where
  "TCPHeader_serialize h =
     (if th_doff h < 5 then Inl (Runtime_error ''TCP header too short'')
      else
        let ret = NetUnparser_u16 [] (th_sport h);
            ret = NetUnparser_u16 ret (th_dport h);
            ret = NetUnparser_u32 ret (raw_value (th_seqno h));
            ret = NetUnparser_u32 ret (raw_value (th_ackno h));
            ret = NetUnparser_u8 ret (push_bit 4 (th_doff h));
            ret = NetUnparser_u8 ret (TCPHeader_flags h);
            ret = NetUnparser_u16 ret (th_win h);
            ret = NetUnparser_u16 ret (th_cksum h);
            ret = NetUnparser_u16 ret (th_uptr h)
        in Inr (str_resize (4 * unat (th_doff h)) ret))"

definition TCPHeader_eq :: "TCPHeader \<Rightarrow> TCPHeader \<Rightarrow> bool" where
  "TCPHeader_eq h k \<longleftrightarrow>
     wi_eq (th_seqno h) (th_seqno k) \<and> wi_eq (th_ackno h) (th_ackno k) \<and> th_doff h = th_doff k \<and>
     th_urg h = th_urg k \<and> th_ack h = th_ack k \<and> th_psh h = th_psh k \<and> th_rst h = th_rst k \<and>
     th_syn h = th_syn k \<and> th_fin h = th_fin k \<and> th_win h = th_win k \<and> th_uptr h = th_uptr k"

section \<open>Segment\<close>

record TCPSegment =
  ts_header :: TCPHeader
  ts_payload :: Buffer

definition TCPSegment_default :: TCPSegment where
  "TCPSegment_default = \<lparr>ts_header = TCPHeader_default, ts_payload = Buffer_default\<rparr>"

definition TCPSegment_parse :: "TCPSegment \<Rightarrow> Buffer \<Rightarrow> u32 \<Rightarrow> ParseResult \<times> TCPSegment" where
  "TCPSegment_parse seg buffer datagram_layer_checksum =
     (let check = InternetChecksum_add (Buffer_str buffer) (InternetChecksum_new datagram_layer_checksum)
      in if InternetChecksum_value check \<noteq> 0 then (BadChecksum, seg)
         else
           let (_, h, p) = TCPHeader_parse (NetParser_new buffer)
           in (NetParser_get_error p, \<lparr>ts_header = h, ts_payload = np_buffer p\<rparr>))"

definition length_in_sequence_space :: "TCPSegment \<Rightarrow> size_t" where
  "length_in_sequence_space seg =
     str_size (Buffer_str (ts_payload seg)) + (if th_syn (ts_header seg) then 1 else 0)
       + (if th_fin (ts_header seg) then 1 else 0)"

definition TCPSegment_serialize :: "TCPSegment \<Rightarrow> u32 \<Rightarrow> BufferList res" where
  "TCPSegment_serialize seg datagram_layer_checksum =
     (let header_out = (ts_header seg)\<lparr>th_cksum := 0\<rparr>;
          check = InternetChecksum_new datagram_layer_checksum
      in case TCPHeader_serialize header_out of
           Inl e \<Rightarrow> Inl e
         | Inr s0 \<Rightarrow>
             let check = InternetChecksum_add s0 check;
                 check = InternetChecksum_add (Buffer_str (ts_payload seg)) check;
                 header_out = header_out\<lparr>th_cksum := InternetChecksum_value check\<rparr>
             in case TCPHeader_serialize header_out of
                  Inl e \<Rightarrow> Inl e
                | Inr s1 \<Rightarrow>
                    Inr (BufferList_append (BufferList_append [] (BufferList_of_string s1))
                      (BufferList_of_Buffer (ts_payload seg))))"

section \<open>The header as a codec\<close>

definition header_ok :: "TCPHeader \<Rightarrow> bool" where
  "header_ok h \<longleftrightarrow> 5 \<le> unat (th_doff h) \<and> unat (th_doff h) \<le> 15"

definition header_bytes :: "TCPHeader \<Rightarrow> bytes" where
  "header_bytes h =
     be_bytes 2 (th_sport h) @ be_bytes 2 (th_dport h) @ be_bytes 4 (raw_value (th_seqno h)) @
     be_bytes 4 (raw_value (th_ackno h)) @ be_bytes 1 (push_bit 4 (th_doff h)) @ be_bytes 1 (TCPHeader_flags h) @
     be_bytes 2 (th_win h) @ be_bytes 2 (th_cksum h) @ be_bytes 2 (th_uptr h) @
     replicate (4 * unat (th_doff h) - 20) 0"

lemma length_header_bytes: "header_ok h \<Longrightarrow> length (header_bytes h) = 4 * unat (th_doff h)"
  by (auto simp: header_bytes_def header_ok_def)

lemma TCPHeader_serialize_bytes: "header_ok h \<Longrightarrow> TCPHeader_serialize h = Inr (header_bytes h)"
  by (auto simp: TCPHeader_serialize_def header_ok_def header_bytes_def str_resize_def word_less_nat_alt)

lemma flags_decode:
  "(TCPHeader_flags h AND 0b00100000 \<noteq> 0) = th_urg h" "(TCPHeader_flags h AND 0b00010000 \<noteq> 0) = th_ack h"
  "(TCPHeader_flags h AND 0b00001000 \<noteq> 0) = th_psh h" "(TCPHeader_flags h AND 0b00000100 \<noteq> 0) = th_rst h"
  "(TCPHeader_flags h AND 0b00000010 \<noteq> 0) = th_syn h" "(TCPHeader_flags h AND 0b00000001 \<noteq> 0) = th_fin h"
  by (auto simp: TCPHeader_flags_def)

lemma nibble_roundtrip:
  assumes "unat (x :: u8) < 16"
  shows "drop_bit 4 (push_bit 4 x) = x"
proof -
  have "x < 2 ^ 4" using assms by (simp add: word_less_nat_alt)
  then have "take_bit 4 x = x" by (simp add: less_mask_eq take_bit_eq_mask)
  moreover have "drop_bit 4 (push_bit 4 x) = take_bit 4 x"
    by (rule bit_eqI) (auto simp: bit_simps)
  ultimately show ?thesis by simp
qed


lemma unat_options_length:
  assumes "5 \<le> unat (d :: u8)"
  shows "unat (ucast d * 4 - TCPHeader_LENGTH) = 4 * unat d - 20"
proof -
  have "unat (ucast d * 4 :: size_t) = 4 * unat d"
    using unat_lt_8 [of d] by (simp add: unat_word_ariths unat_ucast_up)
  moreover from this have "TCPHeader_LENGTH \<le> ucast d * 4"
    using assms by (simp add: word_le_nat_alt TCPHeader_LENGTH_def)
  ultimately show ?thesis by (simp add: unat_sub TCPHeader_LENGTH_def)
qed

lemma TCPHeader_parse_bytes:
  assumes ok: "header_ok h" and p: "parser_at p (header_bytes h @ rest)"
  shows "\<exists>p'. TCPHeader_parse p = (NoError, h, p') \<and> parser_at p' rest"
proof -
  let ?s9 = "replicate (4 * unat (th_doff h) - 20) 0 @ rest" let ?s8 = "be_bytes 2 (th_uptr h) @ ?s9"
  let ?s7 = "be_bytes 2 (th_cksum h) @ ?s8" let ?s6 = "be_bytes 2 (th_win h) @ ?s7"
  let ?s5 = "be_bytes 1 (TCPHeader_flags h) @ ?s6" let ?s4 = "be_bytes 1 (push_bit 4 (th_doff h)) @ ?s5"
  let ?s3 = "be_bytes 4 (raw_value (th_ackno h)) @ ?s4" let ?s2 = "be_bytes 4 (raw_value (th_seqno h)) @ ?s3"
  let ?s1 = "be_bytes 2 (th_dport h) @ ?s2"
  note p0 = p [unfolded header_bytes_def append_assoc]
  obtain p1 where 1: "NetParser_u16 p = (th_sport h, p1)" "parser_at p1 ?s1" by (rule u16.decE [OF p0 TrueI])
  obtain p2 where 2: "NetParser_u16 p1 = (th_dport h, p2)" "parser_at p2 ?s2" by (rule u16.decE [OF 1(2) TrueI])
  obtain p3 where 3: "NetParser_u32 p2 = (raw_value (th_seqno h), p3)" "parser_at p3 ?s3" by (rule u32.decE [OF 2(2) TrueI])
  obtain p4 where 4: "NetParser_u32 p3 = (raw_value (th_ackno h), p4)" "parser_at p4 ?s4" by (rule u32.decE [OF 3(2) TrueI])
  obtain p5 where 5: "NetParser_u8 p4 = (push_bit 4 (th_doff h), p5)" "parser_at p5 ?s5" by (rule u8.decE [OF 4(2) TrueI])
  obtain p6 where 6: "NetParser_u8 p5 = (TCPHeader_flags h, p6)" "parser_at p6 ?s6" by (rule u8.decE [OF 5(2) TrueI])
  obtain p7 where 7: "NetParser_u16 p6 = (th_win h, p7)" "parser_at p7 ?s7" by (rule u16.decE [OF 6(2) TrueI])
  obtain p8 where 8: "NetParser_u16 p7 = (th_cksum h, p8)" "parser_at p8 ?s8" by (rule u16.decE [OF 7(2) TrueI])
  obtain p9 where 9: "NetParser_u16 p8 = (th_uptr h, p9)" "parser_at p9 ?s9" by (rule u16.decE [OF 8(2) TrueI])
  have d: "drop_bit 4 (push_bit 4 (th_doff h)) = th_doff h" "\<not> th_doff h < 5" "5 \<le> unat (th_doff h)"
    using ok by (auto simp: header_ok_def nibble_roundtrip word_less_nat_alt)
  let ?p10 = "NetParser_remove_prefix (ucast (th_doff h) * 4 - TCPHeader_LENGTH) p9"
  have "parser_at ?p10 rest"
    using remove_prefix_at [OF 9(2), of "ucast (th_doff h) * 4 - TCPHeader_LENGTH"] unat_options_length [OF d(3)] by simp
  moreover from this have "TCPHeader_parse p = (NoError, h, ?p10)"
    by (simp add: TCPHeader_parse_def 1 2 3 4 5 6 7 8 9 d(1,2) flags_decode parser_atD(1) Let_def)
  ultimately show ?thesis by blast
qed

interpretation tcp_header: codec header_ok header_bytes "\<lambda>p. snd (TCPHeader_parse p)"
  by unfold_locales (use TCPHeader_parse_bytes in fastforce)

section \<open>Checksum of a segment\<close>

text \<open>The header with its checksum field, cut at the field.\<close>

lemma header_bytes_cksum:
  assumes "header_ok h"
  obtains pre post where "even (length pre)" and "length pre + length post = 4 * unat (th_doff h) - 2"
    and "\<And>c. header_bytes (h\<lparr>th_cksum := c\<rparr>) = pre @ be_bytes 2 c @ post"
proof
  let ?pre = "be_bytes 2 (th_sport h) @ be_bytes 2 (th_dport h) @ be_bytes 4 (raw_value (th_seqno h)) @
     be_bytes 4 (raw_value (th_ackno h)) @ be_bytes 1 (push_bit 4 (th_doff h)) @ be_bytes 1 (TCPHeader_flags h) @
     be_bytes 2 (th_win h)"
  let ?post = "be_bytes 2 (th_uptr h) @ replicate (4 * unat (th_doff h) - 20) 0"
  show "even (length ?pre)" by simp
  show "length ?pre + length ?post = 4 * unat (th_doff h) - 2" using assms by (auto simp: header_ok_def)
  show "header_bytes (h\<lparr>th_cksum := c\<rparr>) = ?pre @ be_bytes 2 c @ ?post" for c
    by (simp add: header_bytes_def TCPHeader_flags_def)
qed

lemma be_bytes_2: "be_bytes 2 (c :: u16) = [ucast (drop_bit 8 c), ucast c]"
proof -
  have "x AND 0xff = take_bit 8 x" for x :: u16 by (simp add: take_bit_eq_mask mask_eq_exp_minus_1)
  then have "ucast (x AND 0xff) = (ucast x :: u8)" for x :: u16
    by (auto intro!: bit_eqI simp: bit_simps)
  then show ?thesis by (simp add: be_bytes_def numeral_2_eq_2 upt_rec)
qed


text \<open>The header and checksum that \<open>serialize\<close> puts on the wire.\<close>

definition wire_header :: "TCPSegment \<Rightarrow> u32 \<Rightarrow> TCPHeader" where
  "wire_header seg init =
     (ts_header seg)\<lparr>th_cksum := InternetChecksum_value
       (InternetChecksum_add (header_bytes ((ts_header seg)\<lparr>th_cksum := 0\<rparr>) @ Buffer_str (ts_payload seg))
          (InternetChecksum_new init))\<rparr>"

lemma header_ok_cksum [simp]: "header_ok (h\<lparr>th_cksum := c\<rparr>) = header_ok h"
  by (simp add: header_ok_def)

lemma header_ok_wire [simp]: "header_ok (wire_header seg init) = header_ok (ts_header seg)"
  by (simp add: wire_header_def)

lemma TCPSegment_serialize_wire:
  assumes "header_ok (ts_header seg)"
  shows "TCPSegment_serialize seg init = Inr [Buffer_of (header_bytes (wire_header seg init)), ts_payload seg]"
  using assms
  by (simp add: TCPSegment_serialize_def TCPHeader_serialize_bytes wire_header_def Let_def
      InternetChecksum_add_append BufferList_append_def BufferList_of_string_def BufferList_of_Buffer_def)

lemma wire_checksum:
  assumes ok: "header_ok (ts_header seg)" and len: "length (Buffer_str (ts_payload seg)) \<le> 65000"
    and init: "unat init < 2 ^ 30"
  shows "InternetChecksum_value (InternetChecksum_add
    (header_bytes (wire_header seg init) @ Buffer_str (ts_payload seg)) (InternetChecksum_new init)) = 0"
proof -
  let ?d = "Buffer_str (ts_payload seg)" and ?c = "th_cksum (wire_header seg init)"
  obtain pre post where pp: "even (length pre)" "length pre + length post = 4 * unat (th_doff (ts_header seg)) - 2"
    "\<And>c. header_bytes ((ts_header seg)\<lparr>th_cksum := c\<rparr>) = pre @ be_bytes 2 c @ post"
    using header_bytes_cksum [OF ok] by metis
  have "be_bytes 2 (0 :: u16) = [0, 0]" by (simp add: be_bytes_2)
  then have "?c = InternetChecksum_value (InternetChecksum_add (pre @ 0 # 0 # (post @ ?d)) (InternetChecksum_new init))"
    by (simp add: wire_header_def pp)
  then have "InternetChecksum_value (InternetChecksum_add (pre @ ucast (drop_bit 8 ?c) # ucast ?c # (post @ ?d))
      (InternetChecksum_new init)) = 0"
    using ok len init pp(1,2) by (intro checksum_complete) (auto simp: header_ok_def)
  moreover have "wire_header seg init = (ts_header seg)\<lparr>th_cksum := ?c\<rparr>" by (simp add: wire_header_def)
  then have "header_bytes (wire_header seg init) = pre @ be_bytes 2 ?c @ post" using pp(3) by metis
  ultimately show ?thesis by (simp add: be_bytes_2)
qed

section \<open>Outcome of parsing\<close>

lemma TCPHeader_parse_consumed:
  assumes "consumed s n p" and "TCPHeader_parse p = (r, h, p')"
  shows "th_doff h = drop_bit 4 (if n + 12 < length s then s ! (n + 12) else 0)"
    and "r = (if th_doff h < 5 then HeaderTooShort else NetParser_get_error p')"
    and "consumed s (n + (if th_doff h < 5 then 20 else 4 * unat (th_doff h))) p'"
proof -
  obtain v1 p1 where 1: "NetParser_u16 p = (v1, p1)" by fastforce
  obtain v2 p2 where 2: "NetParser_u16 p1 = (v2, p2)" by fastforce
  obtain v3 p3 where 3: "NetParser_u32 p2 = (v3, p3)" by fastforce
  obtain v4 p4 where 4: "NetParser_u32 p3 = (v4, p4)" by fastforce
  obtain v5 p5 where 5: "NetParser_u8 p4 = (v5, p5)" by fastforce
  obtain v6 p6 where 6: "NetParser_u8 p5 = (v6, p6)" by fastforce
  obtain v7 p7 where 7: "NetParser_u16 p6 = (v7, p7)" by fastforce
  obtain v8 p8 where 8: "NetParser_u16 p7 = (v8, p8)" by fastforce
  obtain v9 p9 where 9: "NetParser_u16 p8 = (v9, p9)" by fastforce
  have c4: "consumed s (n + 12) p4"
    using u_consumed(1) [OF u_consumed(1) [OF u_consumed(2) [OF u_consumed(2) [OF assms(1) 1] 2] 3] 4] by (simp add: add.commute)
  have c9: "consumed s (n + 20) p9"
    using u_consumed(2) [OF u_consumed(2) [OF u_consumed(2) [OF u_consumed(3) [OF u_consumed(3) [OF c4 5] 6] 7] 8] 9]
    by (simp add: add.commute)
  have h: "th_doff h = drop_bit 4 v5" "p' = (if drop_bit 4 v5 < 5 then p9
      else NetParser_remove_prefix (ucast (drop_bit 4 v5 :: u8) * 4 - TCPHeader_LENGTH) p9)"
    "r = (if drop_bit 4 v5 < 5 then HeaderTooShort else NetParser_get_error p')"
    using assms(2)
    by (auto simp: TCPHeader_parse_def 1 2 3 4 5 6 7 8 9 Let_def NetParser_error_def split: if_splits)
  show "th_doff h = drop_bit 4 (if n + 12 < length s then s ! (n + 12) else 0)"
    using h(1) u8_value [OF c4 5] by simp
  show "r = (if th_doff h < 5 then HeaderTooShort else NetParser_get_error p')" using h by simp
  show "consumed s (n + (if th_doff h < 5 then 20 else 4 * unat (th_doff h))) p'"
    using h(1,2) c9 remove_prefix_consumed [OF c9, of "ucast (drop_bit 4 v5 :: u8) * 4 - TCPHeader_LENGTH"]
      unat_options_length [of "drop_bit 4 v5"] by (auto simp: word_less_nat_alt)
qed


lemma TCPSegment_parse_buffer:
  assumes h: "header_ok h" and b: "buffer_ok b" "Buffer_str b = header_bytes h @ d"
    and ck: "InternetChecksum_value (InternetChecksum_add (header_bytes h @ d) (InternetChecksum_new init)) = 0"
  shows "\<exists>seg. TCPSegment_parse seg0 b init = (NoError, seg) \<and>
    ts_header seg = h \<and> Buffer_str (ts_payload seg) = d \<and> buffer_ok (ts_payload seg)"
proof -
  have "parser_at (NetParser_new b) (header_bytes h @ d)" using parser_at_new [OF b(1)] b(2) by simp
  from TCPHeader_parse_bytes [OF h this] obtain p'
    where "TCPHeader_parse (NetParser_new b) = (NoError, h, p')" "parser_at p' d" by auto
  with ck b(2) show ?thesis by (simp add: TCPSegment_parse_def parser_at_def NetParser_get_error_def)
qed

lemma TCPSegment_parse_ok:
  assumes h: "header_ok h" and len: "length (header_bytes h @ d) < 2 ^ 64"
    and ck: "InternetChecksum_value (InternetChecksum_add (header_bytes h @ d) (InternetChecksum_new init)) = 0"
  shows "\<exists>seg. TCPSegment_parse seg0 (Buffer_of (header_bytes h @ d)) init = (NoError, seg) \<and>
    ts_header seg = h \<and> Buffer_str (ts_payload seg) = d \<and> buffer_ok (ts_payload seg)"
  by (rule TCPSegment_parse_buffer [OF h buffer_ok_of [OF len] Buffer_str_of [OF len] ck])

section \<open>Properties\<close>

text \<open>
  C8: for a segment with a legal data offset and at most 65000 bytes of payload, \<open>serialize\<close>
  succeeds, and the bytes it produces parse without error, for the same pseudo-header sum,
  into a segment with the same payload and the same header up to the checksum field.
\<close>
theorem TCPSegment_roundtrip:
  assumes "header_ok (ts_header seg)" and "buffer_ok (ts_payload seg)"
    and "length (Buffer_str (ts_payload seg)) \<le> 65000" and "unat init < 2 ^ 30"
  shows "\<exists>bl seg'. TCPSegment_serialize seg init = Inr bl \<and>
    TCPSegment_parse seg0 (Buffer_of (BufferList_concatenate bl)) init = (NoError, seg') \<and>
    ts_header seg' = (ts_header seg)\<lparr>th_cksum := th_cksum (ts_header seg')\<rparr> \<and>
    Buffer_str (ts_payload seg') = Buffer_str (ts_payload seg)"
proof -
  let ?h = "wire_header seg init" and ?d = "Buffer_str (ts_payload seg)"
  have h: "header_ok ?h" using assms(1) by simp
  have "length (header_bytes ?h) \<le> 60" using h length_header_bytes [OF h] by (simp add: header_ok_def)
  then have len: "length (header_bytes ?h) < 2 ^ 64" "length (header_bytes ?h @ ?d) < 2 ^ 64" using assms(3) by auto
  obtain seg' where "TCPSegment_parse seg0 (Buffer_of (header_bytes ?h @ ?d)) init = (NoError, seg')"
    "ts_header seg' = ?h" "Buffer_str (ts_payload seg') = ?d"
    using TCPSegment_parse_ok [OF h len(2) wire_checksum [OF assms(1,3,4)]] by blast
  with len(1) show ?thesis
    by (simp add: TCPSegment_serialize_wire [OF assms(1)] Buffer_str_of) (simp add: wire_header_def)
qed

theorem TCPSegment_roundtrip_witness:
  "\<exists>bl seg'. TCPSegment_serialize \<lparr>ts_header = TCPHeader_default, ts_payload = Buffer_of [1, 2, 3]\<rparr> 7 = Inr bl \<and>
    TCPSegment_parse TCPSegment_default (Buffer_of (BufferList_concatenate bl)) 7 = (NoError, seg') \<and>
    Buffer_str (ts_payload seg') = [1, 2, 3]"
  using TCPSegment_roundtrip [of "\<lparr>ts_header = TCPHeader_default, ts_payload = Buffer_of [1, 2, 3]\<rparr>" 7 TCPSegment_default]
  by (auto simp: header_ok_def TCPHeader_default_def buffer_ok_of Buffer_str_of)

text \<open>
  C10: the outcome of \<open>TCPSegment::parse\<close> on every buffer: \<open>BadChecksum\<close> exactly when the
  checksum does not come to zero; else \<open>PacketTooShort\<close> exactly when the bytes do not cover the
  fixed header and, for a data offset of at least 5, the options; else \<open>NoError\<close>. A data offset
  below 5 is therefore accepted: the \<open>HeaderTooShort\<close> of the header parser is dropped.
\<close>
theorem TCPSegment_parse_outcome:
  assumes "buffer_ok b" and "s = Buffer_str b" and "doff = drop_bit 4 (if 12 < length s then s ! 12 else 0)"
  shows "fst (TCPSegment_parse seg b init) =
    (if InternetChecksum_value (InternetChecksum_add s (InternetChecksum_new init)) \<noteq> 0 then BadChecksum
     else if length s < (if doff < 5 then 20 else 4 * unat doff) then PacketTooShort else NoError)"
proof -
  obtain r h p where p: "TCPHeader_parse (NetParser_new b) = (r, h, p)" by (metis prod_cases3)
  have "consumed s 0 (NetParser_new b)" using assms(1,2) consumed_new by simp
  note C = TCPHeader_parse_consumed [OF this p]
  have "th_doff h = doff" using C(1) assms(3) by simp
  with C(3) consumed_get_error [OF C(3)] p assms(2) show ?thesis
    by (auto simp: TCPSegment_parse_def)
qed

theorem TCPSegment_parse_outcome_witness:
  "fst (TCPSegment_parse TCPSegment_default (Buffer_of (replicate 12 0 @ [0x10, 0, 0, 0, 0xef, 0xff, 0, 0])) 0) = NoError"
proof -
  let ?s = "replicate 12 (0 :: u8) @ [0x10, 0, 0, 0, 0xef, 0xff, 0, 0]"
  have b: "buffer_ok (Buffer_of ?s)" by (intro buffer_ok_of) simp
  have "InternetChecksum_value (InternetChecksum_add ?s (InternetChecksum_new 0)) = 0" by code_simp
  moreover have "Buffer_str (Buffer_of ?s) = ?s" by (rule Buffer_str_of) simp
  moreover have "drop_bit 4 (if 12 < length ?s then ?s ! 12 else 0) = 1" by code_simp
  ultimately show ?thesis
    using TCPSegment_parse_outcome [OF b, of ?s 1 TCPSegment_default 0] by simp
qed

end
