(* ===== verification/TCP_Receiver.thy ===== *)
theory TCP_Receiver
  imports Stream_Reassembler TCP_Segment
begin

text \<open>
  \<open>libsponge/tcp_receiver.hh\<close> and \<open>.cc\<close>: the receiver turns the sequence numbers of inbound
  segments into stream indices for its \<open>StreamReassembler\<close> and computes the acknowledgment
  number and window to advertise. Runs of segments of one stream and reads are an
  \<open>invariant_system\<close> that rests on the one of the reassembler.
\<close>

section \<open>Model\<close>

record TCPReceiver =
  tr_reassembler :: StreamReassembler
  tr_capacity :: size_t
  tr_isn :: WrappingInt32
  tr_set_isn :: bool

definition TCPReceiver_new :: "size_t \<Rightarrow> TCPReceiver" where
  "TCPReceiver_new capacity =
     \<lparr>tr_reassembler = StreamReassembler_new capacity, tr_capacity = capacity, tr_isn = WrappingInt32 0,
      tr_set_isn = False\<rparr>"

definition TCPReceiver_stream_out :: "TCPReceiver \<Rightarrow> ByteStream" where
  "TCPReceiver_stream_out t = sr_output (tr_reassembler t)"

definition TCPReceiver_segment_received :: "TCPSegment \<Rightarrow> TCPReceiver \<Rightarrow> TCPReceiver" where
  "TCPReceiver_segment_received seg t0 =
     (let header = ts_header seg; payload = ts_payload seg
      in if \<not> tr_set_isn t0 \<and> \<not> th_syn header then t0
         else
           let (t, bias) = (if \<not> tr_set_isn t0
                 then (t0\<lparr>tr_isn := th_seqno header, tr_set_isn := th_syn header\<rparr>, 0 :: u64) else (t0, 1));
               checkpoint = ByteStream_bytes_written (TCPReceiver_stream_out t);
               absolute_seqno = unwrap (th_seqno header) (tr_isn t) checkpoint
           in t\<lparr>tr_reassembler := push_substring (Buffer_copy payload) (absolute_seqno - bias) (th_fin header)
                  (tr_reassembler t)\<rparr>)"

definition TCPReceiver_ackno :: "TCPReceiver \<Rightarrow> WrappingInt32 option" where
  "TCPReceiver_ackno t =
     (if \<not> tr_set_isn t then None
      else
        let bytes_written = ByteStream_bytes_written (TCPReceiver_stream_out t);
            seq_count = b2w (tr_set_isn t) + bytes_written + b2w (bs_input_ended (TCPReceiver_stream_out t))
        in Some (wrap seq_count (tr_isn t)))"

definition TCPReceiver_window_size :: "TCPReceiver \<Rightarrow> size_t" where
  "TCPReceiver_window_size t = tr_capacity t - ByteStream_buffer_size (TCPReceiver_stream_out t)"

definition TCPReceiver_unassembled_bytes :: "TCPReceiver \<Rightarrow> size_t" where
  "TCPReceiver_unassembled_bytes t = StreamReassembler_unassembled_bytes (tr_reassembler t)"

text \<open>The reader takes bytes from \<open>stream_out()\<close>.\<close>

definition TCPReceiver_read :: "size_t \<Rightarrow> TCPReceiver \<Rightarrow> (bytes \<times> TCPReceiver) option" where
  "TCPReceiver_read n t =
     (case ByteStream_read n (TCPReceiver_stream_out t) of
        None \<Rightarrow> None
      | Some (d, o') \<Rightarrow> Some (d, t\<lparr>tr_reassembler := (tr_reassembler t)\<lparr>sr_output := o'\<rparr>\<rparr>))"

section \<open>Segments of one stream\<close>

text \<open>
  A segment of the stream \<open>S\<close> of a peer with initial sequence number \<open>isn\<close>: the SYN, possibly
  with the first bytes, when it comes first; a repeated SYN without FIN; otherwise bytes from index \<open>i\<close> on, less than \<open>2 ^ 31\<close> away from the assembled bytes, empty
  only at or behind the head, with FIN only at the end of \<open>S\<close>.
\<close>

definition valid_segment :: "bytes \<Rightarrow> WrappingInt32 \<Rightarrow> TCPReceiver \<Rightarrow> nat \<Rightarrow> TCPSegment \<Rightarrow> bool" where
  "valid_segment S isn t i seg \<longleftrightarrow>
     (let h = ts_header seg; d = Buffer_str (ts_payload seg); head = unat (sr_head_index (tr_reassembler t))
      in if th_syn h
         then th_seqno h = isn \<and>
           (if tr_set_isn t then \<not> th_fin h \<and> head < 2 ^ 31
            else frag S (0, d) \<and> (th_fin h \<longrightarrow> length d = length S))
         else tr_set_isn t \<longrightarrow>
           th_seqno h = wrap (of_nat (i + 1)) isn \<and> ndist (i + 1) head < 2 ^ 31 \<and>
           frag S (of_nat i, d) \<and> i \<le> length S \<and> (th_fin h \<longrightarrow> i + length d = length S) \<and> (d = [] \<longrightarrow> i \<le> head))"

definition tr_inv :: "bytes \<Rightarrow> WrappingInt32 \<Rightarrow> size_t \<Rightarrow> TCPReceiver \<times> bytes \<Rightarrow> bool" where
  "tr_inv S isn cap s \<longleftrightarrow>
     sr_run_inv S cap (tr_reassembler (fst s), snd s) \<and> tr_capacity (fst s) = cap \<and>
     (tr_set_isn (fst s) \<longrightarrow> tr_isn (fst s) = isn) \<and>
     (\<not> tr_set_isn (fst s) \<longrightarrow> sr_head_index (tr_reassembler (fst s)) = 0)"

inductive tr_step :: "bytes \<Rightarrow> WrappingInt32 \<Rightarrow> TCPReceiver \<times> bytes \<Rightarrow> TCPReceiver \<times> bytes \<Rightarrow> bool" for S isn where
  tr_segment: "valid_segment S isn t i seg \<Longrightarrow> tr_step S isn (t, out) (TCPReceiver_segment_received seg t, out)"
| tr_read: "TCPReceiver_read n t = Some (d, t') \<Longrightarrow> tr_step S isn (t, out) (t', out @ d)"

inductive_cases tr_stepE: "tr_step S isn (t, out) (t', out')"

definition tr_init :: "bytes \<Rightarrow> size_t \<Rightarrow> TCPReceiver \<times> bytes \<Rightarrow> bool" where
  "tr_init S cap s \<longleftrightarrow>
     0 < unat cap \<and> unat cap < 2 ^ 63 \<and> length S + unat cap < 2 ^ 64 \<and> s = (TCPReceiver_new cap, [])"

section \<open>A segment is a push at the right index\<close>

lemma unwrap_self: "unat c < 2 ^ 31 \<Longrightarrow> unwrap isn isn c = 0"
  by (rule unwrap_unique) (auto intro: WrappingInt32.expand simp: raw_wrap ndist_def)

text \<open>An index past every window changes nothing.\<close>

lemma push_nothing:
  assumes inv: "sr_inv S out r" and le: "window_end r \<le> unat i"
  shows "push_substring d i False r = r"
proof -
  have c: "sr_core S out r" using inv by (simp add: sr_inv_def)
  have idem: "end_if_done r = r" using inv empty_iff [OF c]
    by (cases r) (auto simp: end_if_done_def sr_inv_def ByteStream_end_input_def)
  have "sr_head_index r + ByteStream_remaining_capacity (sr_output r) \<le> i"
    using le by (simp add: word_le_nat_alt unat_window_end [OF c])
  then show ?thesis by (simp add: push_substring_def Let_def idem)
qed


lemma segment_received_inv:
  assumes inv: "tr_inv S isn cap (t, out)" and v: "valid_segment S isn t i seg"
  shows "tr_inv S isn cap (TCPReceiver_segment_received seg t, out)"
proof -
  let ?r = "tr_reassembler t" and ?h = "ts_header seg" and ?d = "Buffer_str (ts_payload seg)"
  have r: "sr_inv S out ?r" "sr_capacity ?r = cap" and isn: "tr_set_isn t \<Longrightarrow> tr_isn t = isn"
    and fresh: "\<not> tr_set_isn t \<Longrightarrow> sr_head_index ?r = 0"
    using inv by (auto simp: tr_inv_def sr_run_inv_def)
  then have c: "sr_core S out ?r" by (simp add: sr_inv_def)
  have w: "ByteStream_bytes_written (sr_output ?r) = sr_head_index ?r"
    using sr_coreD(9) [OF c] by (simp add: ByteStream_bytes_written_def)
  show ?thesis
  proof (cases "tr_set_isn t")
    case False
    show ?thesis
    proof (cases "th_syn ?h")
      case True
      then have "valid_push S ?r ?d 0 (th_fin ?h)" using v False by (auto simp: valid_segment_def valid_push_def Let_def)
      from push_spec [OF r(1) this] show ?thesis
        using False True inv v w fresh
        by (auto simp: TCPReceiver_segment_received_def TCPReceiver_stream_out_def tr_inv_def sr_run_inv_def
            unwrap_self Buffer_copy_def valid_segment_def Let_def)
    qed (use False inv in \<open>simp add: TCPReceiver_segment_received_def\<close>)
  next
    case True
    show ?thesis
    proof (cases "th_syn ?h")
      case syn: True
      then have d: "\<not> th_fin ?h" "unat (sr_head_index ?r) < 2 ^ 31" "th_seqno ?h = isn"
        using v True by (auto simp: valid_segment_def Let_def)
      have "push_substring ?d (0 - 1) False ?r = ?r"
        using window_end_bound [OF c] by (intro push_nothing [OF r(1)]) (simp add: unsigned_minus_1_eq_mask mask_eq_exp_minus_1)
      then show ?thesis using True d inv isn [OF True]
        by (simp add: TCPReceiver_segment_received_def TCPReceiver_stream_out_def w unwrap_self Buffer_copy_def)
    next
      case False
      then have f: "th_seqno ?h = wrap (of_nat (i + 1)) isn" "ndist (i + 1) (unat (sr_head_index ?r)) < 2 ^ 31"
        "frag S (of_nat i, ?d)" "i \<le> length S" "th_fin ?h \<longrightarrow> i + length ?d = length S"
        "?d = [] \<longrightarrow> i \<le> unat (sr_head_index ?r)"
        using v True by (auto simp: valid_segment_def Let_def)
      have i: "unat (of_nat (i + 1) :: u64) = i + 1" "unat (of_nat i :: u64) = i"
        using f(4) sr_coreD(3) [OF c] bs_invD(1) [OF sr_coreD(1) [OF c]] by (intro unat_of_nat_small; simp)+
      have "unwrap (th_seqno ?h) isn (sr_head_index ?r) = of_nat (i + 1)"
        using f(1,2) i(1) by (intro unwrap_unique) simp_all
      then have idx: "unwrap (th_seqno ?h) isn (sr_head_index ?r) - 1 = of_nat i" by simp
      have "valid_push S ?r ?d (of_nat i) (th_fin ?h)" using f i by (simp add: valid_push_def word_le_nat_alt)
      from push_spec [OF r(1) this] show ?thesis
        using True False inv isn [OF True] w idx
        by (simp add: TCPReceiver_segment_received_def TCPReceiver_stream_out_def tr_inv_def sr_run_inv_def Buffer_copy_def)
    qed
  qed
qed

lemma receiver_read_inv:
  assumes "tr_inv S isn cap (t, out)" and "TCPReceiver_read n t = Some (d, t')"
  shows "tr_inv S isn cap (t', out @ d)"
proof -
  obtain o' where o': "ByteStream_read n (sr_output (tr_reassembler t)) = Some (d, o')"
    "t' = t\<lparr>tr_reassembler := (tr_reassembler t)\<lparr>sr_output := o'\<rparr>\<rparr>"
    using assms(2) by (auto simp: TCPReceiver_read_def TCPReceiver_stream_out_def split: option.splits)
  have "sr_inv S out (tr_reassembler t)" using assms(1) by (simp add: tr_inv_def sr_run_inv_def)
  from sr_inv_read [OF this o'(1)] show ?thesis
    using assms(1) o'(2) by (simp add: tr_inv_def sr_run_inv_def)
qed

interpretation tr: invariant_system "tr_init S cap" "tr_step S isn" "tr_inv S isn cap"
proof
  fix s assume "tr_init S cap s"
  then have "sr_run_inv S cap (StreamReassembler_new cap, [])" "s = (TCPReceiver_new cap, [])"
    by (auto simp: tr_init_def intro!: sr.init_inv simp: sr_init_def)
  then show "tr_inv S isn cap s"
    by (simp add: tr_inv_def TCPReceiver_new_def StreamReassembler_new_def)
next
  fix s t assume "tr_inv S isn cap s" "tr_step S isn s t"
  then show "tr_inv S isn cap t"
    by (cases s; cases t) (auto elim!: tr_stepE intro: segment_received_inv receiver_read_inv)
qed

lemma unat_window_size:
  assumes "tr_inv S isn cap (t, out)"
  shows "unat (TCPReceiver_window_size t) = bs_room (sr_output (tr_reassembler t))"
proof -
  have c: "sr_core S out (tr_reassembler t)" "sr_capacity (tr_reassembler t) = cap" "tr_capacity t = cap"
    using assms by (auto simp: tr_inv_def sr_run_inv_def sr_inv_def)
  note b = bs_invD(4) [OF sr_coreD(1) [OF c(1)]] and k = sr_coreD(10) [OF c(1)]
  from b k c show ?thesis
    by (simp add: TCPReceiver_window_size_def TCPReceiver_stream_out_def ByteStream_buffer_size_def bs_room_def
        unat_sub word_le_nat_alt)
qed

section \<open>Properties\<close>

text \<open>
  C19: in every run of segments of a peer's stream \<open>S\<close> and reads, in which no segment without payload
  arrives ahead of the assembled bytes, no repeated SYN carries FIN and every sequence number is
  less than \<open>2 ^ 31\<close> away from the assembled bytes (\<open>valid_segment\<close>), the receiver delivers a
  prefix of \<open>S\<close>; once the SYN has arrived its acknowledgment number is the wrapped number of
  the first sequence position not yet assembled (SYN and, at the end, FIN count one each);
  and its window is the room left, so that acknowledgment plus window is the end of what it
  accepts.
\<close>
theorem TCPReceiver_safe:
  assumes "reachable (tr_init S cap) (tr_step S isn) (t, out)"
  shows "out @ bs_contents (TCPReceiver_stream_out t) = take (unat (sr_head_index (tr_reassembler t))) S \<and>
    TCPReceiver_ackno t =
      (if tr_set_isn t
       then Some (wrap (1 + sr_head_index (tr_reassembler t) + b2w (bs_input_ended (TCPReceiver_stream_out t))) isn)
       else None) \<and>
    (bs_input_ended (TCPReceiver_stream_out t) \<longleftrightarrow>
      sr_eof (tr_reassembler t) \<and> unat (sr_head_index (tr_reassembler t)) = length S) \<and>
    unat (TCPReceiver_window_size t) + length (bs_contents (TCPReceiver_stream_out t)) = unat cap"
proof -
  have inv: "tr_inv S isn cap (t, out)" by (rule tr.reachable_inv [OF assms])
  then have r: "sr_inv S out (tr_reassembler t)" "sr_capacity (tr_reassembler t) = cap"
    by (auto simp: tr_inv_def sr_run_inv_def)
  then have c: "sr_core S out (tr_reassembler t)" by (simp add: sr_inv_def)
  note C = sr_coreD [OF c]
  have "unat (TCPReceiver_window_size t) + length (bs_contents (TCPReceiver_stream_out t)) = unat cap"
    using unat_window_size [OF inv] bs_invD(4) [OF C(1)] C(10) r(2) by (simp add: bs_room_def TCPReceiver_stream_out_def)
  moreover have "TCPReceiver_ackno t =
      (if tr_set_isn t
       then Some (wrap (1 + sr_head_index (tr_reassembler t) + b2w (bs_input_ended (TCPReceiver_stream_out t))) isn)
       else None)"
    using inv C(9) by (simp add: TCPReceiver_ackno_def TCPReceiver_stream_out_def ByteStream_bytes_written_def tr_inv_def)
  ultimately show ?thesis
    using C(4) ended_iff [OF r(1)] by (simp add: TCPReceiver_stream_out_def)
qed


definition example_segment :: "bool \<Rightarrow> bool \<Rightarrow> u32 \<Rightarrow> bytes \<Rightarrow> TCPSegment" where
  "example_segment syn fin seqno d =
     \<lparr>ts_header = TCPHeader_default\<lparr>th_syn := syn, th_fin := fin, th_seqno := WrappingInt32 seqno\<rparr>,
      ts_payload = Buffer_of d\<rparr>"

theorem TCPReceiver_safe_witness:
  "TCPReceiver_ackno (TCPReceiver_segment_received (example_segment False True 0 [1, 2])
     (TCPReceiver_segment_received (example_segment True False 0xffffffff []) (TCPReceiver_new 8)))
   = Some (WrappingInt32 3)"
proof -
  let ?S = "[1, 2] :: bytes" and ?isn = "WrappingInt32 0xffffffff" and ?t0 = "TCPReceiver_new 8"
  let ?t1 = "TCPReceiver_segment_received (example_segment True False 0xffffffff []) ?t0"
  let ?t2 = "TCPReceiver_segment_received (example_segment False True 0 [1, 2]) ?t1"
  have h: "unat (sr_head_index (tr_reassembler ?t1)) = 0" by code_simp
  have "reachable (tr_init ?S 8) (tr_step ?S ?isn) (?t0, [])" by (rule reach_init) (simp add: tr_init_def)
  moreover have "valid_segment ?S ?isn ?t0 0 (example_segment True False 0xffffffff [])"
    unfolding valid_segment_def Let_def by code_simp
  then have "tr_step ?S ?isn (?t0, []) (?t1, [])" by (rule tr_segment)
  moreover have "valid_segment ?S ?isn ?t1 0 (example_segment False True 0 [1, 2])"
    unfolding valid_segment_def Let_def h by (simp add: ndist_def) code_simp
  then have "tr_step ?S ?isn (?t1, []) (?t2, [])" by (rule tr_segment)
  ultimately have "reachable (tr_init ?S 8) (tr_step ?S ?isn) (?t2, [])" by (rule reach_step [OF reach_step])
  from TCPReceiver_safe [OF this] have "TCPReceiver_ackno ?t2 =
      (if tr_set_isn ?t2
       then Some (wrap (1 + sr_head_index (tr_reassembler ?t2) + b2w (bs_input_ended (TCPReceiver_stream_out ?t2))) ?isn)
       else None)" by blast
  also have "\<dots> = Some (WrappingInt32 3)" by code_simp
  finally show ?thesis .
qed

text \<open>Bytes at the index \<open>2 ^ 64 - 1\<close> are dropped, but their end wraps around and may lie in the window.\<close>

lemma push_wrapped:
  assumes c: "sr_core S out r" and e: "sr_auxiliary_cache r = []" and d: "d \<noteq> []" "length d \<le> window_end r + 1"
  shows "sr_output (push_substring d (- 1) True r) = ByteStream_end_input (sr_output r)"
proof -
  note W = unat_window_end [OF c] window_end_bound [OF c]
  have "- 1 + str_size d = of_nat (length d - 1)" using d(1) by (cases d) (simp_all add: str_size_def)
  moreover have "unat (of_nat (length d - 1) :: u64) = length d - 1" using d W(2) by (intro unat_of_nat_small) simp
  ultimately have "- 1 + str_size d \<le> sr_head_index r + ByteStream_remaining_capacity (sr_output r)"
    using d(2) by (simp add: word_le_nat_alt W(1))
  moreover have "sr_head_index r + ByteStream_remaining_capacity (sr_output r) \<le> - 1" by simp
  ultimately show ?thesis using empty_iff [OF c] e
    by (simp add: push_substring_def end_if_done_def StreamReassembler_empty_def Let_def)
qed

lemma received_ended:
  assumes "bs_input_ended (TCPReceiver_stream_out t)"
  shows "TCPReceiver_stream_out (TCPReceiver_segment_received seg t) = TCPReceiver_stream_out t"
  using assms by (simp add: TCPReceiver_segment_received_def TCPReceiver_stream_out_def Let_def push_ended)

lemma received_all_ended:
  "bs_input_ended (TCPReceiver_stream_out t) \<Longrightarrow>
   TCPReceiver_stream_out (fold TCPReceiver_segment_received segs t) = TCPReceiver_stream_out t"
  by (induction segs arbitrary: t) (simp_all add: received_ended)

text \<open>A FIN without payload that is ahead of the assembled bytes ends the stream at once.\<close>

lemma empty_fin_ends:
  assumes inv: "tr_inv S isn cap (t, out)" and t: "tr_set_isn t" "TCPReceiver_unassembled_bytes t = 0"
    and seg: "th_fin (ts_header seg)" "th_seqno (ts_header seg) = wrap (of_nat (i + 1)) isn" "Buffer_str (ts_payload seg) = []"
    and i: "unat (sr_head_index (tr_reassembler t)) < i" "i < unat (sr_head_index (tr_reassembler t)) + unat (TCPReceiver_window_size t)"
      "i + 1 < unat (sr_head_index (tr_reassembler t)) + 2 ^ 31"
  shows "TCPReceiver_stream_out (TCPReceiver_segment_received seg t) = ByteStream_end_input (TCPReceiver_stream_out t)"
proof -
  let ?r = "tr_reassembler t"
  have c: "sr_core S out ?r" and n: "tr_isn t = isn" using inv t(1) by (auto simp: tr_inv_def sr_run_inv_def sr_inv_def)
  have e: "sr_auxiliary_cache ?r = []" using t(2) empty_iff [OF c]
    by (simp add: TCPReceiver_unassembled_bytes_def StreamReassembler_unassembled_bytes_def StreamReassembler_empty_def)
  have w: "ByteStream_bytes_written (sr_output ?r) = sr_head_index ?r" using sr_coreD(9) [OF c] by (simp add: ByteStream_bytes_written_def)
  have win: "i < window_end ?r" using i(2) unat_window_size [OF inv] by (simp add: window_end_def)
  have u: "unat (of_nat (i + 1) :: u64) = i + 1" "unat (of_nat i :: u64) = i"
    using win window_end_bound [OF c] by (intro unat_of_nat_small; simp)+
  have "unwrap (th_seqno (ts_header seg)) isn (sr_head_index ?r) = of_nat (i + 1)"
    using i(1,3) u(1) by (intro unwrap_unique) (simp_all add: seg(2) ndist_def)
  then have idx: "unwrap (th_seqno (ts_header seg)) isn (sr_head_index ?r) - 1 = of_nat i" by simp
  have "sr_output (push_substring [] (of_nat i) True ?r) = ByteStream_end_input (sr_output ?r)"
    using push_empty_alone [OF c e, of "of_nat i" True] i(1) win u(2) by (simp add: end_if_done_def StreamReassembler_empty_def)
  then show ?thesis using t(1) seg(1,3) n idx w
    by (simp add: TCPReceiver_segment_received_def TCPReceiver_stream_out_def Buffer_copy_def)
qed

text \<open>
  C20: a repeated SYN that carries the whole stream \<open>S\<close> and FIN is taken for bytes at index
  \<open>2 ^ 64 - 1\<close>, whose end wraps around to \<open>length S - 1\<close>. A receiver that has assembled only the
  first bytes of \<open>S\<close> and stored nothing ahead of them, and whose window reaches that index, ends its
  stream when the segment comes again; whatever segments come after that, its reader never
  gets the rest.
\<close>
theorem TCPReceiver_repeated_syn_truncates:
  assumes "reachable (tr_init S cap) (tr_step S isn) (t, out)" and "tr_set_isn t" and "TCPReceiver_unassembled_bytes t = 0"
    and "th_syn (ts_header seg)" and "th_fin (ts_header seg)" and "th_seqno (ts_header seg) = isn" and "Buffer_str (ts_payload seg) = S"
    and "unat (sr_head_index (tr_reassembler t)) < length S" and "unat (sr_head_index (tr_reassembler t)) < 2 ^ 31"
    and "length S \<le> unat (sr_head_index (tr_reassembler t)) + unat (TCPReceiver_window_size t) + 1"
  shows "bs_input_ended (TCPReceiver_stream_out (TCPReceiver_segment_received seg t)) \<and>
    out @ bs_contents (TCPReceiver_stream_out (fold TCPReceiver_segment_received (seg # segs) t)) =
      take (unat (sr_head_index (tr_reassembler t))) S"
proof -
  let ?r = "tr_reassembler t"
  have inv: "tr_inv S isn cap (t, out)" by (rule tr.reachable_inv [OF assms(1)])
  then have c: "sr_core S out ?r" and i: "tr_isn t = isn" using assms(2) by (auto simp: tr_inv_def sr_run_inv_def sr_inv_def)
  have e: "sr_auxiliary_cache ?r = []" using assms(3) empty_iff [OF c]
    by (simp add: TCPReceiver_unassembled_bytes_def StreamReassembler_unassembled_bytes_def StreamReassembler_empty_def)
  have w: "ByteStream_bytes_written (sr_output ?r) = sr_head_index ?r" using sr_coreD(9) [OF c] by (simp add: ByteStream_bytes_written_def)
  have "S \<noteq> []" "length S \<le> window_end ?r + 1" using assms(8,10) unat_window_size [OF inv] by (auto simp: window_end_def)
  from push_wrapped [OF c e this]
  have o: "TCPReceiver_stream_out (TCPReceiver_segment_received seg t) = ByteStream_end_input (TCPReceiver_stream_out t)"
    using assms(2,5-7,9) i by (simp add: TCPReceiver_segment_received_def TCPReceiver_stream_out_def w unwrap_self Buffer_copy_def)
  then show ?thesis
    using received_all_ended [of "TCPReceiver_segment_received seg t" segs] sr_coreD(4) [OF c]
    by (simp add: TCPReceiver_stream_out_def ByteStream_end_input_def bs_contents_def)
qed

lemma receiver_example_run:
  "reachable (tr_init [1, 2, 3, 4] 2) (tr_step [1, 2, 3, 4] (WrappingInt32 7))
     (the (map_option snd (TCPReceiver_read 2 (TCPReceiver_segment_received (example_segment True True 7 [1, 2, 3, 4]) (TCPReceiver_new 2)))),
      [1, 2])"
proof -
  let ?S = "[1, 2, 3, 4] :: bytes" and ?t0 = "TCPReceiver_new 2"
  let ?t1 = "TCPReceiver_segment_received (example_segment True True 7 [1, 2, 3, 4]) ?t0"
  let ?t2 = "the (map_option snd (TCPReceiver_read 2 ?t1))"
  have "reachable (tr_init ?S 2) (tr_step ?S (WrappingInt32 7)) (?t0, [])" by (rule reach_init) (simp add: tr_init_def)
  moreover have "valid_segment ?S (WrappingInt32 7) ?t0 0 (example_segment True True 7 [1, 2, 3, 4])"
    unfolding valid_segment_def Let_def by code_simp
  then have "tr_step ?S (WrappingInt32 7) (?t0, []) (?t1, [])" by (rule tr_segment)
  moreover have "map_option fst (TCPReceiver_read 2 ?t1) = Some [1, 2]" by code_simp
  then have "TCPReceiver_read 2 ?t1 = Some ([1, 2], ?t2)" by (cases "TCPReceiver_read 2 ?t1") auto
  from tr_read [OF this, of ?S "WrappingInt32 7" "[]"] have "tr_step ?S (WrappingInt32 7) (?t1, []) (?t2, [1, 2])" by simp
  ultimately show ?thesis by (rule reach_step [OF reach_step])
qed

theorem TCPReceiver_repeated_syn_truncates_witness:
  "ByteStream_eof (TCPReceiver_stream_out (TCPReceiver_segment_received (example_segment True True 7 [1, 2, 3, 4])
     (the (map_option snd (TCPReceiver_read 2 (TCPReceiver_segment_received (example_segment True True 7 [1, 2, 3, 4]) (TCPReceiver_new 2)))))))"
proof -
  let ?t = "the (map_option snd (TCPReceiver_read 2 (TCPReceiver_segment_received (example_segment True True 7 [1, 2, 3, 4]) (TCPReceiver_new 2))))"
  let ?seg = "example_segment True True 7 [1, 2, 3, 4]"
  have h: "tr_set_isn ?t" "TCPReceiver_unassembled_bytes ?t = 0" "unat (sr_head_index (tr_reassembler ?t)) = 2"
    "unat (TCPReceiver_window_size ?t) = 2" by code_simp+
  have s: "th_syn (ts_header ?seg)" "th_fin (ts_header ?seg)" "th_seqno (ts_header ?seg) = WrappingInt32 7"
    "Buffer_str (ts_payload ?seg) = [1, 2, 3, 4]" by (simp_all add: example_segment_def Buffer_str_of)
  from TCPReceiver_repeated_syn_truncates [OF receiver_example_run h(1,2) s, of "[]"] show ?thesis
    by (simp add: h eof_iff)
qed

end
