(* ===== verification/TCP_Sender.thy ===== *)
theory TCP_Sender
  imports Byte_Stream TCP_Segment
begin

text \<open>
  \<open>libsponge/tcp_sender.hh\<close> and \<open>.cc\<close>, with the constants of \<open>tcp_helpers/tcp_config.hh\<close>: the sender
  cuts its outgoing \<open>ByteStream\<close> into segments, keeps the outstanding ones and retransmits the
  oldest when the timer runs out. The theory shows that \<open>fill_window\<close> terminates, what it
  sends and how far it fills the window, how acknowledgments and time act on the
  outstanding segments, and that every segment ever sent lies at its place in the stream.
\<close>

section \<open>Model\<close>

definition DEFAULT_CAPACITY :: size_t where
  "DEFAULT_CAPACITY = 64000"

definition MAX_PAYLOAD_SIZE :: size_t where
  "MAX_PAYLOAD_SIZE = 1000"

definition TIMEOUT_DFLT :: u16 where
  "TIMEOUT_DFLT = 1000"

definition MAX_RETX_ATTEMPTS :: u32 where
  "MAX_RETX_ATTEMPTS = 8"

record TCPSender =
  se_isn :: WrappingInt32
  se_segments_out :: "TCPSegment list"
  se_initial_retransmission_timeout :: u32
  se_stream :: ByteStream
  se_next_seqno :: u64
  se_window_size :: u64
  se_window_used_size :: u64
  se_now_time_ms :: u64
  se_tcp_seg_cache :: "(u64 \<times> TCPSegment) list"
  se_retransmission_timeout :: u32
  se_latest_ackno :: WrappingInt32
  se_syned :: bool
  se_fin :: bool
  se_fin_sent :: bool
  se_retransmission_count :: u64

text \<open>\<open>random\<close> is the draw of \<open>std::random_device\<close>, used without a fixed initial sequence number.\<close>

definition TCPSender_new :: "size_t \<Rightarrow> u16 \<Rightarrow> WrappingInt32 option \<Rightarrow> u32 \<Rightarrow> TCPSender" where
  "TCPSender_new capacity retx_timeout fixed_isn random =
     (let isn = (case fixed_isn of Some i \<Rightarrow> i | None \<Rightarrow> WrappingInt32 random)
      in \<lparr>se_isn = isn, se_segments_out = [], se_initial_retransmission_timeout = ucast retx_timeout,
          se_stream = ByteStream_new capacity, se_next_seqno = 0, se_window_size = 1, se_window_used_size = 0,
          se_now_time_ms = 0, se_tcp_seg_cache = [], se_retransmission_timeout = ucast retx_timeout,
          se_latest_ackno = isn, se_syned = False, se_fin = False, se_fin_sent = False,
          se_retransmission_count = 0\<rparr>)"

definition TCPSender_bytes_in_flight :: "TCPSender \<Rightarrow> u64" where
  "TCPSender_bytes_in_flight s =
     se_next_seqno s - unwrap (se_latest_ackno s) (se_isn s) (se_next_seqno s)"

definition TCPSender_next_seqno :: "TCPSender \<Rightarrow> WrappingInt32" where
  "TCPSender_next_seqno s = wrap (se_next_seqno s) (se_isn s)"

definition TCPSender_consecutive_retransmissions :: "TCPSender \<Rightarrow> u32" where
  "TCPSender_consecutive_retransmissions s = ucast (se_retransmission_count s)"

text \<open>Both places that send a segment push it to the queue and to the cache, with the time.\<close>

definition send_segment :: "TCPSegment \<Rightarrow> u64 \<Rightarrow> TCPSender \<Rightarrow> TCPSender" where
  "send_segment seg seg_size s =
     s\<lparr>se_window_used_size := se_window_used_size s + seg_size, se_next_seqno := se_next_seqno s + seg_size,
       se_segments_out := se_segments_out s @ [seg],
       se_tcp_seg_cache := se_tcp_seg_cache s @ [(se_now_time_ms s, seg)]\<rparr>"

text \<open>\<open>None\<close> is the trap of \<open>ByteStream::read\<close> on a stream of capacity 0.\<close>

definition fill_zero_window :: "TCPSender \<Rightarrow> TCPSender option" where
  "fill_zero_window s0 =
     (case (if \<not> ByteStream_buffer_empty (se_stream s0)
            then (case ByteStream_read 1 (se_stream s0) of
                    None \<Rightarrow> None
                  | Some (content, stream) \<Rightarrow>
                      Some (TCPSegment_default\<lparr>ts_payload := Buffer_of content\<rparr>, s0\<lparr>se_stream := stream\<rparr>))
            else if ByteStream_eof (se_stream s0) \<and> \<not> se_fin s0
            then Some (TCPSegment_default\<lparr>ts_header := TCPHeader_default\<lparr>th_fin := True\<rparr>\<rparr>, s0\<lparr>se_fin := True\<rparr>)
            else Some (TCPSegment_default, s0)) of
        None \<Rightarrow> None
      | Some (tcp_seg, s) \<Rightarrow>
          if length_in_sequence_space tcp_seg = 0 then Some s
          else Some (send_segment
                 (tcp_seg\<lparr>ts_header := (ts_header tcp_seg)\<lparr>th_seqno := wrap (se_next_seqno s) (se_isn s)\<rparr>\<rparr>) 1 s))"

definition window_unused :: "TCPSender \<Rightarrow> u64" where
  "window_unused s =
     (if se_window_size s > se_window_used_size s then se_window_size s - se_window_used_size s else 0)"

text \<open>One turn of the loop of \<open>fill_window\<close>; the flag says whether the loop goes on.\<close>

definition fill_step :: "TCPSender \<Rightarrow> (TCPSender \<times> bool) option" where
  "fill_step s =
     (if \<not> (\<not> ByteStream_buffer_empty (se_stream s) \<or> \<not> se_syned s \<or> \<not> se_fin s) then Some (s, False)
      else if window_unused s = 0 then Some (s, False)
      else
        let is_syn_seg = (\<not> se_syned s);
            payload_size = max 1 (min (window_unused s - b2w is_syn_seg) MAX_PAYLOAD_SIZE)
        in case ByteStream_read payload_size (se_stream s) of
             None \<Rightarrow> None
           | Some (content, stream) \<Rightarrow>
               let is_fin_seg = (ByteStream_eof stream \<and> \<not> se_fin s \<and>
                     str_size content + b2w is_syn_seg < window_unused s);
                   s' = s\<lparr>se_syned := True, se_stream := stream, se_fin := se_fin s \<or> is_fin_seg\<rparr>;
                   tcp_seg = \<lparr>ts_header = TCPHeader_default\<lparr>th_seqno := wrap (se_next_seqno s) (se_isn s),
                       th_syn := is_syn_seg, th_fin := is_fin_seg\<rparr>, ts_payload = Buffer_of content\<rparr>;
                   total_size = length_in_sequence_space tcp_seg
               in if total_size = 0 then Some (s', False) else Some (send_segment tcp_seg total_size s', True))"

lemma length_peek_loop: "length (peek_loop cap buf n start) = n"
  by (induction n arbitrary: start) auto

lemma read_length: "ByteStream_read n bs = Some (d, bs') \<Longrightarrow> length d = unat (min (bs_cur_size bs) n)"
  by (auto simp: ByteStream_read_def Let_def ByteStream_peek_output_def length_peek_loop split: option.splits)

lemma length_in_sequence_space_of:
  assumes "length d \<le> 2 ^ 32"
  shows "unat (length_in_sequence_space \<lparr>ts_header = h, ts_payload = Buffer_of d\<rparr>)
    = length d + (if th_syn h then 1 else 0) + (if th_fin h then 1 else 0)"
  using assms
  by (simp add: length_in_sequence_space_def Buffer_str_of str_size_def unat_word_ariths unat_of_nat)


lemma unat_window_unused: "unat (window_unused s) = unat (se_window_size s) - unat (se_window_used_size s)"
  by (auto simp: window_unused_def word_less_nat_alt unat_sub word_le_nat_alt)

text \<open>What one turn of the loop that goes on has done.\<close>

lemma fill_step_sent:
  assumes "fill_step s = Some (s', True)"
  obtains content stream seg p where "ByteStream_read p (se_stream s) = Some (content, stream)"
    and "seg = \<lparr>ts_header = TCPHeader_default\<lparr>th_seqno := wrap (se_next_seqno s) (se_isn s), th_syn := \<not> se_syned s,
      th_fin := (ByteStream_eof stream \<and> \<not> se_fin s \<and> str_size content + b2w (\<not> se_syned s) < window_unused s)\<rparr>,
      ts_payload = Buffer_of content\<rparr>"
    and "s' = send_segment seg (length_in_sequence_space seg)
      (s\<lparr>se_syned := True, se_stream := stream, se_fin := se_fin s \<or> th_fin (ts_header seg)\<rparr>)"
    and "p = max 1 (min (window_unused s - b2w (\<not> se_syned s)) MAX_PAYLOAD_SIZE)"
    and "length_in_sequence_space seg \<noteq> 0" and "window_unused s \<noteq> 0"
    and "\<not> ByteStream_buffer_empty (se_stream s) \<or> \<not> se_syned s \<or> \<not> se_fin s"
  using assms unfolding fill_step_def Let_def
  by (auto split: if_splits option.splits prod.splits)

text \<open>A turn sends what fits into the unused window, one more at most with the SYN.\<close>

lemma fill_step_size:
  assumes "ByteStream_read p (se_stream s) = Some (content, stream)"
    and p: "p = max 1 (min (window_unused s - b2w (\<not> se_syned s)) MAX_PAYLOAD_SIZE)" and u: "window_unused s \<noteq> 0"
    and f: "fin \<Longrightarrow> str_size content + b2w (\<not> se_syned s) < window_unused s"
  shows "length content \<le> 1000"
    and "length content + (if \<not> se_syned s then 1 else 0) + (if fin then 1 else 0)
      \<le> unat (window_unused s) + (if \<not> se_syned s then 1 else 0)"
proof -
  let ?U = "unat (window_unused s)" and ?b = "if \<not> se_syned s then 1 else 0 :: nat"
  have U: "0 < ?U" using u by (simp add: unat_gt_0)
  then have sub: "unat (window_unused s - b2w (\<not> se_syned s)) = ?U - ?b"
    by (subst unat_sub) (auto simp: word_le_nat_alt)
  have up: "unat p = max 1 (min (?U - ?b) 1000)"
    by (simp add: p unat_max unat_min sub MAX_PAYLOAD_SIZE_def)
  have len: "length content \<le> unat p" using read_length [OF assms(1)] by (simp add: unat_min)
  then show l: "length content \<le> 1000" using up by auto
  have "length content + ?b < ?U" if fin
  proof -
    have "unat (str_size content + b2w (\<not> se_syned s) :: u64) = length content + ?b"
      using l by (simp add: str_size_def unat_word_ariths unat_of_nat)
    with f [OF that] show ?thesis by (simp add: word_less_nat_alt)
  qed
  then show "length content + ?b + (if fin then 1 else 0) \<le> ?U + ?b"
    using len up U by (auto simp: min_def max_def split: if_splits)
qed

lemma fill_step_decreases:
  assumes "fill_step s = Some (s', True)"
  shows "se_syned s' \<and> (se_syned s \<longrightarrow> unat (window_unused s') < unat (window_unused s))"
proof -
  from assms obtain content stream seg p where R: "ByteStream_read p (se_stream s) = Some (content, stream)"
    and seg: "seg = \<lparr>ts_header = TCPHeader_default\<lparr>th_seqno := wrap (se_next_seqno s) (se_isn s), th_syn := \<not> se_syned s,
      th_fin := (ByteStream_eof stream \<and> \<not> se_fin s \<and> str_size content + b2w (\<not> se_syned s) < window_unused s)\<rparr>,
      ts_payload = Buffer_of content\<rparr>"
    and s': "s' = send_segment seg (length_in_sequence_space seg)
      (s\<lparr>se_syned := True, se_stream := stream, se_fin := se_fin s \<or> th_fin (ts_header seg)\<rparr>)"
    and p: "p = max 1 (min (window_unused s - b2w (\<not> se_syned s)) MAX_PAYLOAD_SIZE)"
    and nz: "length_in_sequence_space seg \<noteq> 0" "window_unused s \<noteq> 0"
    by (rule fill_step_sent)
  let ?T = "unat (length_in_sequence_space seg)" and ?U = "unat (window_unused s)"
  have "?T \<le> ?U" if "se_syned s"
  proof -
    note Z = fill_step_size [OF R p nz(2), of "th_fin (ts_header seg)"]
    have "length content \<le> 2 ^ 32" using Z(1) by (simp add: seg)
    then have "?T = length content + (if th_fin (ts_header seg) then 1 else 0)"
      using that by (simp only: seg length_in_sequence_space_of) simp
    with Z(2) that show ?thesis by (simp add: seg)
  qed
  moreover have "0 < ?T" using nz(1) by (simp add: unat_gt_0)
  moreover have "unat (se_window_used_size s + length_in_sequence_space seg) = unat (se_window_used_size s) + ?T"
    if "?T \<le> ?U"
    using that unat_lt_64 [of "se_window_size s"] unat_gt_0 [of "window_unused s"] nz(2)
    by (intro unat_add_small) (simp add: unat_window_unused)
  ultimately show ?thesis
    using nz(2) by (auto simp: s' send_segment_def unat_window_unused unat_gt_0 [symmetric])
qed

function fill_loop :: "TCPSender \<Rightarrow> TCPSender option" where
  "fill_loop s =
     (case fill_step s of
        None \<Rightarrow> None
      | Some (s', False) \<Rightarrow> Some s'
      | Some (s', True) \<Rightarrow> fill_loop s')"
  by pat_completeness auto
termination
  by (relation "measures [\<lambda>s. if se_syned s then 0 else 1, \<lambda>s. unat (window_unused s)]")
     (auto dest: fill_step_decreases)

declare fill_loop.simps [simp del]

lemma fill_loop_code [code]:
  "fill_loop s = (case fill_step s of None \<Rightarrow> None | Some p \<Rightarrow> if snd p then fill_loop (fst p) else Some (fst p))"
  by (subst fill_loop.simps) (auto split: option.splits prod.splits bool.splits)

definition TCPSender_fill_window :: "TCPSender \<Rightarrow> TCPSender option" where
  "TCPSender_fill_window s =
     (if se_window_size s = 0 \<and> se_window_used_size s = 0 then fill_zero_window s else fill_loop s)"

subsection \<open>Acknowledgments and time\<close>

fun remove_acked :: "TCPSender \<Rightarrow> (u64 \<times> TCPSegment) list \<Rightarrow> (u64 \<times> TCPSegment) list" where
  "remove_acked s [] = []"
| "remove_acked s ((last_sendtime, tcp_seg) # cache) =
     (let absolute_latest_ackno = unwrap (se_latest_ackno s) (se_isn s) (se_next_seqno s);
          absolute_right_end_no = unwrap (wi_add (th_seqno (ts_header tcp_seg)) (ucast (length_in_sequence_space tcp_seg)))
            (se_isn s) (se_next_seqno s)
      in if absolute_latest_ackno \<ge> absolute_right_end_no then remove_acked s cache
         else (last_sendtime, tcp_seg) # cache)"

definition remove_acked_seg :: "TCPSender \<Rightarrow> TCPSender" where
  "remove_acked_seg s = s\<lparr>se_tcp_seg_cache := remove_acked s (se_tcp_seg_cache s)\<rparr>"

definition TCPSender_compare :: "WrappingInt32 \<Rightarrow> WrappingInt32 \<Rightarrow> WrappingInt32 \<Rightarrow> u64 \<Rightarrow> bool" where
  "TCPSender_compare a b isn checkpoint \<longleftrightarrow> unwrap a isn checkpoint > unwrap b isn checkpoint"

definition restart_first :: "u64 \<Rightarrow> (u64 \<times> TCPSegment) list \<Rightarrow> (u64 \<times> TCPSegment) list" where
  "restart_first now cache = (case cache of [] \<Rightarrow> [] | (_, seg) # rest \<Rightarrow> (now, seg) # rest)"

definition TCPSender_ack_received :: "WrappingInt32 \<Rightarrow> u16 \<Rightarrow> TCPSender \<Rightarrow> TCPSender" where
  "TCPSender_ack_received ackno window_size s =
     (if TCPSender_compare (se_latest_ackno s) ackno (se_isn s) (se_next_seqno s) \<or>
         unwrap ackno (se_isn s) (se_next_seqno s) > se_next_seqno s
      then s
      else
        let a = unwrap (wi_add (se_latest_ackno s) (ucast (se_window_used_size s))) (se_isn s) (se_next_seqno s);
            b = unwrap ackno (se_isn s) (se_next_seqno s);
            used = (if a > b then a - b else 0);
            used' = (if used > ucast window_size then ucast window_size else used);
            s1 = s\<lparr>se_window_size := ucast window_size, se_window_used_size := used'\<rparr>
        in if wi_eq ackno (se_latest_ackno s) then s1
           else
             let s2 = remove_acked_seg (s1\<lparr>se_retransmission_timeout := se_initial_retransmission_timeout s,
                   se_retransmission_count := 0, se_latest_ackno := ackno\<rparr>)
             in s2\<lparr>se_tcp_seg_cache := restart_first (se_now_time_ms s2) (se_tcp_seg_cache s2)\<rparr>)"

definition TCPSender_tick :: "size_t \<Rightarrow> TCPSender \<Rightarrow> TCPSender" where
  "TCPSender_tick ms_since_last_tick s0 =
     (let s = remove_acked_seg (s0\<lparr>se_now_time_ms := se_now_time_ms s0 + ms_since_last_tick\<rparr>)
      in case se_tcp_seg_cache s of
           [] \<Rightarrow> s
         | (time, seg) # rest \<Rightarrow>
             if se_now_time_ms s - time \<ge> ucast (se_retransmission_timeout s)
             then
               let s1 = s\<lparr>se_tcp_seg_cache := (se_now_time_ms s, seg) # rest,
                          se_segments_out := se_segments_out s @ [seg]\<rparr>
               in if se_window_size s1 \<noteq> 0
                  then s1\<lparr>se_retransmission_count := se_retransmission_count s1 + 1,
                          se_retransmission_timeout := se_retransmission_timeout s1 * 2\<rparr>
                  else s1
             else s)"

definition TCPSender_send_empty_segment :: "TCPSender \<Rightarrow> TCPSender" where
  "TCPSender_send_empty_segment s =
     s\<lparr>se_segments_out := se_segments_out s @
       [TCPSegment_default\<lparr>ts_header := TCPHeader_default\<lparr>th_seqno := wrap (se_next_seqno s) (se_isn s)\<rparr>\<rparr>]\<rparr>"


section \<open>Filling the window\<close>

text \<open>Consecutive segments from the absolute sequence number \<open>n\<close> up to \<open>m\<close>.\<close>

fun seg_chain :: "WrappingInt32 \<Rightarrow> u64 \<Rightarrow> TCPSegment list \<Rightarrow> u64 \<Rightarrow> bool" where
  "seg_chain isn n [] m \<longleftrightarrow> n = m"
| "seg_chain isn n (g # gs) m \<longleftrightarrow>
     th_seqno (ts_header g) = wrap n isn \<and> 0 < length_in_sequence_space g \<and>
     length (Buffer_str (ts_payload g)) \<le> 1000 \<and> seg_chain isn (n + length_in_sequence_space g) gs m"

lemma seg_chain_append:
  "seg_chain isn n (gs @ hs) m \<longleftrightarrow> (\<exists>k. seg_chain isn n gs k \<and> seg_chain isn k hs m)"
  by (induction gs arbitrary: n) auto

definition payloads :: "TCPSegment list \<Rightarrow> bytes" where
  "payloads gs = concat (map (Buffer_str \<circ> ts_payload) gs)"

definition seq_total :: "TCPSegment list \<Rightarrow> nat" where
  "seq_total gs = sum_list (map (unat \<circ> length_in_sequence_space) gs)"

lemma payloads_simps [simp]: "payloads [] = []" "payloads (g # gs) = Buffer_str (ts_payload g) @ payloads gs"
  by (simp_all add: payloads_def)

lemma seq_total_simps [simp]: "seq_total [] = 0" "seq_total (g # gs) = unat (length_in_sequence_space g) + seq_total gs"
  by (simp_all add: seq_total_def)

text \<open>\<open>s'\<close> is \<open>s\<close> after sending the segments \<open>gs\<close> from its stream.\<close>

definition filled :: "TCPSender \<Rightarrow> TCPSegment list \<Rightarrow> TCPSender \<Rightarrow> bool" where
  "filled s gs s' \<longleftrightarrow>
     bs_inv (se_stream s') \<and> se_segments_out s' = se_segments_out s @ gs \<and>
     se_tcp_seg_cache s' = se_tcp_seg_cache s @ map (Pair (se_now_time_ms s)) gs \<and>
     bs_contents (se_stream s) = payloads gs @ bs_contents (se_stream s') \<and>
     seg_chain (se_isn s) (se_next_seqno s) gs (se_next_seqno s') \<and>
     se_window_used_size s' = se_window_used_size s + of_nat (seq_total gs) \<and>
     bs_input_ended (se_stream s') = bs_input_ended (se_stream s) \<and>
     bs_write_count (se_stream s') = bs_write_count (se_stream s) \<and>
     bs_capacity (se_stream s') = bs_capacity (se_stream s) \<and>
     se_isn s' = se_isn s \<and> se_window_size s' = se_window_size s \<and> se_latest_ackno s' = se_latest_ackno s \<and>
     se_now_time_ms s' = se_now_time_ms s \<and> se_retransmission_timeout s' = se_retransmission_timeout s \<and>
     se_initial_retransmission_timeout s' = se_initial_retransmission_timeout s \<and>
     se_retransmission_count s' = se_retransmission_count s"

lemma filled_trans:
  "filled s gs s1 \<Longrightarrow> filled s1 hs s' \<Longrightarrow> filled s (gs @ hs) s'"
  by (auto simp: filled_def seg_chain_append payloads_def seq_total_def)

text \<open>
  The headers of segments sent in one go: the first one has the SYN if it is due, the last one the FIN if it is,
  and beyond the sequence number nothing else is set.
\<close>

fun flagged :: "bool \<Rightarrow> bool \<Rightarrow> TCPSegment list \<Rightarrow> bool" where
  "flagged syn fin [] \<longleftrightarrow> True"
| "flagged syn fin (g # gs) \<longleftrightarrow>
     (ts_header g)\<lparr>th_seqno := th_seqno TCPHeader_default\<rparr> = TCPHeader_default\<lparr>th_syn := syn, th_fin := (fin \<and> gs = [])\<rparr> \<and>
     flagged False fin gs"

text \<open>
  The SYN is due when it has not been sent and the window is \<open>open\<close>; the FIN is due when the flag of the sender
  says so after sending, and then the stream has ended and nothing of it is left.
\<close>

definition headed :: "bool \<Rightarrow> TCPSender \<Rightarrow> TCPSegment list \<Rightarrow> TCPSender \<Rightarrow> bool" where
  "headed open s gs s' \<longleftrightarrow>
     flagged (open \<and> \<not> se_syned s) (se_fin s' \<and> \<not> se_fin s) gs \<and>
     (se_syned s' \<longleftrightarrow> se_syned s \<or> open \<and> gs \<noteq> []) \<and> (se_fin s \<longrightarrow> se_fin s') \<and>
     (se_fin s' \<and> \<not> se_fin s \<longrightarrow> gs \<noteq> [] \<and> bs_input_ended (se_stream s) \<and> bs_contents (se_stream s') = [])"

lemma no_more_segments:
  assumes "seg_chain isn n gs m" and "flagged False False gs" and "payloads gs = []"
  shows "gs = []"
proof (cases gs)
  case (Cons g hs)
  with assms have h: "(ts_header g)\<lparr>th_seqno := th_seqno TCPHeader_default\<rparr> = TCPHeader_default\<lparr>th_syn := False, th_fin := False\<rparr>"
    and "Buffer_str (ts_payload g) = []" "0 < length_in_sequence_space g" by auto
  moreover have "\<not> th_syn (ts_header g)" "\<not> th_fin (ts_header g)"
    using arg_cong [OF h, of th_syn] arg_cong [OF h, of th_fin] by simp_all
  ultimately show ?thesis by (simp add: length_in_sequence_space_def str_size_def)
qed

lemma headed_Cons:
  assumes "headed True s [g] s1" and "headed True s1 gs s'" and "filled s1 gs s'" and "filled s [g] s1"
  shows "headed True s (g # gs) s'"
proof (cases "se_fin s1 \<and> \<not> se_fin s")
  case True
  then have "payloads gs = []" "flagged False False gs" using assms by (auto simp: headed_def filled_def)
  then have "gs = []" using assms(3) no_more_segments by (auto simp: filled_def)
  with True assms show ?thesis by (auto simp: headed_def filled_def)
next
  case False
  with assms show ?thesis by (auto simp: headed_def filled_def)
qed

definition window_filled :: "TCPSender \<Rightarrow> bool" where
  "window_filled s \<longleftrightarrow>
     window_unused s = 0 \<or>
     bs_contents (se_stream s) = [] \<and> se_syned s \<and> (bs_input_ended (se_stream s) \<longrightarrow> se_fin s)"

lemma fill_step_total:
  assumes "bs_inv (se_stream s)"
  shows "fill_step s \<noteq> None"
proof
  assume n: "fill_step s = None"
  obtain d st where "ByteStream_read (max 1 (min (window_unused s - b2w (\<not> se_syned s)) MAX_PAYLOAD_SIZE)) (se_stream s) = Some (d, st)"
    using read_spec [OF assms] by metis
  with n show False by (auto simp: fill_step_def Let_def split: if_splits)
qed

lemma fill_step_True:
  assumes inv: "bs_inv (se_stream s)" and st: "fill_step s = Some (s', True)"
  shows "\<exists>g. filled s [g] s' \<and> headed True s [g] s' \<and> se_syned s' \<and> window_unused s \<noteq> 0 \<and>
    unat (length_in_sequence_space g) \<le> unat (window_unused s) + (if \<not> se_syned s then 1 else 0)"
proof -
  from st obtain content stream seg p where R: "ByteStream_read p (se_stream s) = Some (content, stream)"
    and seg: "seg = \<lparr>ts_header = TCPHeader_default\<lparr>th_seqno := wrap (se_next_seqno s) (se_isn s), th_syn := \<not> se_syned s,
      th_fin := (ByteStream_eof stream \<and> \<not> se_fin s \<and> str_size content + b2w (\<not> se_syned s) < window_unused s)\<rparr>,
      ts_payload = Buffer_of content\<rparr>"
    and s': "s' = send_segment seg (length_in_sequence_space seg)
      (s\<lparr>se_syned := True, se_stream := stream, se_fin := se_fin s \<or> th_fin (ts_header seg)\<rparr>)"
    and p: "p = max 1 (min (window_unused s - b2w (\<not> se_syned s)) MAX_PAYLOAD_SIZE)"
    and nz: "length_in_sequence_space seg \<noteq> 0" "window_unused s \<noteq> 0"
    by (rule fill_step_sent)
  note Z = fill_step_size [OF R p nz(2), of "th_fin (ts_header seg)"]
  have len: "length content \<le> 1000" using Z(1) by (simp add: seg)
  then have size: "unat (length_in_sequence_space seg)
      = length content + (if \<not> se_syned s then 1 else 0) + (if th_fin (ts_header seg) then 1 else 0)"
    unfolding seg by (subst length_in_sequence_space_of) simp_all
  have f: "Buffer_str (ts_payload seg) = content" "th_seqno (ts_header seg) = wrap (se_next_seqno s) (se_isn s)"
    using len by (simp_all add: seg Buffer_str_of)
  obtain st' where "ByteStream_read p (se_stream s) = Some (take (unat p) (bs_contents (se_stream s)), st')"
    "bs_inv st'" "bs_contents st' = drop (unat p) (bs_contents (se_stream s))"
    "bs_capacity st' = bs_capacity (se_stream s)" "bs_write_count st' = bs_write_count (se_stream s)"
    "bs_input_ended st' = bs_input_ended (se_stream s)"
    by (rule read_spec [OF inv, of p])
  with R have "bs_inv stream" "bs_contents (se_stream s) = content @ bs_contents stream"
    "bs_capacity stream = bs_capacity (se_stream s)" "bs_write_count stream = bs_write_count (se_stream s)"
    "bs_input_ended stream = bs_input_ended (se_stream s)" by auto
  then have "filled s [seg] s'"
    using f len nz(1) by (simp add: filled_def s' send_segment_def word_neq_0_conv)
  moreover have "headed True s [seg] s'"
    using \<open>bs_input_ended stream = bs_input_ended (se_stream s)\<close>
    by (cases "se_fin s") (auto simp: headed_def s' send_segment_def seg eof_iff)
  moreover have "se_syned s'" by (simp add: s' send_segment_def)
  ultimately show ?thesis using Z(2) size nz(2) by (intro exI [of _ seg]) (simp add: seg)
qed

lemma fill_step_False:
  assumes inv: "bs_inv (se_stream s)" and st: "fill_step s = Some (s', False)"
  shows "filled s [] s' \<and> headed True s [] s' \<and> window_filled s'"
proof (cases "\<not> (\<not> ByteStream_buffer_empty (se_stream s) \<or> \<not> se_syned s \<or> \<not> se_fin s) \<or> window_unused s = 0")
  case True
  then have "s' = s" using st by (auto simp: fill_step_def split: if_splits)
  with True inv show ?thesis by (auto simp: filled_def headed_def window_filled_def buffer_empty_iff)
next
  case False
  let ?p = "max 1 (min (window_unused s - b2w (\<not> se_syned s)) MAX_PAYLOAD_SIZE)"
  obtain st' where R: "ByteStream_read ?p (se_stream s) = Some (take (unat ?p) (bs_contents (se_stream s)), st')"
    "bs_inv st'" "bs_contents st' = drop (unat ?p) (bs_contents (se_stream s))"
    "bs_capacity st' = bs_capacity (se_stream s)" "bs_write_count st' = bs_write_count (se_stream s)"
    "bs_input_ended st' = bs_input_ended (se_stream s)"
    by (rule read_spec [OF inv, of ?p])
  have "1 \<le> unat ?p" by (simp add: unat_max)
  define d where "d = take (unat ?p) (bs_contents (se_stream s))"
  have "unat ?p \<le> 1000" by (simp add: unat_max unat_min MAX_PAYLOAD_SIZE_def)
  then have len: "length d \<le> 2 ^ 32" by (simp add: d_def)
  define fin where "fin \<longleftrightarrow> ByteStream_eof st' \<and> \<not> se_fin s \<and> str_size d + b2w (\<not> se_syned s) < window_unused s"
  have s': "s' = s\<lparr>se_syned := True, se_stream := st', se_fin := se_fin s \<or> fin\<rparr>"
    and "length_in_sequence_space \<lparr>ts_header = TCPHeader_default\<lparr>th_seqno := wrap (se_next_seqno s) (se_isn s),
       th_syn := \<not> se_syned s, th_fin := fin\<rparr>, ts_payload = Buffer_of d\<rparr> = 0"
    using st False R(1) unfolding fill_step_def Let_def fin_def d_def [symmetric] by (auto split: if_splits)
  then have "length d + (if \<not> se_syned s then 1 else 0) + (if fin then 1 else 0) = 0"
    using length_in_sequence_space_of [OF len, of "TCPHeader_default\<lparr>th_seqno := wrap (se_next_seqno s) (se_isn s),
       th_syn := \<not> se_syned s, th_fin := fin\<rparr>"] by simp
  then have z: "d = []" "se_syned s" "\<not> fin" by (auto split: if_splits)
  then have "bs_contents (se_stream s) = []" using \<open>1 \<le> unat ?p\<close> by (auto simp: d_def)
  moreover have "bs_input_ended (se_stream s) \<longrightarrow> se_fin s"
    using z False R(3,6) calculation by (auto simp: fin_def eof_iff str_size_def word_neq_0_conv)
  ultimately show ?thesis
    using R z s' by (auto simp: filled_def headed_def window_filled_def)
qed

lemma room_after:
  fixes w t u :: u64
  assumes "unat w < 2 ^ 32" and "unat u < unat w" and "unat t \<le> unat w - unat u + (if b then 1 else 0)"
  shows "unat t + (unat w - unat (u + t)) \<le> unat w - unat u + (if b then 1 else 0)"
proof -
  have "unat (u + t) = unat u + unat t" using assms by (intro unat_add_small) (simp split: if_splits)
  with assms(3) show ?thesis by simp
qed

lemma fill_loop_spec:
  assumes "bs_inv (se_stream s)" and "unat (se_window_size s) < 2 ^ 32"
  shows "\<exists>s' gs. fill_loop s = Some s' \<and> filled s gs s' \<and> headed True s gs s' \<and> window_filled s' \<and>
    seq_total gs \<le> unat (window_unused s) + (if \<not> se_syned s then 1 else 0)"
  using assms
proof (induction s rule: fill_loop.induct)
  case (1 s)
  obtain s1 b where st: "fill_step s = Some (s1, b)" using fill_step_total [OF 1(2)] by fastforce
  show ?case
  proof (cases b)
    case False
    with st fill_step_False [OF 1(2)] show ?thesis
      by (intro exI [of _ s1] exI [of _ "[]"]) (simp add: fill_loop.simps)
  next
    case True
    with st have "fill_step s = Some (s1, True)" by simp
    then obtain g where g: "filled s [g] s1" "se_syned s1" "headed True s [g] s1" and nz: "window_unused s \<noteq> 0"
      and len: "unat (length_in_sequence_space g) \<le> unat (window_unused s) + (if \<not> se_syned s then 1 else 0)"
      using fill_step_True [OF 1(2)] by blast
    then have f: "bs_inv (se_stream s1)" "se_window_size s1 = se_window_size s"
      "se_window_used_size s1 = se_window_used_size s + length_in_sequence_space g" by (auto simp: filled_def)
    with 1(1) [OF st refl] True 1(3) obtain s' gs where IH: "fill_loop s1 = Some s'" "filled s1 gs s'" "window_filled s'"
      "headed True s1 gs s'" "seq_total gs \<le> unat (window_unused s1)" using g(2) by auto
    have "unat (se_window_used_size s) < unat (se_window_size s)"
      using nz by (simp add: unat_gt_0 [symmetric] unat_window_unused)
    from room_after [OF 1(3) this len [unfolded unat_window_unused]] IH(5) f(2,3)
    have "unat (length_in_sequence_space g) + seq_total gs \<le> unat (window_unused s) + (if \<not> se_syned s then 1 else 0)"
      by (simp only: unat_window_unused)
    with IH filled_trans [OF g(1) IH(2)] headed_Cons [OF g(3) IH(4,2) g(1)] st True show ?thesis
      by (intro exI [of _ s'] exI [of _ "g # gs"]) (simp add: fill_loop.simps [of s])
  qed
qed


lemma filled_send:
  assumes "bs_inv stream" and "bs_contents (se_stream s) = Buffer_str (ts_payload g) @ bs_contents stream"
    and "bs_input_ended stream = bs_input_ended (se_stream s)" and "bs_write_count stream = bs_write_count (se_stream s)"
    and "bs_capacity stream = bs_capacity (se_stream s)" and "th_seqno (ts_header g) = wrap (se_next_seqno s) (se_isn s)"
    and "length_in_sequence_space g = n" and "0 < n" and "length (Buffer_str (ts_payload g)) \<le> 1000"
  shows "filled s [g] (send_segment g n (s\<lparr>se_stream := stream, se_fin := b\<rparr>))"
  using assms by (simp add: filled_def send_segment_def)

text \<open>With data and a closed window, one byte goes out.\<close>

definition one_byte :: "WrappingInt32 \<Rightarrow> u8 \<Rightarrow> TCPSegment" where
  "one_byte seqno b = \<lparr>ts_header = TCPHeader_default\<lparr>th_seqno := seqno\<rparr>, ts_payload = Buffer_of [b]\<rparr>"

lemma fill_zero_window_data:
  assumes inv: "bs_inv (se_stream s)" and c: "bs_contents (se_stream s) = b # bs"
  defines "g \<equiv> one_byte (wrap (se_next_seqno s) (se_isn s)) b"
  obtains st where "fill_zero_window s = Some (send_segment g 1 (s\<lparr>se_stream := st\<rparr>))" and "bs_contents st = bs"
    and "filled s [g] (send_segment g 1 (s\<lparr>se_stream := st\<rparr>))" and "length_in_sequence_space g = 1"
proof -
  obtain st where R: "ByteStream_read 1 (se_stream s) = Some (take (unat (1 :: size_t)) (bs_contents (se_stream s)), st)"
    "bs_inv st" "bs_contents st = drop (unat (1 :: size_t)) (bs_contents (se_stream s))"
    "bs_capacity st = bs_capacity (se_stream s)" "bs_write_count st = bs_write_count (se_stream s)"
    "bs_input_ended st = bs_input_ended (se_stream s)"
    by (rule read_spec [OF inv, of 1])
  have len: "length_in_sequence_space \<lparr>ts_header = TCPHeader_default, ts_payload = Buffer_of [b]\<rparr> = 1"
    "length_in_sequence_space g = 1"
    by (simp_all add: g_def one_byte_def length_in_sequence_space_def Buffer_str_of str_size_def TCPHeader_default_def)
  then have "fill_zero_window s = Some (send_segment g 1 (s\<lparr>se_stream := st\<rparr>))"
    using c R(1) by (simp add: fill_zero_window_def buffer_empty_iff TCPSegment_default_def g_def one_byte_def)
  moreover have "filled s [g] (send_segment g 1 (s\<lparr>se_stream := st, se_fin := se_fin s\<rparr>))"
    using R c len by (intro filled_send) (auto simp: Buffer_str_of g_def one_byte_def)
  ultimately show ?thesis using that [of st] R(3) c len(2) by simp
qed

lemma fill_zero_window_spec:
  assumes inv: "bs_inv (se_stream s)"
  shows "\<exists>s' gs. fill_zero_window s = Some s' \<and> filled s gs s' \<and> headed False s gs s' \<and> seq_total gs \<le> 1 \<and>
    (gs = [] \<longrightarrow> bs_contents (se_stream s) = [] \<and> (bs_input_ended (se_stream s) \<longrightarrow> se_fin s))"
proof (cases "bs_contents (se_stream s)")
  case (Cons b bs)
  let ?g = "one_byte (wrap (se_next_seqno s) (se_isn s)) b"
  obtain st where "fill_zero_window s = Some (send_segment ?g 1 (s\<lparr>se_stream := st\<rparr>))"
    "filled s [?g] (send_segment ?g 1 (s\<lparr>se_stream := st\<rparr>))" "length_in_sequence_space ?g = 1"
    by (rule fill_zero_window_data [OF inv Cons])
  moreover have "headed False s [?g] (send_segment ?g 1 (s\<lparr>se_stream := st\<rparr>))"
    by (simp add: headed_def one_byte_def send_segment_def TCPHeader_default_def)
  ultimately show ?thesis by (intro exI [of _ "send_segment ?g 1 (s\<lparr>se_stream := st\<rparr>)"] exI [of _ "[?g]"]) simp
next
  case Nil
  let ?g = "\<lparr>ts_header = TCPHeader_default\<lparr>th_fin := True, th_seqno := wrap (se_next_seqno s) (se_isn s)\<rparr>, ts_payload = Buffer_default\<rparr>"
  have len: "length_in_sequence_space \<lparr>ts_header = TCPHeader_default\<lparr>th_fin := True\<rparr>, ts_payload = Buffer_default\<rparr> = 1"
    "length_in_sequence_space ?g = 1" "length_in_sequence_space TCPSegment_default = 0"
    by (simp_all add: length_in_sequence_space_def str_size_def TCPHeader_default_def TCPSegment_default_def)
  show ?thesis
  proof (cases "bs_input_ended (se_stream s) \<and> \<not> se_fin s")
    case fin: True
    have "filled s [?g] (send_segment ?g 1 (s\<lparr>se_stream := se_stream s, se_fin := True\<rparr>))"
      using inv len by (intro filled_send) auto
    moreover have "headed False s [?g] (send_segment ?g 1 (s\<lparr>se_fin := True\<rparr>))"
      using Nil fin by (simp add: headed_def send_segment_def TCPHeader_default_def)
    moreover have "fill_zero_window s = Some (send_segment ?g 1 (s\<lparr>se_fin := True\<rparr>))"
      using Nil fin len by (simp add: fill_zero_window_def buffer_empty_iff eof_iff TCPSegment_default_def)
    ultimately show ?thesis
      using len by (intro exI [of _ "send_segment ?g 1 (s\<lparr>se_fin := True\<rparr>)"] exI [of _ "[?g]"]) simp
  next
    case False
    with Nil len inv show ?thesis
      by (intro exI [of _ s] exI [of _ "[]"]) (auto simp: fill_zero_window_def buffer_empty_iff eof_iff filled_def headed_def)
  qed
qed


section \<open>Outstanding segments\<close>

text \<open>
  The outstanding segments are consecutive from absolute sequence number \<open>c\<close> up to the next one,
  and the latest acknowledgment \<open>a\<close> lies between; all of it within \<open>2 ^ 31\<close> sequence numbers.
\<close>

fun out_chain :: "WrappingInt32 \<Rightarrow> nat \<Rightarrow> TCPSegment list \<Rightarrow> nat \<Rightarrow> bool" where
  "out_chain isn c [] n \<longleftrightarrow> c = n"
| "out_chain isn c (g # gs) n \<longleftrightarrow>
     th_seqno (ts_header g) = wrap (of_nat c) isn \<and> 0 < unat (length_in_sequence_space g) \<and>
     out_chain isn (c + unat (length_in_sequence_space g)) gs n"

definition flight_ok :: "TCPSender \<Rightarrow> nat \<Rightarrow> nat \<Rightarrow> bool" where
  "flight_ok s c a \<longleftrightarrow>
     out_chain (se_isn s) c (map snd (se_tcp_seg_cache s)) (unat (se_next_seqno s)) \<and>
     se_latest_ackno s = wrap (of_nat a) (se_isn s) \<and> c \<le> a \<and> a \<le> unat (se_next_seqno s) \<and>
     unat (se_next_seqno s) < c + 2 ^ 31"

lemma out_chain_le: "out_chain isn c gs n \<Longrightarrow> c \<le> n"
  by (induction gs arbitrary: c) (auto dest: add_leD1)

lemma out_chain_append:
  "out_chain isn c (gs @ hs) n \<longleftrightarrow> (\<exists>m. out_chain isn c gs m \<and> out_chain isn m hs n)"
  by (induction gs arbitrary: c) auto

lemma unwrap_in_flight:
  assumes "k \<le> unat n" and "unat n < k + 2 ^ 31"
  shows "unwrap (wrap (of_nat k) isn) isn n = of_nat k"
proof -
  have "unat (of_nat k :: u64) = k" using assms(1) unat_lt_64 [of n] by (intro unat_of_nat_small) simp
  with assms show ?thesis by (intro unwrap_unique refl) (auto simp: ndist_def)
qed

text \<open>What is left of consecutive segments from \<open>c\<close> on when \<open>k\<close> is acknowledged.\<close>

fun drop_acked :: "nat \<Rightarrow> nat \<Rightarrow> TCPSegment list \<Rightarrow> TCPSegment list" where
  "drop_acked k c [] = []"
| "drop_acked k c (g # gs) =
     (if c + unat (length_in_sequence_space g) \<le> k
      then drop_acked k (c + unat (length_in_sequence_space g)) gs else g # gs)"

lemma remove_acked_drop:
  assumes "out_chain (se_isn s) c (map snd cache) (unat (se_next_seqno s))"
    and "se_latest_ackno s = wrap (of_nat a) (se_isn s)" and "a \<le> unat (se_next_seqno s)"
    and "unat (se_next_seqno s) < a + 2 ^ 31" and "unat (se_next_seqno s) < c + 2 ^ 31"
  shows "map snd (remove_acked s cache) = drop_acked a c (map snd cache)"
  using assms
proof (induction cache arbitrary: c)
  case (Cons x cache)
  obtain t g where x: "x = (t, g)" by fastforce
  let ?l = "unat (length_in_sequence_space g)" and ?N = "unat (se_next_seqno s)"
  have ch: "out_chain (se_isn s) (c + ?l) (map snd cache) ?N" and sq: "th_seqno (ts_header g) = wrap (of_nat c) (se_isn s)"
    using Cons.prems(1) x by auto
  have le: "c + ?l \<le> ?N" by (rule out_chain_le [OF ch])
  have "wi_add (th_seqno (ts_header g)) (ucast (length_in_sequence_space g)) = wrap (of_nat (c + ?l)) (se_isn s)"
    unfolding sq wrap_add [symmetric] by simp
  then have r: "unwrap (wi_add (th_seqno (ts_header g)) (ucast (length_in_sequence_space g))) (se_isn s) (se_next_seqno s)
      = of_nat (c + ?l)"
    using unwrap_in_flight [OF le] Cons.prems(5) by (simp only:)
  have l: "unwrap (se_latest_ackno s) (se_isn s) (se_next_seqno s) = of_nat a"
    using unwrap_in_flight [OF Cons.prems(3,4)] Cons.prems(2) by simp
  have "(of_nat (c + ?l) :: u64) \<le> of_nat a \<longleftrightarrow> c + ?l \<le> a"
    using le Cons.prems(3) unat_lt_64 [of "se_next_seqno s"]
    by (intro of_nat_le_small) auto
  with Cons.IH [OF ch Cons.prems(2-4)] Cons.prems(5) x r l show ?case by auto
qed simp

lemma set_remove_acked: "set (remove_acked s cache) \<subseteq> set cache"
  by (induction s cache rule: remove_acked.induct) (auto simp: Let_def)

lemma drop_acked_chain:
  assumes "out_chain isn c gs n" and "c \<le> k" and "k \<le> n"
  shows "\<exists>c'. out_chain isn c' (drop_acked k c gs) n \<and> c \<le> c' \<and> c' \<le> k"
  using assms
proof (induction gs arbitrary: c)
  case (Cons g gs)
  show ?case
  proof (cases "c + unat (length_in_sequence_space g) \<le> k")
    case True
    with Cons.IH [of "c + unat (length_in_sequence_space g)"] Cons.prems show ?thesis
      by (auto intro: order_trans [of c "c + unat (length_in_sequence_space g)"])
  qed (use Cons.prems in auto)
qed simp


lemma in_flight_bytes:
  assumes "flight_ok s c a"
  shows "unat (TCPSender_bytes_in_flight s) = unat (se_next_seqno s) - a"
proof -
  have "unwrap (se_latest_ackno s) (se_isn s) (se_next_seqno s) = of_nat a"
    using assms unwrap_in_flight [of a "se_next_seqno s" "se_isn s"] by (simp add: flight_ok_def)
  moreover have "unat (of_nat a :: u64) = a"
    using assms unat_lt_64 [of "se_next_seqno s"] by (intro unat_of_nat_small) (simp add: flight_ok_def)
  ultimately show ?thesis
    using assms by (simp add: TCPSender_bytes_in_flight_def unat_sub word_le_nat_alt flight_ok_def)
qed

lemma map_snd_restart_first [simp]: "map snd (restart_first now cache) = map snd cache"
  by (auto simp: restart_first_def split: list.splits)

lemma unwrap_near:
  fixes n :: u64
  assumes "ndist k (unat n) < 2 ^ 31" and "k < 2 ^ 64"
  shows "unwrap (wrap (of_nat k) isn) isn n = of_nat k"
  by (rule unwrap_unique [OF refl]) (simp only: unat_of_nat_64 [OF assms(2)] assms(1))

lemma wrap_inj_near:
  fixes n :: u64
  assumes "wrap (of_nat j) isn = wrap (of_nat k) isn" and "ndist j (unat n) < 2 ^ 31" and "ndist k (unat n) < 2 ^ 31"
    and "j < 2 ^ 64" and "k < 2 ^ 64"
  shows "j = k"
proof -
  have "(of_nat j :: u64) = unwrap (wrap (of_nat j) isn) isn n" by (rule unwrap_near [OF assms(2,4), symmetric])
  also have "\<dots> = unwrap (wrap (of_nat k) isn) isn n" by (simp only: assms(1))
  also have "\<dots> = of_nat k" by (rule unwrap_near [OF assms(3,5)])
  finally have "unat (of_nat j :: u64) = unat (of_nat k :: u64)" by (rule arg_cong)
  then show ?thesis unfolding unat_of_nat_64 [OF assms(4)] unat_of_nat_64 [OF assms(5)] .
qed

text \<open>An acknowledgment of an absolute number \<open>k\<close> near the next one.\<close>

lemma ack_ignored:
  assumes fl: "flight_ok s c a" and k: "ndist k (unat (se_next_seqno s)) < 2 ^ 31" "k < 2 ^ 64"
  shows "(k < a \<or> unat (se_next_seqno s) < k) \<longleftrightarrow>
    (TCPSender_compare (se_latest_ackno s) (wrap (of_nat k) (se_isn s)) (se_isn s) (se_next_seqno s) \<or>
     unwrap (wrap (of_nat k) (se_isn s)) (se_isn s) (se_next_seqno s) > se_next_seqno s)"
proof -
  let ?N = "se_next_seqno s"
  note uk = unat_of_nat_64 [OF k(2)]
  note wk = unwrap_near [OF k, of "se_isn s"]
  have a: "a < 2 ^ 64" "a \<le> unat ?N" "unat ?N < a + 2 ^ 31"
    using fl unat_lt_64 [of ?N] by (auto simp: flight_ok_def)
  then have wa: "unwrap (se_latest_ackno s) (se_isn s) ?N = of_nat a"
    using fl unwrap_in_flight [OF a(2,3)] by (simp add: flight_ok_def)
  have "(of_nat k :: u64) < of_nat a \<longleftrightarrow> k < a" using a(1) k(2) by (intro of_nat_less_small) simp_all
  moreover have "?N < of_nat k \<longleftrightarrow> unat ?N < k" by (simp add: word_less_nat_alt uk)
  ultimately show ?thesis by (simp add: TCPSender_compare_def wk wa)
qed

lemma ack_next_seqno: "se_next_seqno (TCPSender_ack_received k w s) = se_next_seqno s"
  by (simp add: TCPSender_ack_received_def Let_def remove_acked_seg_def)

text \<open>What an acknowledgment that is not ignored does to the window in use.\<close>

definition used_after :: "nat \<Rightarrow> nat \<Rightarrow> nat \<Rightarrow> nat \<Rightarrow> nat" where
  "used_after a used k w = min (a + used - k) w"

lemma unat_used_after:
  fixes n used w :: u64 and isn :: WrappingInt32
  assumes "a + unat used \<le> unat n" and "unat n < a + 2 ^ 31" and "k \<le> unat n" and "a \<le> k"
  defines "x \<equiv> unwrap (wi_add (wrap (of_nat a) isn) (ucast used)) isn n"
    and "y \<equiv> unwrap (wrap (of_nat k) isn) isn n"
  defines "u \<equiv> (if x > y then x - y else 0)"
  shows "unat (if u > w then w else u) = used_after a (unat used) k (unat w)"
proof -
  have "wi_add (wrap (of_nat a) isn) (ucast used) = wrap (of_nat (a + unat used)) isn"
    unfolding wrap_add [symmetric] by simp
  then have x: "x = of_nat (a + unat used)"
    unfolding x_def using assms(1,2) by (simp only:) (intro unwrap_in_flight; simp)
  have y: "y = of_nat k" unfolding y_def using assms(2-4) by (intro unwrap_in_flight) simp_all
  have u: "unat x = a + unat used" "unat y = k"
    unfolding x y using assms(1,3) unat_lt_64 [of n] by (intro unat_of_nat_64; simp)+
  then have "unat u = a + unat used - k"
    by (auto simp: u_def word_less_nat_alt unat_sub word_le_nat_alt)
  then show ?thesis by (auto simp: used_after_def word_less_nat_alt)
qed

lemma remove_acked_fields [simp]:
  "se_isn (remove_acked_seg s) = se_isn s" "se_next_seqno (remove_acked_seg s) = se_next_seqno s"
  "se_window_size (remove_acked_seg s) = se_window_size s" "se_latest_ackno (remove_acked_seg s) = se_latest_ackno s"
  "se_window_used_size (remove_acked_seg s) = se_window_used_size s" "se_stream (remove_acked_seg s) = se_stream s"
  "se_now_time_ms (remove_acked_seg s) = se_now_time_ms s" "se_segments_out (remove_acked_seg s) = se_segments_out s"
  "se_retransmission_timeout (remove_acked_seg s) = se_retransmission_timeout s"
  "se_retransmission_count (remove_acked_seg s) = se_retransmission_count s"
  "se_syned (remove_acked_seg s) = se_syned s" "se_fin (remove_acked_seg s) = se_fin s"
  "se_initial_retransmission_timeout (remove_acked_seg s) = se_initial_retransmission_timeout s"
  "se_tcp_seg_cache (remove_acked_seg s) = remove_acked s (se_tcp_seg_cache s)"
  by (simp_all add: remove_acked_seg_def)

lemma ack_accepted:
  fixes w :: u16
  assumes fl: "flight_ok s c a" and k: "a \<le> k" "k \<le> unat (se_next_seqno s)"
    and used: "a + unat (se_window_used_size s) \<le> unat (se_next_seqno s)"
  defines "s' \<equiv> TCPSender_ack_received (wrap (of_nat k) (se_isn s)) w s"
  shows "unat (se_window_used_size s') = used_after a (unat (se_window_used_size s)) k (unat w) \<and>
    se_window_size s' = ucast w \<and> se_segments_out s' = se_segments_out s \<and> se_stream s' = se_stream s \<and>
    (k = a \<longrightarrow> s' = s\<lparr>se_window_size := se_window_size s', se_window_used_size := se_window_used_size s'\<rparr>) \<and>
    (k \<noteq> a \<longrightarrow> map snd (se_tcp_seg_cache s') = drop_acked k c (map snd (se_tcp_seg_cache s)) \<and>
      (\<forall>t g rest. se_tcp_seg_cache s' = (t, g) # rest \<longrightarrow> t = se_now_time_ms s) \<and>
      se_retransmission_timeout s' = se_initial_retransmission_timeout s \<and> se_retransmission_count s' = 0) \<and>
    (\<exists>c' \<ge> c. flight_ok s' c' k)"
proof -
  let ?N = "unat (se_next_seqno s)"
  have f: "out_chain (se_isn s) c (map snd (se_tcp_seg_cache s)) ?N" "se_latest_ackno s = wrap (of_nat a) (se_isn s)"
    "c \<le> a" "a \<le> ?N" "?N < c + 2 ^ 31" using fl by (auto simp: flight_ok_def)
  have kn: "ndist k ?N < 2 ^ 31" "k < 2 ^ 64" "ndist a ?N < 2 ^ 31" "a < 2 ^ 64"
    using f k unat_lt_64 [of "se_next_seqno s"] by (auto simp: ndist_def)
  have eq: "wi_eq (wrap (of_nat k) (se_isn s)) (se_latest_ackno s) \<longleftrightarrow> k = a"
    using wrap_inj_near [OF _ kn(1,3,2,4), of "se_isn s"] f(2) by (auto simp: wi_eq_def WrappingInt32.expand)
  define U where "U = se_window_used_size s'"
  define s1 where "s1 = s\<lparr>se_window_size := ucast w, se_window_used_size := U\<rparr>"
  define s2 where "s2 = remove_acked_seg (s1\<lparr>se_retransmission_timeout := se_initial_retransmission_timeout s,
     se_retransmission_count := 0, se_latest_ackno := wrap (of_nat k) (se_isn s)\<rparr>)"
  have ni: "\<not> (TCPSender_compare (se_latest_ackno s) (wrap (of_nat k) (se_isn s)) (se_isn s) (se_next_seqno s) \<or>
      unwrap (wrap (of_nat k) (se_isn s)) (se_isn s) (se_next_seqno s) > se_next_seqno s)"
    using ack_ignored [OF fl kn(1,2)] k by auto
  define x where "x = unwrap (wi_add (wrap (of_nat a) (se_isn s)) (ucast (se_window_used_size s))) (se_isn s) (se_next_seqno s)"
  define y where "y = unwrap (wrap (of_nat k) (se_isn s)) (se_isn s) (se_next_seqno s)"
  define u where "u = (if x > y then x - y else 0)"
  have s'_if: "s' = (let s1 = s\<lparr>se_window_size := ucast w, se_window_used_size := if u > ucast w then ucast w else u\<rparr>;
      s2 = remove_acked_seg (s1\<lparr>se_retransmission_timeout := se_initial_retransmission_timeout s,
        se_retransmission_count := 0, se_latest_ackno := wrap (of_nat k) (se_isn s)\<rparr>)
      in if k = a then s1 else s2\<lparr>se_tcp_seg_cache := restart_first (se_now_time_ms s2) (se_tcp_seg_cache s2)\<rparr>)"
    unfolding s'_def TCPSender_ack_received_def if_not_P [OF ni] u_def x_def y_def f(2) [symmetric] Let_def eq ..
  then have used': "U = (if u > ucast w then ucast w else u)" by (simp add: Let_def U_def)
  have uw: "unat U = used_after a (unat (se_window_used_size s)) k (unat w)"
    unfolding used' u_def x_def y_def using f(3,5) 
    by (subst unat_used_after [OF used _ k(2,1)]) (simp_all add: unat_ucast_up)
  have s': "s' = (if k = a then s1 else s2\<lparr>se_tcp_seg_cache := restart_first (se_now_time_ms s2) (se_tcp_seg_cache s2)\<rparr>)"
    unfolding s1_def s2_def used' by (simp only: s'_if Let_def)
  have s2: "map snd (se_tcp_seg_cache s2) = drop_acked k c (map snd (se_tcp_seg_cache s))"
    using f k by (simp add: s2_def s1_def) (rule remove_acked_drop; simp)
  obtain c' where c': "out_chain (se_isn s) c' (drop_acked k c (map snd (se_tcp_seg_cache s))) ?N" "c \<le> c'" "c' \<le> k"
    using drop_acked_chain [OF f(1) _ k(2)] f(3) k(1) by (meson order_trans)
  show ?thesis
  proof (cases "k = a")
    case True
    then have "s' = s1" using s' by simp
    moreover have "flight_ok s1 c k" using fl True by (simp add: flight_ok_def s1_def)
    ultimately show ?thesis using uw True by (auto simp: s1_def)
  next
    case False
    let ?s3 = "s2\<lparr>se_tcp_seg_cache := restart_first (se_now_time_ms s2) (se_tcp_seg_cache s2)\<rparr>"
    have "flight_ok ?s3 c' k"
      using c' f(5) k(2) s2 by (simp add: flight_ok_def s2_def s1_def)
    moreover have "\<forall>t g rest. se_tcp_seg_cache ?s3 = (t, g) # rest \<longrightarrow> t = se_now_time_ms s"
      by (auto simp: s2_def s1_def restart_first_def split: list.splits)
    moreover have "s' = ?s3" using s' False by simp
    ultimately show ?thesis using uw False s2 c'(2) by (simp add: s1_def) (auto simp: s2_def s1_def)
  qed
qed

lemma flight_ok_new: "flight_ok (TCPSender_new cap rto isn rnd) 0 0"
proof -
  have "wrap 0 i = i" for i by (rule WrappingInt32.expand) (simp add: raw_wrap)
  then show ?thesis by (simp add: flight_ok_def TCPSender_new_def Let_def)
qed

lemma seg_chain_out_chain:
  assumes "seg_chain isn n gs m" and "unat n + seq_total gs < 2 ^ 64"
  shows "out_chain isn (unat n) gs (unat m) \<and> unat m = unat n + seq_total gs"
  using assms
proof (induction gs arbitrary: n)
  case (Cons g gs)
  have "unat (n + length_in_sequence_space g) = unat n + unat (length_in_sequence_space g)"
    using Cons.prems(2) by (intro unat_add_small) simp
  with Cons.IH [of "n + length_in_sequence_space g"] Cons.prems show ?case
    by (auto simp: word_less_nat_alt add.assoc)
qed simp

text \<open>Sending keeps the outstanding segments consecutive.\<close>

lemma flight_ok_filled:
  assumes "flight_ok s c a" and "filled s gs s'" and "unat (se_next_seqno s) + seq_total gs < 2 ^ 64"
    and "unat (se_next_seqno s) + seq_total gs < c + 2 ^ 31"
  shows "flight_ok s' c a"
  using assms seg_chain_out_chain [of "se_isn s" "se_next_seqno s" gs "se_next_seqno s'"]
  by (auto simp: filled_def flight_ok_def out_chain_append comp_def)

section \<open>The retransmission timer\<close>

fun ticks :: "u64 list \<Rightarrow> TCPSender \<Rightarrow> TCPSender" where
  "ticks [] s = s"
| "ticks (d # ds) s = ticks ds (TCPSender_tick d s)"

lemma ticks_append: "ticks (ds @ es) s = ticks es (ticks ds s)"
  by (induction ds arbitrary: s) auto

text \<open>The oldest outstanding segment \<open>g\<close>, not acknowledged, has been waiting for \<open>w\<close> milliseconds.\<close>

definition awaiting :: "TCPSegment \<Rightarrow> nat \<Rightarrow> TCPSender \<Rightarrow> bool" where
  "awaiting g w s \<longleftrightarrow>
     remove_acked s (se_tcp_seg_cache s) = se_tcp_seg_cache s \<and>
     (\<exists>t rest. se_tcp_seg_cache s = (t, g) # rest \<and> unat (se_now_time_ms s - t) = w)"

lemma remove_acked_cong:
  "se_latest_ackno s' = se_latest_ackno s \<Longrightarrow> se_isn s' = se_isn s \<Longrightarrow> se_next_seqno s' = se_next_seqno s \<Longrightarrow>
   remove_acked s' cache = remove_acked s cache"
  by (induction s cache rule: remove_acked.induct) (auto simp: Let_def)

lemma length_remove_acked: "length (remove_acked s cache) \<le> length cache"
  by (induction s cache rule: remove_acked.induct) (auto simp: Let_def le_SucI)

lemma remove_acked_Cons:
  "remove_acked s ((t, g) # rest) = (t, g) # rest \<Longrightarrow> remove_acked s ((t', g) # rest) = (t', g) # rest"
  using length_remove_acked [of s rest] by (auto simp: Let_def split: if_splits)

lemma awaitingD:
  assumes "awaiting g w s"
  obtains t rest where "se_tcp_seg_cache s = (t, g) # rest" and "unat (se_now_time_ms s - t) = w"
    and "\<forall>s' t'. se_latest_ackno s' = se_latest_ackno s \<longrightarrow> se_isn s' = se_isn s \<longrightarrow> se_next_seqno s' = se_next_seqno s \<longrightarrow>
      remove_acked s' ((t', g) # rest) = (t', g) # rest"
  using assms remove_acked_cong remove_acked_Cons unfolding awaiting_def by metis

lemma tick_awaiting:
  assumes "awaiting g w s" and "w + unat d < 2 ^ 64"
  shows "if w + unat d < unat (se_retransmission_timeout s)
    then awaiting g (w + unat d) (TCPSender_tick d s) \<and>
      (\<exists>c. TCPSender_tick d s = s\<lparr>se_now_time_ms := se_now_time_ms s + d, se_tcp_seg_cache := c\<rparr>)
    else awaiting g 0 (TCPSender_tick d s) \<and>
      (\<exists>c. TCPSender_tick d s = s\<lparr>se_now_time_ms := se_now_time_ms s + d, se_tcp_seg_cache := c,
        se_segments_out := se_segments_out s @ [g],
        se_retransmission_count := se_retransmission_count s + (if se_window_size s \<noteq> 0 then 1 else 0),
        se_retransmission_timeout := se_retransmission_timeout s * (if se_window_size s \<noteq> 0 then 2 else 1)\<rparr>)"
proof -
  from assms(1) obtain t rest where c: "se_tcp_seg_cache s = (t, g) # rest" "unat (se_now_time_ms s - t) = w"
    and keep: "\<forall>s' t'. se_latest_ackno s' = se_latest_ackno s \<longrightarrow> se_isn s' = se_isn s \<longrightarrow> se_next_seqno s' = se_next_seqno s \<longrightarrow>
      remove_acked s' ((t', g) # rest) = (t', g) # rest"
    by (rule awaitingD)
  let ?now = "se_now_time_ms s + d"
  have "?now - t = (se_now_time_ms s - t) + d" by simp
  moreover have "unat ((se_now_time_ms s - t) + d) = w + unat d"
    unfolding c(2) [symmetric] using assms(2) c(2) by (intro unat_add_small) simp
  ultimately have w: "unat (?now - t) = w + unat d" by (simp only:)
  have due: "ucast (se_retransmission_timeout s) \<le> ?now - t \<longleftrightarrow> unat (se_retransmission_timeout s) \<le> w + unat d"
    by (simp add: word_le_nat_alt w unat_ucast_up)
  have r: "remove_acked_seg (s\<lparr>se_now_time_ms := ?now\<rparr>) = s\<lparr>se_now_time_ms := ?now\<rparr>"
    using keep [rule_format, of "s\<lparr>se_now_time_ms := ?now\<rparr>"] c(1) by (simp add: remove_acked_seg_def)
  show ?thesis
  proof (cases "w + unat d < unat (se_retransmission_timeout s)")
    case True
    then have "TCPSender_tick d s = s\<lparr>se_now_time_ms := ?now\<rparr>"
      using c(1) by (simp add: TCPSender_tick_def r due)
    with True show ?thesis
      using c(1) w keep by (auto simp: awaiting_def intro!: exI [of _ "se_tcp_seg_cache s"])
  next
    case False
    then have "TCPSender_tick d s = s\<lparr>se_now_time_ms := ?now, se_tcp_seg_cache := (?now, g) # rest,
        se_segments_out := se_segments_out s @ [g],
        se_retransmission_count := se_retransmission_count s + (if se_window_size s \<noteq> 0 then 1 else 0),
        se_retransmission_timeout := se_retransmission_timeout s * (if se_window_size s \<noteq> 0 then 2 else 1)\<rparr>"
      using c(1) by (simp add: TCPSender_tick_def r due)
    with False show ?thesis
      using keep by (auto simp: awaiting_def)
  qed
qed

lemma ticks_quiet:
  assumes "awaiting g w s" and "w + sum_list (map unat ds) < unat (se_retransmission_timeout s)"
  shows "awaiting g (w + sum_list (map unat ds)) (ticks ds s) \<and>
    (\<exists>now c. ticks ds s = s\<lparr>se_now_time_ms := now, se_tcp_seg_cache := c\<rparr>)"
  using assms
proof (induction ds arbitrary: s w)
  case (Cons d ds)
  have "w + unat d < 2 ^ 64" using Cons.prems(2) unat_lt_32 [of "se_retransmission_timeout s"] by simp
  from tick_awaiting [OF Cons.prems(1) this] Cons.prems(2)
  obtain c where t: "awaiting g (w + unat d) (TCPSender_tick d s)"
    "TCPSender_tick d s = s\<lparr>se_now_time_ms := se_now_time_ms s + d, se_tcp_seg_cache := c\<rparr>" by (auto split: if_splits)
  from Cons.IH [OF t(1)] Cons.prems(2) t(2) show ?case by (auto simp: add.assoc)
next
  case Nil
  have "\<exists>now c. ticks [] s = s\<lparr>se_now_time_ms := now, se_tcp_seg_cache := c\<rparr>"
    by (rule exI [of _ "se_now_time_ms s"], rule exI [of _ "se_tcp_seg_cache s"]) simp
  with Nil show ?case by simp
qed

text \<open>
  Rounds of ticks: each round passes less than the timeout in its first ticks and reaches it
  in the last; the timeout doubles from round to round.
\<close>

fun rounds :: "nat \<Rightarrow> (u64 list \<times> u64) list \<Rightarrow> bool" where
  "rounds rto [] \<longleftrightarrow> True"
| "rounds rto ((ds, d) # rs) \<longleftrightarrow>
     sum_list (map unat ds) < rto \<and> rto \<le> sum_list (map unat ds) + unat d \<and>
     sum_list (map unat ds) + unat d < 2 ^ 64 \<and> rounds (2 * rto) rs"

fun round_ticks :: "(u64 list \<times> u64) list \<Rightarrow> u64 list" where
  "round_ticks [] = []"
| "round_ticks ((ds, d) # rs) = ds @ d # round_ticks rs"

text \<open>With a closed window the timeout stays as it is.\<close>

fun level_rounds :: "nat \<Rightarrow> (u64 list \<times> u64) list \<Rightarrow> bool" where
  "level_rounds rto [] \<longleftrightarrow> True"
| "level_rounds rto ((ds, d) # rs) \<longleftrightarrow>
     sum_list (map unat ds) < rto \<and> rto \<le> sum_list (map unat ds) + unat d \<and>
     sum_list (map unat ds) + unat d < 2 ^ 64 \<and> level_rounds rto rs"

lemma round_once:
  assumes a: "awaiting g 0 s"
    and r: "sum_list (map unat ds) < unat (se_retransmission_timeout s)"
      "unat (se_retransmission_timeout s) \<le> sum_list (map unat ds) + unat d" "sum_list (map unat ds) + unat d < 2 ^ 64"
  shows "\<exists>now c. ticks (ds @ [d]) s = s\<lparr>se_now_time_ms := now, se_tcp_seg_cache := c,
      se_segments_out := se_segments_out s @ [g],
      se_retransmission_count := se_retransmission_count s + (if se_window_size s \<noteq> 0 then 1 else 0),
      se_retransmission_timeout := se_retransmission_timeout s * (if se_window_size s \<noteq> 0 then 2 else 1)\<rparr>"
      (is "\<exists>now c. _ = ?s now c")
    and "awaiting g 0 (ticks (ds @ [d]) s)"
proof -
  let ?W = "sum_list (map unat ds)"
  obtain now c where q: "awaiting g ?W (ticks ds s)" "ticks ds s = s\<lparr>se_now_time_ms := now, se_tcp_seg_cache := c\<rparr>"
    using ticks_quiet [OF a, of ds] r(1) by auto
  have "\<not> ?W + unat d < unat (se_retransmission_timeout (ticks ds s))" using r(2) q(2) by simp
  with tick_awaiting [OF q(1) r(3)] obtain c' where t: "awaiting g 0 (TCPSender_tick d (ticks ds s))"
    "TCPSender_tick d (ticks ds s) = ?s (now + d) c'" using q(2) by auto
  then show "\<exists>now c. ticks (ds @ [d]) s = ?s now c" "awaiting g 0 (ticks (ds @ [d]) s)"
    by (auto simp: ticks_append)
qed

lemma backoff:
  assumes "awaiting g 0 s" and "se_window_size s \<noteq> 0" and "rounds (unat (se_retransmission_timeout s)) rs"
    and "unat (se_retransmission_timeout s) * 2 ^ length rs < 2 ^ 32"
  shows "\<exists>now c. ticks (round_ticks rs) s = s\<lparr>se_now_time_ms := now, se_tcp_seg_cache := c,
      se_segments_out := se_segments_out s @ replicate (length rs) g,
      se_retransmission_count := se_retransmission_count s + of_nat (length rs),
      se_retransmission_timeout := se_retransmission_timeout s * 2 ^ length rs\<rparr>"
  using assms
proof (induction rs arbitrary: s)
  case Nil
  show ?case by (rule exI [of _ "se_now_time_ms s"], rule exI [of _ "se_tcp_seg_cache s"]) simp
next
  case (Cons r rs)
  obtain ds d where r: "r = (ds, d)" by fastforce
  let ?T = "se_retransmission_timeout s"
  have h: "sum_list (map unat ds) < unat ?T" "unat ?T \<le> sum_list (map unat ds) + unat d"
    "sum_list (map unat ds) + unat d < 2 ^ 64" "rounds (2 * unat ?T) rs"
    using Cons.prems(3) r by auto
  note o = round_once [OF Cons.prems(1) h(1-3)]
  define s1 where "s1 = ticks (ds @ [d]) s"
  obtain now c where s1: "s1 = s\<lparr>se_now_time_ms := now, se_tcp_seg_cache := c,
      se_segments_out := se_segments_out s @ [g], se_retransmission_count := se_retransmission_count s + 1,
      se_retransmission_timeout := ?T * 2\<rparr>" using o(1) Cons.prems(2) by (auto simp: s1_def)
  have "2 * unat ?T \<le> unat ?T * 2 ^ length (r # rs)" by simp
  then have "2 * unat ?T < 2 ^ 32" using Cons.prems(4) by (rule le_less_trans)
  then have u: "unat (?T * 2) = 2 * unat ?T" by (simp add: unat_word_ariths)
  have "awaiting g 0 s1" using o(2) by (simp add: s1_def)
  moreover have "se_window_size s1 \<noteq> 0" using Cons.prems(2) by (simp add: s1)
  moreover have "rounds (unat (se_retransmission_timeout s1)) rs" using h(4) u by (simp add: s1)
  moreover have "unat (se_retransmission_timeout s1) * 2 ^ length rs < 2 ^ 32" using Cons.prems(4) u by (simp add: s1 ac_simps)
  ultimately obtain now' c' where "ticks (round_ticks rs) s1 = s1\<lparr>se_now_time_ms := now', se_tcp_seg_cache := c',
      se_segments_out := se_segments_out s1 @ replicate (length rs) g,
      se_retransmission_count := se_retransmission_count s1 + of_nat (length rs),
      se_retransmission_timeout := se_retransmission_timeout s1 * 2 ^ length rs\<rparr>"
    using Cons.IH by blast
  moreover have "ticks (round_ticks (r # rs)) s = ticks (round_ticks rs) s1"
    using ticks_append [of "ds @ [d]" "round_ticks rs" s] by (simp add: r s1_def)
  ultimately show ?case
    by (intro exI [of _ now'] exI [of _ c']) (simp add: s1 ac_simps)
qed

lemma level_backoff:
  assumes "awaiting g 0 s" and "se_window_size s = 0" and "level_rounds (unat (se_retransmission_timeout s)) rs"
  shows "\<exists>now c. ticks (round_ticks rs) s = s\<lparr>se_now_time_ms := now, se_tcp_seg_cache := c,
      se_segments_out := se_segments_out s @ replicate (length rs) g\<rparr>"
  using assms
proof (induction rs arbitrary: s)
  case Nil
  show ?case by (rule exI [of _ "se_now_time_ms s"], rule exI [of _ "se_tcp_seg_cache s"]) simp
next
  case (Cons r rs)
  obtain ds d where r: "r = (ds, d)" by fastforce
  define s1 where "s1 = ticks (ds @ [d]) s"
  obtain now c where s1: "s1 = s\<lparr>se_now_time_ms := now, se_tcp_seg_cache := c, se_segments_out := se_segments_out s @ [g]\<rparr>"
    and "awaiting g 0 s1"
    using round_once [OF Cons.prems(1), of ds d] Cons.prems(2,3) r by (auto simp: s1_def)
  then obtain now' c' where "ticks (round_ticks rs) s1 = s1\<lparr>se_now_time_ms := now', se_tcp_seg_cache := c',
      se_segments_out := se_segments_out s1 @ replicate (length rs) g\<rparr>"
    using Cons.IH [of s1] Cons.prems(2,3) r by auto
  moreover have "ticks (round_ticks (r # rs)) s = ticks (round_ticks rs) s1"
    using ticks_append [of "ds @ [d]" "round_ticks rs" s] by (simp add: r s1_def)
  ultimately show ?case by (intro exI [of _ now'] exI [of _ c']) (simp add: s1)
qed

section \<open>A closed window\<close>

text \<open>The peer repeats its latest acknowledgment with a window of zero, and the window is filled.\<close>

definition closed_round :: "TCPSender \<Rightarrow> TCPSender option" where
  "closed_round s = TCPSender_fill_window (TCPSender_ack_received (se_latest_ackno s) 0 s)"

primrec closed_rounds :: "nat \<Rightarrow> TCPSender \<Rightarrow> TCPSender option" where
  "closed_rounds 0 s = Some s"
| "closed_rounds (Suc n) s = Option.bind (closed_rounds n s) closed_round"

definition sender_fits :: "TCPSender \<Rightarrow> nat \<Rightarrow> nat \<Rightarrow> bool" where
  "sender_fits s c a \<longleftrightarrow> flight_ok s c a \<and> a + unat (se_window_used_size s) \<le> unat (se_next_seqno s) \<and> bs_inv (se_stream s)"

lemma closed_round_sends:
  assumes "sender_fits s c a" and "bs_contents (se_stream s) = b # bs" and "unat (se_next_seqno s) + 1 < 2 ^ 64"
    and "unat (se_next_seqno s) + 1 < c + 2 ^ 31"
  shows "\<exists>s'. closed_round s = Some s' \<and> sender_fits s' c a \<and> bs_contents (se_stream s') = bs \<and>
    se_segments_out s' = se_segments_out s @ [one_byte (TCPSender_next_seqno s) b] \<and>
    unat (se_next_seqno s') = unat (se_next_seqno s) + 1 \<and> se_isn s' = se_isn s \<and> se_latest_ackno s' = se_latest_ackno s"
proof -
  let ?s = "TCPSender_ack_received (se_latest_ackno s) 0 s" and ?g = "one_byte (TCPSender_next_seqno s) b"
  have fl: "flight_ok s c a" "a + unat (se_window_used_size s) \<le> unat (se_next_seqno s)" "bs_inv (se_stream s)"
    using assms(1) by (auto simp: sender_fits_def)
  have a: "a \<le> unat (se_next_seqno s)" "se_latest_ackno s = wrap (of_nat a) (se_isn s)"
    using fl(1) by (auto simp: flight_ok_def)
  note A = ack_accepted [OF fl(1) order.refl a(1) fl(2), of 0, folded a(2)]
  then have z: "se_window_size ?s = 0" "se_window_used_size ?s = 0" by (auto simp: used_after_def unat_eq_zero)
  have e: "?s = s\<lparr>se_window_size := 0, se_window_used_size := 0\<rparr>" using A z by metis
  have f': "flight_ok ?s c a" using fl(1) unfolding e by (simp add: flight_ok_def)
  obtain st where st: "fill_zero_window ?s = Some (send_segment ?g 1 (?s\<lparr>se_stream := st\<rparr>))" "bs_contents st = bs"
    "filled ?s [?g] (send_segment ?g 1 (?s\<lparr>se_stream := st\<rparr>))" "length_in_sequence_space ?g = 1"
    using fill_zero_window_data [of ?s b bs] fl(3) assms(2) unfolding e by (auto simp: TCPSender_next_seqno_def)
  have n: "unat (se_next_seqno s + 1) = unat (se_next_seqno s) + 1" using assms(3) by (simp add: unat_word_ariths)
  have "flight_ok (send_segment ?g 1 (?s\<lparr>se_stream := st\<rparr>)) c a"
    using flight_ok_filled [OF f' st(3)] assms(3,4) st(4) by (simp add: e)
  moreover have "closed_round s = Some (send_segment ?g 1 (?s\<lparr>se_stream := st\<rparr>))"
    using st(1) z by (simp add: closed_round_def TCPSender_fill_window_def)
  moreover have "bs_inv st" using st(3) by (simp add: filled_def send_segment_def)
  ultimately show ?thesis using st(2) n a(1) by (auto simp: sender_fits_def send_segment_def e)
qed

lemma closed_rounds_send:
  assumes "sender_fits s c a" and "n \<le> length (bs_contents (se_stream s))" and "unat (se_next_seqno s) + n < 2 ^ 64"
    and "unat (se_next_seqno s) + n < c + 2 ^ 31"
  shows "\<exists>s'. closed_rounds n s = Some s' \<and> sender_fits s' c a \<and> bs_contents (se_stream s') = drop n (bs_contents (se_stream s)) \<and>
    se_segments_out s' = se_segments_out s @
      map (\<lambda>i. one_byte (wrap (se_next_seqno s + of_nat i) (se_isn s)) (bs_contents (se_stream s) ! i)) [0..<n] \<and>
    unat (se_next_seqno s') = unat (se_next_seqno s) + n \<and> se_isn s' = se_isn s \<and> se_latest_ackno s' = se_latest_ackno s"
  using assms(2-4)
proof (induction n)
  case 0
  with assms(1) show ?case by simp
next
  case (Suc n)
  then obtain s1 where s1: "closed_rounds n s = Some s1" "sender_fits s1 c a" "bs_contents (se_stream s1) = drop n (bs_contents (se_stream s))"
    "se_segments_out s1 = se_segments_out s @
      map (\<lambda>i. one_byte (wrap (se_next_seqno s + of_nat i) (se_isn s)) (bs_contents (se_stream s) ! i)) [0..<n]"
    "unat (se_next_seqno s1) = unat (se_next_seqno s) + n" "se_isn s1 = se_isn s" "se_latest_ackno s1 = se_latest_ackno s" by auto
  have "drop n (bs_contents (se_stream s)) = bs_contents (se_stream s) ! n # drop (Suc n) (bs_contents (se_stream s))"
    using Suc.prems(1) by (simp add: Cons_nth_drop_Suc)
  moreover have "se_next_seqno s1 = se_next_seqno s + of_nat n"
    using s1(5) Suc.prems(2) by (simp add: unat_of_nat_64 unat_add_small word_unat_eq_iff)
  ultimately show ?case
    using closed_round_sends [OF s1(2), of "bs_contents (se_stream s) ! n" "drop (Suc n) (bs_contents (se_stream s))"] s1 Suc.prems
    by (auto simp: TCPSender_next_seqno_def)
qed

section \<open>Properties\<close>

text \<open>
  C21: \<open>fill_window\<close> terminates on every sender with a proper stream and a window below \<open>2 ^ 32\<close>. The
  segments it sends are consecutive from the next sequence number, non-empty, of at most
  1000 payload bytes; their payloads are the bytes taken from the stream, in order; each is
  queued and cached once. In the headers nothing is set but the sequence number and the flags: the SYN
  on the first segment if none was sent before (a closed window never lets it out), and the FIN on the last segment
  exactly when the sender records that it has sent it, which happens once, at the end of an ended
  stream. With a window of zero and nothing in use it sends one sequence
  number at most; otherwise it sends no more than the free window, plus one with the SYN,
  and stops only when the window is used up or everything (and the FIN, if the stream has
  ended) has been sent.
\<close>
theorem TCPSender_fill_window_spec:
  assumes "bs_inv (se_stream s)" and "unat (se_window_size s) < 2 ^ 32"
  shows "\<exists>s' gs. TCPSender_fill_window s = Some s' \<and> filled s gs s' \<and>
    headed (\<not> (se_window_size s = 0 \<and> se_window_used_size s = 0)) s gs s' \<and>
    (if se_window_size s = 0 \<and> se_window_used_size s = 0
     then seq_total gs \<le> 1 \<and>
       (gs = [] \<longrightarrow> bs_contents (se_stream s) = [] \<and> (bs_input_ended (se_stream s) \<longrightarrow> se_fin s))
     else seq_total gs \<le> unat (window_unused s) + (if \<not> se_syned s then 1 else 0) \<and> window_filled s')"
  using fill_zero_window_spec [OF assms(1)] fill_loop_spec [OF assms]
  by (auto simp: TCPSender_fill_window_def)

theorem TCPSender_fill_window_spec_witness:
  "\<exists>s'. TCPSender_fill_window (TCPSender_new 10 1000 (Some (WrappingInt32 5)) 0) = Some s' \<and>
     bs_contents (se_stream s') = []"
proof -
  let ?s = "TCPSender_new 10 1000 (Some (WrappingInt32 5)) 0"
  have i: "bs_inv (se_stream ?s)" by (simp add: TCPSender_new_def Let_def bs_inv_new)
  have c: "bs_contents (se_stream ?s) = []" by (simp add: TCPSender_new_def Let_def)
  have "unat (se_window_size ?s) < 2 ^ 32" by (simp add: TCPSender_new_def Let_def)
  from TCPSender_fill_window_spec [OF i this] c show ?thesis by (fastforce simp: filled_def)
qed

text \<open>
  C22: an acknowledgment of the absolute sequence number \<open>k\<close>, less than \<open>2 ^ 31\<close> away from the next
  sequence number, is ignored when it is older than the latest one or acknowledges what was never sent. Otherwise
  the advertised window is taken over, the bytes in flight are those from \<open>k\<close> on, and a number beyond the
  latest acknowledgment removes exactly the outstanding segments that end at or before \<open>k\<close>,
  restarts the timer of the oldest one left and resets timeout and retransmission count;
  the rest stays consecutive up to the next sequence number.
\<close>
theorem TCPSender_ack_received_spec:
  assumes "flight_ok s c a" and "a + unat (se_window_used_size s) \<le> unat (se_next_seqno s)"
    and "ndist k (unat (se_next_seqno s)) < 2 ^ 31" and "k < 2 ^ 64"
    and "s' = TCPSender_ack_received (wrap (of_nat k) (se_isn s)) w s"
  shows "if k < a \<or> unat (se_next_seqno s) < k then s' = s
    else se_window_size s' = ucast w \<and>
      unat (se_window_used_size s') = min (a + unat (se_window_used_size s) - k) (unat w) \<and>
      unat (TCPSender_bytes_in_flight s') = unat (se_next_seqno s) - k \<and> (\<exists>c' \<ge> c. flight_ok s' c' k) \<and>
      (if k = a then se_tcp_seg_cache s' = se_tcp_seg_cache s \<and> se_retransmission_timeout s' = se_retransmission_timeout s
       else map snd (se_tcp_seg_cache s') = drop_acked k c (map snd (se_tcp_seg_cache s)) \<and>
         (\<forall>t g rest. se_tcp_seg_cache s' = (t, g) # rest \<longrightarrow> t = se_now_time_ms s) \<and>
         se_retransmission_timeout s' = se_initial_retransmission_timeout s \<and> se_retransmission_count s' = 0)"
proof (cases "k < a \<or> unat (se_next_seqno s) < k")
  case True
  with ack_ignored [OF assms(1,3,4)] show ?thesis by (auto simp: assms(5) TCPSender_ack_received_def)
next
  case False
  then have k: "a \<le> k" "k \<le> unat (se_next_seqno s)" by auto
  note A = ack_accepted [OF assms(1) k assms(2), of w, folded assms(5)]
  then obtain c' where c': "c \<le> c'" "flight_ok s' c' k" by blast
  have "se_next_seqno s' = se_next_seqno s" unfolding assms(5) by (rule ack_next_seqno)
  with in_flight_bytes [OF c'(2)] have "unat (TCPSender_bytes_in_flight s') = unat (se_next_seqno s) - k" by simp
  moreover have "se_tcp_seg_cache s' = se_tcp_seg_cache s \<and> se_retransmission_timeout s' = se_retransmission_timeout s"
    if "k = a"
  proof -
    have e: "s' = s\<lparr>se_window_size := se_window_size s', se_window_used_size := se_window_used_size s'\<rparr>" using A that by blast
    show ?thesis using arg_cong [OF e, of se_tcp_seg_cache] arg_cong [OF e, of se_retransmission_timeout] by simp
  qed
  ultimately show ?thesis using A False c' by (auto simp: used_after_def)
qed

text \<open>
  C23: the retransmission timer. Whatever ticks make up the time, nothing is sent before the
  timeout has passed since the oldest outstanding segment was (re)sent; when it passes, exactly that
  segment is sent again. As long as no acknowledgment arrives, \<open>n\<close> expirations send it \<open>n\<close> times. With a window that
  is not zero they count \<open>n\<close> retransmissions and multiply the timeout by \<open>2 ^ n\<close>; with a window of zero
  the count and the timeout stay as they are.
\<close>
theorem TCPSender_backoff:
  assumes "awaiting g 0 s"
    and "if se_window_size s = 0 then level_rounds (unat (se_retransmission_timeout s)) rs
      else rounds (unat (se_retransmission_timeout s)) rs \<and> unat (se_retransmission_timeout s) * 2 ^ length rs < 2 ^ 32"
    and "sum_list (map unat ds) < unat (se_retransmission_timeout s)"
  shows "se_segments_out (ticks ds s) = se_segments_out s \<and>
    se_segments_out (ticks (round_ticks rs) s) = se_segments_out s @ replicate (length rs) g \<and>
    se_retransmission_count (ticks (round_ticks rs) s) =
      (if se_window_size s = 0 then se_retransmission_count s else se_retransmission_count s + of_nat (length rs)) \<and>
    se_retransmission_timeout (ticks (round_ticks rs) s) =
      (if se_window_size s = 0 then se_retransmission_timeout s else se_retransmission_timeout s * 2 ^ length rs)"
proof -
  obtain now c where "ticks ds s = s\<lparr>se_now_time_ms := now, se_tcp_seg_cache := c\<rparr>"
    using ticks_quiet [OF assms(1), of ds] assms(3) by auto
  then have q: "se_segments_out (ticks ds s) = se_segments_out s" by simp
  show ?thesis
  proof (cases "se_window_size s = 0")
    case True
    with level_backoff [OF assms(1) True, of rs] assms(2) q show ?thesis by auto
  next
    case False
    with backoff [OF assms(1) False, of rs] assms(2) q show ?thesis by auto
  qed
qed

text \<open>
  C24: with a closed window every repetition of the latest acknowledgment sets the window in use
  back to 0, so the next \<open>fill_window\<close> takes one more byte from the stream and sends it although
  the bytes sent before are outstanding. After \<open>n\<close> repetitions the first \<open>n\<close> bytes of the stream have gone out
  in \<open>n\<close> segments of one byte each, at consecutive sequence numbers, and nothing more has been acknowledged.
\<close>
theorem TCPSender_zero_window_overrun:
  assumes "flight_ok s c a" and "a + unat (se_window_used_size s) \<le> unat (se_next_seqno s)"
    and "bs_inv (se_stream s)" and "n \<le> length (bs_contents (se_stream s))"
    and "unat (se_next_seqno s) + n < 2 ^ 64" and "unat (se_next_seqno s) + n < c + 2 ^ 31"
  shows "\<exists>s'. closed_rounds n s = Some s' \<and>
    se_segments_out s' = se_segments_out s @
      map (\<lambda>i. one_byte (wrap (se_next_seqno s + of_nat i) (se_isn s)) (bs_contents (se_stream s) ! i)) [0..<n] \<and>
    bs_contents (se_stream s') = drop n (bs_contents (se_stream s)) \<and>
    unat (TCPSender_bytes_in_flight s') = unat (TCPSender_bytes_in_flight s) + n \<and> se_latest_ackno s' = se_latest_ackno s"
proof -
  have "sender_fits s c a" using assms(1-3) by (simp add: sender_fits_def)
  from closed_rounds_send [OF this assms(4-6)] obtain s' where s': "closed_rounds n s = Some s'" "sender_fits s' c a"
    "bs_contents (se_stream s') = drop n (bs_contents (se_stream s))" "se_segments_out s' = se_segments_out s @
      map (\<lambda>i. one_byte (wrap (se_next_seqno s + of_nat i) (se_isn s)) (bs_contents (se_stream s) ! i)) [0..<n]"
    "unat (se_next_seqno s') = unat (se_next_seqno s) + n" "se_latest_ackno s' = se_latest_ackno s" by blast
  have "unat (TCPSender_bytes_in_flight s') = unat (TCPSender_bytes_in_flight s) + n"
    using in_flight_bytes [of s' c a] in_flight_bytes [OF assms(1)] s'(2,5) assms(1) by (auto simp: sender_fits_def flight_ok_def)
  with s' show ?thesis by blast
qed

text \<open>A sender that has sent its SYN and then the byte 7.\<close>

definition syn_segment :: TCPSegment where
  "syn_segment = TCPSegment_default\<lparr>ts_header := TCPHeader_default\<lparr>th_seqno := WrappingInt32 5, th_syn := True\<rparr>\<rparr>"

definition syn_sender :: TCPSender where
  "syn_sender = (TCPSender_new 10 1000 (Some (WrappingInt32 5)) 0)\<lparr>se_syned := True, se_next_seqno := 1,
     se_window_used_size := 1, se_segments_out := [syn_segment], se_tcp_seg_cache := [(0, syn_segment)]\<rparr>"

lemma length_syn_segment: "length_in_sequence_space syn_segment = 1"
  by code_simp

lemma flight_ok_syn_sender: "flight_ok syn_sender 0 0"
proof -
  have "wrap 0 (WrappingInt32 5) = WrappingInt32 5" "wrap (of_nat 0) (WrappingInt32 5) = WrappingInt32 5" by code_simp+
  then show ?thesis
    by (simp add: flight_ok_def syn_sender_def TCPSender_new_def Let_def length_syn_segment)
       (simp add: syn_segment_def)
qed

theorem TCPSender_ack_received_spec_witness:
  "unat (TCPSender_bytes_in_flight (TCPSender_ack_received (WrappingInt32 6) 100 syn_sender)) = 0 \<and>
   TCPSender_ack_received (WrappingInt32 7) 100 syn_sender = syn_sender"
proof -
  have n: "se_next_seqno syn_sender = 1" "se_window_used_size syn_sender = 1" "se_isn syn_sender = WrappingInt32 5"
    by (simp_all add: syn_sender_def TCPSender_new_def Let_def)
  have w: "wrap (of_nat 1) (WrappingInt32 5) = WrappingInt32 6" "wrap (of_nat 2) (WrappingInt32 5) = WrappingInt32 7" by code_simp+
  have u: "0 + unat (se_window_used_size syn_sender) \<le> unat (se_next_seqno syn_sender)" by (simp add: n)
  have d: "ndist 1 (unat (se_next_seqno syn_sender)) < 2 ^ 31" "ndist 2 (unat (se_next_seqno syn_sender)) < 2 ^ 31"
    by (simp_all add: n ndist_def)
  show ?thesis
    using TCPSender_ack_received_spec [OF flight_ok_syn_sender u d(1) _ refl, of 100]
      TCPSender_ack_received_spec [OF flight_ok_syn_sender u d(2) _ refl, of 100]
    unfolding n w by simp
qed

theorem TCPSender_backoff_witness:
  "se_segments_out (ticks [400, 700, 2000] syn_sender) = [syn_segment, syn_segment, syn_segment] \<and>
   se_retransmission_timeout (ticks [400, 700, 2000] syn_sender) = 4000"
proof -
  have t: "se_retransmission_timeout syn_sender = 1000" "se_segments_out syn_sender = [syn_segment]" "se_window_size syn_sender \<noteq> 0"
    by (simp_all add: syn_sender_def TCPSender_new_def Let_def)
  have "awaiting syn_segment 0 syn_sender"
    unfolding awaiting_def by (rule conjI, code_simp) (simp add: syn_sender_def TCPSender_new_def Let_def)
  from TCPSender_backoff [OF this, of "[([400], 700), ([], 2000)]" "[400]"] show ?thesis
    by (simp add: t)
qed

theorem TCPSender_zero_window_overrun_witness:
  "\<exists>s'. closed_rounds 2 (syn_sender\<lparr>se_stream := snd (ByteStream_write [7, 8] (se_stream syn_sender))\<rparr>) = Some s' \<and>
     se_segments_out s' = [syn_segment, one_byte (WrappingInt32 6) 7, one_byte (WrappingInt32 7) 8]"
proof -
  define s where "s = syn_sender\<lparr>se_stream := snd (ByteStream_write [7, 8] (se_stream syn_sender))\<rparr>"
  have f: "flight_ok s 0 0" using flight_ok_syn_sender by (simp add: flight_ok_def s_def)
  have e: "se_segments_out s = [syn_segment]" "0 + unat (se_window_used_size s) \<le> unat (se_next_seqno s)" "se_next_seqno s = 1"
    "se_isn s = WrappingInt32 5"
    by (simp_all add: s_def syn_sender_def TCPSender_new_def Let_def)
  have i: "bs_inv (se_stream syn_sender)" by (simp add: syn_sender_def TCPSender_new_def Let_def bs_inv_new)
  have b: "bs_inv (se_stream s)" "bs_contents (se_stream s) = [7, 8]"
    using write_spec(2,3) [OF i, of "[7, 8]" "fst (ByteStream_write [7, 8] (se_stream syn_sender))"]
    by (simp_all add: s_def) code_simp
  have w: "wrap 1 (WrappingInt32 5) = WrappingInt32 6" "wrap 2 (WrappingInt32 5) = WrappingInt32 7" by code_simp+
  from TCPSender_zero_window_overrun [OF f e(2) b(1), of 2] show ?thesis
    unfolding s_def [symmetric] by (auto simp: b(2) e w upt_rec)
qed

end
