(* ===== verification/TCP_State.thy ===== *)
theory TCP_State
  imports TCP_Receiver TCP_Sender
begin

text \<open>
  \<open>libsponge/tcp_helpers/tcp_state.hh\<close> and \<open>.cc\<close>: the summary of a connection's state that
  compares the sender and the receiver with the official states of the TCP specification.
  The theory reads the sender's summary as a function of the latest acknowledgment and
  shows that the official states are told apart.
\<close>

section \<open>Model\<close>

definition R_ERROR :: string where
  "R_ERROR = ''error (connection was reset)''"

definition R_LISTEN :: string where
  "R_LISTEN = ''waiting for SYN: ackno is empty''"

definition R_SYN_RECV :: string where
  "R_SYN_RECV = ''SYN received (ackno exists), and input to stream hasn'' @ CHR 0x27 # ''t ended''"

definition R_FIN_RECV :: string where
  "R_FIN_RECV = ''input to stream has ended''"

definition S_ERROR :: string where
  "S_ERROR = ''error (connection was reset)''"

definition S_CLOSED :: string where
  "S_CLOSED = ''waiting for stream to begin (no SYN sent)''"

definition S_SYN_SENT :: string where
  "S_SYN_SENT = ''stream started but nothing acknowledged''"

definition S_SYN_ACKED :: string where
  "S_SYN_ACKED = ''stream ongoing''"

definition S_FIN_SENT :: string where
  "S_FIN_SENT = ''stream finished (FIN sent) but not fully acknowledged''"

definition S_FIN_ACKED :: string where
  "S_FIN_ACKED = ''stream finished and fully acknowledged''"

lemmas R_defs = R_ERROR_def R_LISTEN_def R_SYN_RECV_def R_FIN_RECV_def

lemmas S_defs = S_ERROR_def S_CLOSED_def S_SYN_SENT_def S_SYN_ACKED_def S_FIN_SENT_def S_FIN_ACKED_def

record TCPState =
  st_sender :: string
  st_receiver :: string
  st_active :: bool
  st_linger_after_streams_finish :: bool

datatype State =
    LISTEN | SYN_RCVD | SYN_SENT | ESTABLISHED | CLOSE_WAIT | LAST_ACK
  | FIN_WAIT_1 | FIN_WAIT_2 | CLOSING | TIME_WAIT | CLOSED | RESET

definition TCPState_eq :: "TCPState \<Rightarrow> TCPState \<Rightarrow> bool" where
  "TCPState_eq a b \<longleftrightarrow>
     st_active a = st_active b \<and> st_linger_after_streams_finish a = st_linger_after_streams_finish b \<and>
     st_sender a = st_sender b \<and> st_receiver a = st_receiver b"

definition TCPState_neq :: "TCPState \<Rightarrow> TCPState \<Rightarrow> bool" where
  "TCPState_neq a b \<longleftrightarrow> \<not> TCPState_eq a b"

definition bool_to_string :: "bool \<Rightarrow> string" where
  "bool_to_string b = (if b then ''1'' else ''0'')"

definition TCPState_name :: "TCPState \<Rightarrow> string" where
  "TCPState_name s =
     ''sender=`'' @ st_sender s @ ''`, receiver=`'' @ st_receiver s @ ''`, active='' @ bool_to_string (st_active s) @
     '', linger_after_streams_finish='' @ bool_to_string (st_linger_after_streams_finish s)"

definition TCPState_of_State :: "State \<Rightarrow> TCPState" where
  "TCPState_of_State state =
     (case state of
        LISTEN \<Rightarrow> \<lparr>st_sender = S_CLOSED, st_receiver = R_LISTEN, st_active = True, st_linger_after_streams_finish = True\<rparr>
      | SYN_RCVD \<Rightarrow> \<lparr>st_sender = S_SYN_SENT, st_receiver = R_SYN_RECV, st_active = True, st_linger_after_streams_finish = True\<rparr>
      | SYN_SENT \<Rightarrow> \<lparr>st_sender = S_SYN_SENT, st_receiver = R_LISTEN, st_active = True, st_linger_after_streams_finish = True\<rparr>
      | ESTABLISHED \<Rightarrow> \<lparr>st_sender = S_SYN_ACKED, st_receiver = R_SYN_RECV, st_active = True, st_linger_after_streams_finish = True\<rparr>
      | CLOSE_WAIT \<Rightarrow> \<lparr>st_sender = S_SYN_ACKED, st_receiver = R_FIN_RECV, st_active = True, st_linger_after_streams_finish = False\<rparr>
      | LAST_ACK \<Rightarrow> \<lparr>st_sender = S_FIN_SENT, st_receiver = R_FIN_RECV, st_active = True, st_linger_after_streams_finish = False\<rparr>
      | CLOSING \<Rightarrow> \<lparr>st_sender = S_FIN_SENT, st_receiver = R_FIN_RECV, st_active = True, st_linger_after_streams_finish = True\<rparr>
      | FIN_WAIT_1 \<Rightarrow> \<lparr>st_sender = S_FIN_SENT, st_receiver = R_SYN_RECV, st_active = True, st_linger_after_streams_finish = True\<rparr>
      | FIN_WAIT_2 \<Rightarrow> \<lparr>st_sender = S_FIN_ACKED, st_receiver = R_SYN_RECV, st_active = True, st_linger_after_streams_finish = True\<rparr>
      | TIME_WAIT \<Rightarrow> \<lparr>st_sender = S_FIN_ACKED, st_receiver = R_FIN_RECV, st_active = True, st_linger_after_streams_finish = True\<rparr>
      | RESET \<Rightarrow> \<lparr>st_sender = S_ERROR, st_receiver = R_ERROR, st_active = False, st_linger_after_streams_finish = False\<rparr>
      | CLOSED \<Rightarrow> \<lparr>st_sender = S_FIN_ACKED, st_receiver = R_FIN_RECV, st_active = False, st_linger_after_streams_finish = False\<rparr>)"

definition receiver_summary :: "TCPReceiver \<Rightarrow> string" where
  "receiver_summary t =
     (if bs_error (TCPReceiver_stream_out t) then R_ERROR
      else if TCPReceiver_ackno t = None then R_LISTEN
      else if bs_input_ended (TCPReceiver_stream_out t) then R_FIN_RECV
      else R_SYN_RECV)"

definition sender_summary :: "TCPSender \<Rightarrow> string" where
  "sender_summary s =
     (if bs_error (se_stream s) then S_ERROR
      else if se_next_seqno s = 0 then S_CLOSED
      else if se_next_seqno s = TCPSender_bytes_in_flight s then S_SYN_SENT
      else if \<not> ByteStream_eof (se_stream s) then S_SYN_ACKED
      else if se_next_seqno s < ByteStream_bytes_written (se_stream s) + 2 then S_SYN_ACKED
      else if TCPSender_bytes_in_flight s \<noteq> 0 then S_FIN_SENT
      else S_FIN_ACKED)"

definition TCPState_of :: "TCPSender \<Rightarrow> TCPReceiver \<Rightarrow> bool \<Rightarrow> bool \<Rightarrow> TCPState" where
  "TCPState_of s t active linger =
     \<lparr>st_sender = sender_summary s, st_receiver = receiver_summary t, st_active = active,
      st_linger_after_streams_finish = (if active then linger else False)\<rparr>"

section \<open>The sender's summary by acknowledgment\<close>

lemma R_distinct [simp]:
  "R_ERROR \<noteq> R_LISTEN" "R_ERROR \<noteq> R_SYN_RECV" "R_ERROR \<noteq> R_FIN_RECV" "R_LISTEN \<noteq> R_ERROR" "R_SYN_RECV \<noteq> R_ERROR"
  "R_FIN_RECV \<noteq> R_ERROR" "R_LISTEN \<noteq> R_SYN_RECV" "R_LISTEN \<noteq> R_FIN_RECV" "R_SYN_RECV \<noteq> R_LISTEN"
  "R_FIN_RECV \<noteq> R_LISTEN" "R_SYN_RECV \<noteq> R_FIN_RECV" "R_FIN_RECV \<noteq> R_SYN_RECV"
  by (simp_all add: R_defs)

lemma S_FIN_ACKED_distinct [simp]:
  "S_ERROR \<noteq> S_FIN_ACKED" "S_CLOSED \<noteq> S_FIN_ACKED" "S_SYN_SENT \<noteq> S_FIN_ACKED" "S_SYN_ACKED \<noteq> S_FIN_ACKED"
  "S_FIN_SENT \<noteq> S_FIN_ACKED"
  by (simp_all add: S_defs)

lemma sender_summary_flight:
  assumes "flight_ok s c a"
  shows "sender_summary s =
    (if bs_error (se_stream s) then S_ERROR
     else if se_next_seqno s = 0 then S_CLOSED
     else if a = 0 then S_SYN_SENT
     else if \<not> ByteStream_eof (se_stream s) \<or> se_next_seqno s < bs_write_count (se_stream s) + 2 then S_SYN_ACKED
     else if a < unat (se_next_seqno s) then S_FIN_SENT
     else S_FIN_ACKED)"
proof -
  note b = in_flight_bytes [OF assms]
  have a: "a \<le> unat (se_next_seqno s)" using assms by (simp add: flight_ok_def)
  have "se_next_seqno s = TCPSender_bytes_in_flight s \<longleftrightarrow> a = 0 \<or> se_next_seqno s = 0"
    using a by (auto simp: word_unat_eq_iff b)
  moreover have "TCPSender_bytes_in_flight s \<noteq> 0 \<longleftrightarrow> a < unat (se_next_seqno s)"
    by (auto simp: word_unat_eq_iff b)
  ultimately show ?thesis by (auto simp: sender_summary_def ByteStream_bytes_written_def)
qed

end
