(* ===== verification/TCP_Connection.thy ===== *)
theory TCP_Connection
  imports TCP_State
begin

text \<open>
  \<open>libsponge/tcp_connection.hh\<close> and \<open>.cc\<close>, with the \<open>TCPConfig\<close> of \<open>tcp_helpers/tcp_config.hh\<close>: an endpoint
  joins a sender and a receiver, stamps outgoing segments with acknowledgment and window,
  resets on RST or after too many retransmissions and decides when it is done. Every
  operation that fills the window is partial: \<open>None\<close> is the trap of \<open>ByteStream::read\<close> on a stream of capacity 0,
  and the theory shows that it does not occur on proper connections.
\<close>

section \<open>Model\<close>

record TCPConfig =
  cf_rt_timeout :: u16
  cf_recv_capacity :: size_t
  cf_send_capacity :: size_t
  cf_fixed_isn :: "WrappingInt32 option"

definition TCPConfig_default :: TCPConfig where
  "TCPConfig_default =
     \<lparr>cf_rt_timeout = TIMEOUT_DFLT, cf_recv_capacity = DEFAULT_CAPACITY, cf_send_capacity = DEFAULT_CAPACITY,
      cf_fixed_isn = None\<rparr>"

record TCPConnection =
  cn_cfg :: TCPConfig
  cn_receiver :: TCPReceiver
  cn_sender :: TCPSender
  cn_segments_out :: "TCPSegment list"
  cn_linger_after_streams_finish :: bool
  cn_now_time_ms :: u64
  cn_seg_received_time_ms :: u64
  cn_active :: bool

definition TCPConnection_new :: "TCPConfig \<Rightarrow> u32 \<Rightarrow> TCPConnection" where
  "TCPConnection_new cfg random =
     \<lparr>cn_cfg = cfg, cn_receiver = TCPReceiver_new (cf_recv_capacity cfg),
      cn_sender = TCPSender_new (cf_send_capacity cfg) (cf_rt_timeout cfg) (cf_fixed_isn cfg) random,
      cn_segments_out = [], cn_linger_after_streams_finish = True, cn_now_time_ms = 0,
      cn_seg_received_time_ms = 0, cn_active = True\<rparr>"

definition TCPConnection_remaining_outbound_capacity :: "TCPConnection \<Rightarrow> size_t" where
  "TCPConnection_remaining_outbound_capacity c = ByteStream_remaining_capacity (se_stream (cn_sender c))"

definition TCPConnection_bytes_in_flight :: "TCPConnection \<Rightarrow> size_t" where
  "TCPConnection_bytes_in_flight c = TCPSender_bytes_in_flight (cn_sender c)"

definition TCPConnection_unassembled_bytes :: "TCPConnection \<Rightarrow> size_t" where
  "TCPConnection_unassembled_bytes c = TCPReceiver_unassembled_bytes (cn_receiver c)"

definition TCPConnection_time_since_last_segment_received :: "TCPConnection \<Rightarrow> size_t" where
  "TCPConnection_time_since_last_segment_received c = cn_now_time_ms c - cn_seg_received_time_ms c"

definition TCPConnection_state :: "TCPConnection \<Rightarrow> TCPState" where
  "TCPConnection_state c =
     TCPState_of (cn_sender c) (cn_receiver c) (cn_active c) (cn_linger_after_streams_finish c)"

subsection \<open>Private operations\<close>

definition send_rst_seg :: "TCPConnection \<Rightarrow> TCPConnection" where
  "send_rst_seg c =
     c\<lparr>cn_sender := (cn_sender c)\<lparr>se_segments_out := se_segments_out (cn_sender c) @
         [TCPSegment_default\<lparr>ts_header := TCPHeader_default\<lparr>th_seqno := TCPSender_next_seqno (cn_sender c),
            th_rst := True\<rparr>\<rparr>]\<rparr>\<rparr>"

definition set_rst_state :: "TCPConnection \<Rightarrow> TCPConnection" where
  "set_rst_state c =
     (let s = cn_sender c; t = cn_receiver c
      in c\<lparr>cn_active := False, cn_linger_after_streams_finish := False,
           cn_sender := s\<lparr>se_stream := ByteStream_set_error (se_stream s)\<rparr>,
           cn_receiver := t\<lparr>tr_reassembler := (tr_reassembler t)\<lparr>sr_output := ByteStream_set_error (TCPReceiver_stream_out t)\<rparr>\<rparr>\<rparr>)"

definition with_ackno_and_win :: "TCPReceiver \<Rightarrow> TCPSegment \<Rightarrow> TCPSegment" where
  "with_ackno_and_win t seg =
     seg\<lparr>ts_header := (ts_header seg)\<lparr>th_ack := (receiver_summary t \<noteq> R_LISTEN),
       th_ackno := (case TCPReceiver_ackno t of Some n \<Rightarrow> n | None \<Rightarrow> WrappingInt32 0),
       th_win := (if TCPReceiver_window_size t > 65535 then 65535 else ucast (TCPReceiver_window_size t))\<rparr>\<rparr>"

definition send_with_ackno_and_win :: "TCPConnection \<Rightarrow> TCPConnection" where
  "send_with_ackno_and_win c =
     c\<lparr>cn_segments_out := cn_segments_out c @ map (with_ackno_and_win (cn_receiver c)) (se_segments_out (cn_sender c)),
       cn_sender := (cn_sender c)\<lparr>se_segments_out := []\<rparr>\<rparr>"

text \<open>The sender of the connection fills its window.\<close>

definition conn_fill_window :: "TCPConnection \<Rightarrow> TCPConnection option" where
  "conn_fill_window c = map_option (\<lambda>s. c\<lparr>cn_sender := s\<rparr>) (TCPSender_fill_window (cn_sender c))"

subsection \<open>Interface of the owner\<close>

text \<open>The segment goes to the receiver, its acknowledgment to the sender; then the linger flag is decided.\<close>

definition take_segment :: "TCPSegment \<Rightarrow> TCPConnection \<Rightarrow> TCPConnection" where
  "take_segment seg c =
     (let h = ts_header seg;
          t = TCPReceiver_segment_received seg (cn_receiver c);
          s = (if th_ack h then TCPSender_ack_received (th_ackno h) (th_win h) (cn_sender c) else cn_sender c);
          linger = (if bs_input_ended (TCPReceiver_stream_out t) \<and> \<not> ByteStream_eof (se_stream s) then False
                    else cn_linger_after_streams_finish c)
      in c\<lparr>cn_receiver := t, cn_sender := s, cn_linger_after_streams_finish := linger\<rparr>)"

definition both_streams_finished :: "TCPConnection \<Rightarrow> bool" where
  "both_streams_finished c \<longleftrightarrow>
     receiver_summary (cn_receiver c) = R_FIN_RECV \<and> sender_summary (cn_sender c) = S_FIN_ACKED"

text \<open>An empty segment is sent when nothing else answers the segment.\<close>

definition answer_segment :: "TCPSegment \<Rightarrow> WrappingInt32 \<Rightarrow> TCPConnection \<Rightarrow> TCPConnection" where
  "answer_segment seg ackno c =
     (if se_segments_out (cn_sender c) = [] \<and>
         (length_in_sequence_space seg \<noteq> 0 \<or> wi_eq (th_seqno (ts_header seg)) (wi_sub ackno 1))
      then c\<lparr>cn_sender := TCPSender_send_empty_segment (cn_sender c)\<rparr> else c)"

definition TCPConnection_segment_received :: "TCPSegment \<Rightarrow> TCPConnection \<Rightarrow> TCPConnection option" where
  "TCPConnection_segment_received seg c0 =
     (let c = c0\<lparr>cn_seg_received_time_ms := cn_now_time_ms c0\<rparr>
      in if th_rst (ts_header seg) then Some (set_rst_state c)
         else
           let c1 = take_segment seg c
           in if both_streams_finished c1 \<and> \<not> cn_linger_after_streams_finish c1
              then Some (c1\<lparr>cn_active := False\<rparr>)
              else
                (case TCPReceiver_ackno (cn_receiver c1) of
                   None \<Rightarrow> Some (send_with_ackno_and_win c1)
                 | Some ackno \<Rightarrow>
                     (case conn_fill_window c1 of
                        None \<Rightarrow> None
                      | Some c2 \<Rightarrow> Some (send_with_ackno_and_win (answer_segment seg ackno c2)))))"

definition TCPConnection_write :: "bytes \<Rightarrow> TCPConnection \<Rightarrow> (size_t \<times> TCPConnection) option" where
  "TCPConnection_write data c =
     (let (write_len, stream) = ByteStream_write data (se_stream (cn_sender c))
      in case conn_fill_window (c\<lparr>cn_sender := (cn_sender c)\<lparr>se_stream := stream\<rparr>\<rparr>) of
           None \<Rightarrow> None
         | Some c' \<Rightarrow> Some (write_len, send_with_ackno_and_win c'))"

definition TCPConnection_tick :: "size_t \<Rightarrow> TCPConnection \<Rightarrow> TCPConnection" where
  "TCPConnection_tick ms c0 =
     (let c = c0\<lparr>cn_now_time_ms := cn_now_time_ms c0 + ms, cn_sender := TCPSender_tick ms (cn_sender c0)\<rparr>;
          c1 = (if TCPSender_consecutive_retransmissions (cn_sender c) > MAX_RETX_ATTEMPTS
                then set_rst_state (send_rst_seg (c\<lparr>cn_sender := (cn_sender c)\<lparr>se_segments_out := []\<rparr>\<rparr>)) else c);
          c2 = send_with_ackno_and_win c1
      in if both_streams_finished c2 \<and> cn_linger_after_streams_finish c2 \<and>
            cn_now_time_ms c2 - cn_seg_received_time_ms c2 \<ge> 10 * ucast (cf_rt_timeout (cn_cfg c2))
         then c2\<lparr>cn_active := False\<rparr> else c2)"

definition TCPConnection_end_input_stream :: "TCPConnection \<Rightarrow> TCPConnection option" where
  "TCPConnection_end_input_stream c =
     map_option send_with_ackno_and_win
       (conn_fill_window (c\<lparr>cn_sender := (cn_sender c)\<lparr>se_stream := ByteStream_end_input (se_stream (cn_sender c))\<rparr>\<rparr>))"

definition TCPConnection_connect :: "TCPConnection \<Rightarrow> TCPConnection option" where
  "TCPConnection_connect c = map_option send_with_ackno_and_win (conn_fill_window c)"

text \<open>The destructor sends a RST when the connection is still active.\<close>

definition TCPConnection_destroy :: "TCPConnection \<Rightarrow> TCPConnection" where
  "TCPConnection_destroy c =
     (if cn_active c then send_with_ackno_and_win (set_rst_state (send_rst_seg c)) else c)"

text \<open>The reader takes bytes from \<open>inbound_stream()\<close>.\<close>

definition TCPConnection_read :: "size_t \<Rightarrow> TCPConnection \<Rightarrow> (bytes \<times> TCPConnection) option" where
  "TCPConnection_read n c =
     map_option (\<lambda>(d, t). (d, c\<lparr>cn_receiver := t\<rparr>)) (TCPReceiver_read n (cn_receiver c))"

text \<open>The owner takes the queued segments.\<close>

definition TCPConnection_drain :: "TCPConnection \<Rightarrow> TCPSegment list \<times> TCPConnection" where
  "TCPConnection_drain c = (cn_segments_out c, c\<lparr>cn_segments_out := []\<rparr>)"

section \<open>Steps of one endpoint\<close>

inductive conn_step :: "TCPConnection \<Rightarrow> TCPConnection \<Rightarrow> bool" where
  cs_connect: "TCPConnection_connect c = Some c' \<Longrightarrow> conn_step c c'"
| cs_write: "length d < 2 ^ 64 \<Longrightarrow> TCPConnection_write d c = Some (n, c') \<Longrightarrow> conn_step c c'"
| cs_end_input_stream: "TCPConnection_end_input_stream c = Some c' \<Longrightarrow> conn_step c c'"
| cs_segment_received: "TCPConnection_segment_received seg c = Some c' \<Longrightarrow> conn_step c c'"
| cs_tick: "conn_step c (TCPConnection_tick ms c)"
| cs_read: "TCPConnection_read n c = Some (d, c') \<Longrightarrow> conn_step c c'"
| cs_drain: "conn_step c (snd (TCPConnection_drain c))"

inductive_cases conn_stepE: "conn_step c c'"

definition conn_init :: "TCPConfig \<Rightarrow> u32 \<Rightarrow> TCPConnection \<Rightarrow> bool" where
  "conn_init cfg random c \<longleftrightarrow>
     0 < unat (cf_send_capacity cfg) \<and> unat (cf_send_capacity cfg) < 2 ^ 63 \<and> c = TCPConnection_new cfg random"

text \<open>
  Between the operations the outgoing stream is proper, the window came from a segment, and
  the sender has no segment that the connection has not stamped and queued.
\<close>

definition conn_ok :: "TCPConnection \<Rightarrow> bool" where
  "conn_ok c \<longleftrightarrow>
     bs_inv (se_stream (cn_sender c)) \<and> unat (se_window_size (cn_sender c)) < 2 ^ 16 \<and>
     se_segments_out (cn_sender c) = []"

definition sender_ok :: "TCPSender \<Rightarrow> bool" where
  "sender_ok s \<longleftrightarrow> bs_inv (se_stream s) \<and> unat (se_window_size s) < 2 ^ 16"

lemma conn_ok_iff: "conn_ok c \<longleftrightarrow> sender_ok (cn_sender c) \<and> se_segments_out (cn_sender c) = []"
  by (auto simp: conn_ok_def sender_ok_def)

lemma sender_ok_ack_received: "sender_ok s \<Longrightarrow> sender_ok (TCPSender_ack_received k w s)"
  using unat_lt_16 [of w] by (simp add: sender_ok_def TCPSender_ack_received_def Let_def unat_ucast_up)

lemma ack_segments_out: "se_segments_out (TCPSender_ack_received k w s) = se_segments_out s"
  by (simp add: TCPSender_ack_received_def Let_def)

lemma sender_ok_tick: "sender_ok s \<Longrightarrow> sender_ok (TCPSender_tick d s)"
  by (simp add: sender_ok_def TCPSender_tick_def Let_def split: list.splits)

lemma bs_inv_flags [simp]:
  "bs_inv (ByteStream_set_error bs) = bs_inv bs" "bs_inv (ByteStream_end_input bs) = bs_inv bs"
  by (simp_all add: bs_inv_def ByteStream_set_error_def ByteStream_end_input_def)

lemma fill_window_filled:
  assumes "sender_ok s"
  shows "\<exists>s' gs. TCPSender_fill_window s = Some s' \<and> filled s gs s' \<and> sender_ok s'"
proof -
  have "bs_inv (se_stream s)" "unat (se_window_size s) < 2 ^ 32" using assms by (auto simp: sender_ok_def)
  from fill_zero_window_spec [OF this(1)] fill_loop_spec [OF this] have
    "\<exists>s' gs. TCPSender_fill_window s = Some s' \<and> filled s gs s'" by (auto simp: TCPSender_fill_window_def)
  with assms show ?thesis by (auto simp: filled_def sender_ok_def)
qed

lemma conn_fill_window_ok:
  assumes "sender_ok (cn_sender c)"
  obtains s' gs where "conn_fill_window c = Some (c\<lparr>cn_sender := s'\<rparr>)" and "filled (cn_sender c) gs s'" and "sender_ok s'"
  using fill_window_filled [OF assms] by (auto simp: conn_fill_window_def)

lemma sender_ok_simps [simp]:
  "sender_ok (s\<lparr>se_segments_out := x\<rparr>) = sender_ok s" "sender_ok (TCPSender_send_empty_segment s) = sender_ok s"
  "sender_ok (s\<lparr>se_stream := ByteStream_set_error (se_stream s)\<rparr>) = sender_ok s"
  "sender_ok (s\<lparr>se_stream := ByteStream_end_input (se_stream s)\<rparr>) = sender_ok s"
  by (simp_all add: sender_ok_def TCPSender_send_empty_segment_def)

lemma sender_ok_write:
  assumes "sender_ok s" and "length d < 2 ^ 64" and "ByteStream_write d (se_stream s) = (n, st)"
  shows "sender_ok (s\<lparr>se_stream := st\<rparr>)"
  using assms write_spec(2) [OF _ assms(2,3)] by (simp add: sender_ok_def)

text \<open>
  What every operation does: it keeps the invariant, never activates the connection again,
  and queues segments that carry the acknowledgment and window of its receiver.
\<close>

definition conn_progress :: "TCPConnection \<Rightarrow> TCPConnection \<Rightarrow> bool" where
  "conn_progress c c' \<longleftrightarrow>
     conn_ok c' \<and> (cn_active c' \<longrightarrow> cn_active c) \<and>
     (\<exists>new. cn_segments_out c' = cn_segments_out c @ map (with_ackno_and_win (cn_receiver c')) new)"

lemma progress_send:
  assumes "sender_ok (cn_sender d)" and "cn_segments_out d = cn_segments_out c" and "cn_active d \<longrightarrow> cn_active c"
  shows "conn_progress c (send_with_ackno_and_win d)"
  using assms by (auto simp: conn_progress_def conn_ok_iff send_with_ackno_and_win_def)

lemma progress_fill:
  assumes "sender_ok (cn_sender d)" and "cn_segments_out d = cn_segments_out c" and "cn_active d \<longrightarrow> cn_active c"
  shows "\<exists>d'. conn_fill_window d = Some d' \<and> conn_progress c (send_with_ackno_and_win d')"
proof -
  from assms(1) obtain s' gs where "conn_fill_window d = Some (d\<lparr>cn_sender := s'\<rparr>)" "filled (cn_sender d) gs s'" "sender_ok s'"
    by (rule conn_fill_window_ok)
  then show ?thesis using progress_send [of "d\<lparr>cn_sender := s'\<rparr>" c] assms(2,3) by simp
qed

lemma connect_progress:
  assumes "conn_ok c"
  shows "\<exists>c'. TCPConnection_connect c = Some c' \<and> conn_progress c c'"
  using progress_fill [of c c] assms by (auto simp: conn_ok_iff TCPConnection_connect_def)

lemma end_input_progress:
  assumes "conn_ok c"
  shows "\<exists>c'. TCPConnection_end_input_stream c = Some c' \<and> conn_progress c c'"
proof -
  let ?d = "c\<lparr>cn_sender := (cn_sender c)\<lparr>se_stream := ByteStream_end_input (se_stream (cn_sender c))\<rparr>\<rparr>"
  show ?thesis
    using progress_fill [of ?d c] assms by (auto simp: conn_ok_iff TCPConnection_end_input_stream_def)
qed

lemma write_progress:
  assumes "conn_ok c" and "length d < 2 ^ 64"
  shows "\<exists>n c'. TCPConnection_write d c = Some (n, c') \<and> conn_progress c c'"
proof -
  obtain n st where w: "ByteStream_write d (se_stream (cn_sender c)) = (n, st)" by fastforce
  let ?d = "c\<lparr>cn_sender := (cn_sender c)\<lparr>se_stream := st\<rparr>\<rparr>"
  have "sender_ok (cn_sender ?d)" using sender_ok_write [OF _ assms(2) w] assms(1) by (simp add: conn_ok_iff)
  from progress_fill [OF this, of c] w show ?thesis by (auto simp: TCPConnection_write_def)
qed

lemma set_rst_fields [simp]:
  "cn_segments_out (set_rst_state c) = cn_segments_out c" "cn_active (set_rst_state c) = False"
  "cn_linger_after_streams_finish (set_rst_state c) = False" "cn_now_time_ms (set_rst_state c) = cn_now_time_ms c"
  "cn_cfg (set_rst_state c) = cn_cfg c" "cn_seg_received_time_ms (set_rst_state c) = cn_seg_received_time_ms c"
  "sender_ok (cn_sender (set_rst_state c)) = sender_ok (cn_sender c)"
  "se_segments_out (cn_sender (set_rst_state c)) = se_segments_out (cn_sender c)"
  "bs_error (se_stream (cn_sender (set_rst_state c)))"
  "bs_error (TCPReceiver_stream_out (cn_receiver (set_rst_state c)))"
  by (simp_all add: set_rst_state_def Let_def sender_ok_def TCPReceiver_stream_out_def ByteStream_set_error_def bs_inv_def)

lemma send_rst_fields [simp]:
  "cn_segments_out (send_rst_seg c) = cn_segments_out c" "cn_active (send_rst_seg c) = cn_active c"
  "sender_ok (cn_sender (send_rst_seg c)) = sender_ok (cn_sender c)" "cn_receiver (send_rst_seg c) = cn_receiver c"
  by (simp_all add: send_rst_seg_def)

lemma tick_progress:
  assumes "conn_ok c"
  shows "conn_progress c (TCPConnection_tick ms c)"
proof -
  define d where "d = c\<lparr>cn_now_time_ms := cn_now_time_ms c + ms, cn_sender := TCPSender_tick ms (cn_sender c)\<rparr>"
  define e where "e = (if TCPSender_consecutive_retransmissions (cn_sender d) > MAX_RETX_ATTEMPTS
    then set_rst_state (send_rst_seg (d\<lparr>cn_sender := (cn_sender d)\<lparr>se_segments_out := []\<rparr>\<rparr>)) else d)"
  have "sender_ok (cn_sender e)" "cn_segments_out e = cn_segments_out c" "cn_active e \<longrightarrow> cn_active c"
    using assms sender_ok_tick by (auto simp: e_def d_def conn_ok_iff)
  then have "conn_progress c (send_with_ackno_and_win e)" by (rule progress_send)
  then have "conn_progress c ((send_with_ackno_and_win e)\<lparr>cn_active := False\<rparr>)"
    by (simp add: conn_progress_def conn_ok_def)
  with \<open>conn_progress c (send_with_ackno_and_win e)\<close> show ?thesis
    unfolding TCPConnection_tick_def Let_def d_def [symmetric] e_def [symmetric] by (simp split: if_splits)
qed

lemma segment_received_progress:
  assumes "conn_ok c"
  shows "\<exists>c'. TCPConnection_segment_received seg c = Some c' \<and> conn_progress c c'"
proof (cases "th_rst (ts_header seg)")
  case True
  let ?d = "set_rst_state (c\<lparr>cn_seg_received_time_ms := cn_now_time_ms c\<rparr>)"
  have "conn_progress c ?d"
    using assms by (auto simp: conn_progress_def conn_ok_iff)
  with True show ?thesis by (simp add: TCPConnection_segment_received_def)
next
  case False
  define d where "d = take_segment seg (c\<lparr>cn_seg_received_time_ms := cn_now_time_ms c\<rparr>)"
  have d: "sender_ok (cn_sender d)" "se_segments_out (cn_sender d) = []" "cn_segments_out d = cn_segments_out c"
    "cn_active d \<longrightarrow> cn_active c"
    using assms sender_ok_ack_received by (auto simp: d_def take_segment_def Let_def conn_ok_iff ack_segments_out)
  obtain s' gs where f: "conn_fill_window d = Some (d\<lparr>cn_sender := s'\<rparr>)" "sender_ok s'"
    using d(1) by (rule conn_fill_window_ok)
  have "conn_progress c (send_with_ackno_and_win (answer_segment seg k (d\<lparr>cn_sender := s'\<rparr>)))" for k
    using f(2) d(3,4) by (intro progress_send) (auto simp: answer_segment_def)
  moreover have "conn_progress c (d\<lparr>cn_active := False\<rparr>)" using d by (simp add: conn_progress_def conn_ok_iff)
  moreover have "conn_progress c (send_with_ackno_and_win d)" using d by (intro progress_send) simp_all
  ultimately show ?thesis
    using False f(1) by (auto simp: TCPConnection_segment_received_def Let_def d_def [symmetric] split: option.splits)
qed

lemma read_progress:
  assumes "conn_ok c" and "TCPConnection_read n c = Some (d, c')"
  shows "conn_progress c c'"
proof -
  obtain t where "c' = c\<lparr>cn_receiver := t\<rparr>" using assms(2) by (auto simp: TCPConnection_read_def)
  then show ?thesis using assms(1) by (simp add: conn_progress_def conn_ok_def)
qed

lemma conn_progressD: "conn_progress c c' \<Longrightarrow> conn_ok c' \<and> (cn_active c' \<longrightarrow> cn_active c)"
  by (simp add: conn_progress_def)

lemma conn_step_progress:
  assumes "conn_step c c'" and "conn_ok c"
  shows "conn_ok c' \<and> (cn_active c' \<longrightarrow> cn_active c)"
  using assms(1)
proof (cases rule: conn_step.cases)
  case cs_connect
  then show ?thesis using connect_progress [OF assms(2)] conn_progressD by auto
next
  case (cs_write d n)
  then show ?thesis using write_progress [OF assms(2)] conn_progressD by fastforce
next
  case cs_end_input_stream
  then show ?thesis using end_input_progress [OF assms(2)] conn_progressD by auto
next
  case (cs_segment_received seg)
  then show ?thesis using segment_received_progress [OF assms(2), of seg] conn_progressD by auto
next
  case (cs_tick ms)
  then show ?thesis using tick_progress [OF assms(2), of ms] conn_progressD by auto
next
  case (cs_read n d)
  then show ?thesis using read_progress [OF assms(2)] conn_progressD by blast
next
  case cs_drain
  then show ?thesis using assms(2) by (simp add: TCPConnection_drain_def conn_ok_def)
qed

lemma conn_new_ok: "conn_init cfg random c \<Longrightarrow> conn_ok c"
  by (auto simp: conn_init_def conn_ok_def TCPConnection_new_def TCPSender_new_def Let_def bs_inv_new)

interpretation cn: invariant_system "conn_init cfg random" conn_step conn_ok
  by unfold_locales (auto intro: conn_new_ok dest: conn_step_progress)

section \<open>Giving up\<close>

fun conn_ticks :: "u64 list \<Rightarrow> TCPConnection \<Rightarrow> TCPConnection" where
  "conn_ticks [] c = c"
| "conn_ticks (d # ds) c = conn_ticks ds (TCPConnection_tick d c)"

lemma conn_ticks_append: "conn_ticks (ds @ es) c = conn_ticks es (conn_ticks ds c)"
  by (induction ds arbitrary: c) auto

text \<open>A connection that waits for the acknowledgment of \<open>g\<close>, after \<open>n\<close> retransmissions of it.\<close>

definition conn_waiting :: "TCPSegment \<Rightarrow> nat \<Rightarrow> nat \<Rightarrow> nat \<Rightarrow> TCPConnection \<Rightarrow> bool" where
  "conn_waiting g w rto n c \<longleftrightarrow>
     awaiting g w (cn_sender c) \<and> unat (se_retransmission_timeout (cn_sender c)) = rto \<and> se_window_size (cn_sender c) \<noteq> 0 \<and>
     se_retransmission_count (cn_sender c) = of_nat n \<and> n \<le> 8 \<and> se_segments_out (cn_sender c) = []"

lemma retransmissions_limit:
  assumes "se_retransmission_count s = of_nat n" and "n < 2 ^ 32"
  shows "TCPSender_consecutive_retransmissions s > MAX_RETX_ATTEMPTS \<longleftrightarrow> 8 < n"
  using assms by (simp add: TCPSender_consecutive_retransmissions_def MAX_RETX_ATTEMPTS_def word_less_nat_alt
      unat_ucast_down unat_of_nat_64)

lemma awaiting_queue [simp]: "awaiting g w (s\<lparr>se_segments_out := x\<rparr>) = awaiting g w s"
  using remove_acked_cong [of "s\<lparr>se_segments_out := x\<rparr>" s] by (simp add: awaiting_def)

definition rst_segment :: "TCPSender \<Rightarrow> TCPSegment" where
  "rst_segment s = TCPSegment_default\<lparr>ts_header := TCPHeader_default\<lparr>th_seqno := TCPSender_next_seqno s, th_rst := True\<rparr>\<rparr>"

text \<open>One tick without RST, up to the flag \<open>_active\<close>.\<close>

lemma conn_tick_plain:
  assumes "\<not> TCPSender_consecutive_retransmissions (TCPSender_tick d (cn_sender c)) > MAX_RETX_ATTEMPTS"
  shows "cn_sender (TCPConnection_tick d c) = (TCPSender_tick d (cn_sender c))\<lparr>se_segments_out := []\<rparr>"
    and "cn_receiver (TCPConnection_tick d c) = cn_receiver c"
    and "cn_segments_out (TCPConnection_tick d c) =
      cn_segments_out c @ map (with_ackno_and_win (cn_receiver c)) (se_segments_out (TCPSender_tick d (cn_sender c)))"
  using assms by (simp_all add: TCPConnection_tick_def Let_def send_with_ackno_and_win_def)

lemma conn_tick_quiet:
  assumes c: "conn_waiting g w rto n c" and d: "w + unat d < rto"
  shows "conn_waiting g (w + unat d) rto n (TCPConnection_tick d c) \<and> cn_receiver (TCPConnection_tick d c) = cn_receiver c \<and>
    cn_segments_out (TCPConnection_tick d c) = cn_segments_out c"
proof -
  let ?s = "cn_sender c"
  have a: "awaiting g w ?s" "unat (se_retransmission_timeout ?s) = rto" "se_retransmission_count ?s = of_nat n" "n \<le> 8"
    "se_segments_out ?s = []" "se_window_size ?s \<noteq> 0" using c by (auto simp: conn_waiting_def)
  have "w + unat d < 2 ^ 64" using d a(2) unat_lt_32 [of "se_retransmission_timeout ?s"] by simp
  from tick_awaiting [OF a(1) this] d a(2) obtain e where t: "awaiting g (w + unat d) (TCPSender_tick d ?s)"
    "TCPSender_tick d ?s = ?s\<lparr>se_now_time_ms := se_now_time_ms ?s + d, se_tcp_seg_cache := e\<rparr>" by auto
  have "\<not> TCPSender_consecutive_retransmissions (TCPSender_tick d ?s) > MAX_RETX_ATTEMPTS"
    using retransmissions_limit [of "TCPSender_tick d ?s" n] a(3,4) t(2) by simp
  note P = conn_tick_plain [OF this]
  show ?thesis using a t(1) by (simp add: conn_waiting_def P t(2))
qed

lemma conn_tick_expires:
  assumes c: "conn_waiting g w rto n c" and d: "rto \<le> w + unat d" "w + unat d < 2 ^ 64"
  shows "n < 8 \<Longrightarrow> 2 * rto < 2 ^ 32 \<Longrightarrow> conn_waiting g 0 (2 * rto) (n + 1) (TCPConnection_tick d c) \<and>
      cn_receiver (TCPConnection_tick d c) = cn_receiver c \<and>
      cn_segments_out (TCPConnection_tick d c) = cn_segments_out c @ [with_ackno_and_win (cn_receiver c) g]"
    and "n = 8 \<Longrightarrow> \<not> cn_active (TCPConnection_tick d c) \<and>
      bs_error (se_stream (cn_sender (TCPConnection_tick d c))) \<and>
      bs_error (TCPReceiver_stream_out (cn_receiver (TCPConnection_tick d c))) \<and>
      cn_segments_out (TCPConnection_tick d c) = cn_segments_out c @
        [with_ackno_and_win (cn_receiver (TCPConnection_tick d c)) (rst_segment (cn_sender c))]"
proof -
  let ?s = "cn_sender c"
  have a: "awaiting g w ?s" "unat (se_retransmission_timeout ?s) = rto" "se_retransmission_count ?s = of_nat n" "n \<le> 8"
    "se_segments_out ?s = []" "se_window_size ?s \<noteq> 0" using c by (auto simp: conn_waiting_def)
  from tick_awaiting [OF a(1) d(2)] d(1) a(2,3,5,6) obtain e where t: "awaiting g 0 (TCPSender_tick d ?s)"
    "TCPSender_tick d ?s = ?s\<lparr>se_now_time_ms := se_now_time_ms ?s + d, se_tcp_seg_cache := e,
        se_segments_out := [g], se_retransmission_count := of_nat n + 1,
        se_retransmission_timeout := se_retransmission_timeout ?s * 2\<rparr>" by auto
  have lim: "TCPSender_consecutive_retransmissions (TCPSender_tick d ?s) > MAX_RETX_ATTEMPTS \<longleftrightarrow> 8 < n + 1"
    using retransmissions_limit [of "TCPSender_tick d ?s" "n + 1"] a(4) t(2) by (simp add: add.commute)
  {
    assume "n < 8" "2 * rto < 2 ^ 32"
    then have u: "unat (se_retransmission_timeout ?s * 2) = 2 * rto" using a(2) by (simp add: unat_word_ariths)
    have "\<not> TCPSender_consecutive_retransmissions (TCPSender_tick d ?s) > MAX_RETX_ATTEMPTS" using \<open>n < 8\<close> lim by simp
    note P = conn_tick_plain [OF this]
    have aw: "awaiting g 0 ((TCPSender_tick d ?s)\<lparr>se_segments_out := []\<rparr>)" by (simp only: awaiting_queue t(1))
    show "conn_waiting g 0 (2 * rto) (n + 1) (TCPConnection_tick d c) \<and> cn_receiver (TCPConnection_tick d c) = cn_receiver c \<and>
      cn_segments_out (TCPConnection_tick d c) = cn_segments_out c @ [with_ackno_and_win (cn_receiver c) g]"
      using a aw u \<open>n < 8\<close> by (simp add: conn_waiting_def P t(2) add.commute)
  next
    assume "n = 8"
    define e where "e = set_rst_state (send_rst_seg (c\<lparr>cn_now_time_ms := cn_now_time_ms c + d,
      cn_sender := (TCPSender_tick d ?s)\<lparr>se_segments_out := []\<rparr>\<rparr>))"
    have q: "se_segments_out (cn_sender e) = [rst_segment ?s]" "cn_segments_out e = cn_segments_out c"
      by (simp_all add: e_def send_rst_seg_def rst_segment_def TCPSender_next_seqno_def t(2))
    have "TCPConnection_tick d c = send_with_ackno_and_win e"
      using \<open>n = 8\<close> lim by (simp add: TCPConnection_tick_def Let_def e_def send_with_ackno_and_win_def)
    moreover have "\<not> cn_active e" "bs_error (se_stream (cn_sender e))" "bs_error (TCPReceiver_stream_out (cn_receiver e))"
      by (simp_all add: e_def)
    ultimately show "\<not> cn_active (TCPConnection_tick d c) \<and> bs_error (se_stream (cn_sender (TCPConnection_tick d c))) \<and>
      bs_error (TCPReceiver_stream_out (cn_receiver (TCPConnection_tick d c))) \<and>
      cn_segments_out (TCPConnection_tick d c) = cn_segments_out c @
        [with_ackno_and_win (cn_receiver (TCPConnection_tick d c)) (rst_segment (cn_sender c))]"
      using q by (simp add: send_with_ackno_and_win_def)
  }
qed

lemma conn_ticks_quiet:
  assumes "conn_waiting g w rto n c" and "w + sum_list (map unat ds) < rto"
  shows "conn_waiting g (w + sum_list (map unat ds)) rto n (conn_ticks ds c) \<and> cn_receiver (conn_ticks ds c) = cn_receiver c \<and>
    cn_segments_out (conn_ticks ds c) = cn_segments_out c"
  using assms
proof (induction ds arbitrary: c w)
  case (Cons d ds)
  have "w + unat d < rto" using Cons.prems(2) by simp
  from conn_tick_quiet [OF Cons.prems(1) this] Cons.IH [of "w + unat d" "TCPConnection_tick d c"] Cons.prems(2)
  show ?case by (simp add: add.assoc)
qed simp

lemma conn_round:
  assumes c: "conn_waiting g 0 rto n c"
    and r: "sum_list (map unat ds) < rto" "rto \<le> sum_list (map unat ds) + unat d" "sum_list (map unat ds) + unat d < 2 ^ 64"
  obtains c1 where "conn_ticks (ds @ [d]) c = TCPConnection_tick d c1" and "conn_waiting g (sum_list (map unat ds)) rto n c1"
    and "cn_receiver c1 = cn_receiver c" and "cn_segments_out c1 = cn_segments_out c"
  using conn_ticks_quiet [OF c, of ds] r(1) by (simp add: conn_ticks_append)

lemma conn_retransmits:
  assumes "conn_waiting g 0 rto n c" and "rounds rto rs" and "n + length rs \<le> 8" and "rto * 2 ^ length rs < 2 ^ 32"
  shows "conn_waiting g 0 (rto * 2 ^ length rs) (n + length rs) (conn_ticks (round_ticks rs) c) \<and>
    cn_receiver (conn_ticks (round_ticks rs) c) = cn_receiver c \<and>
    cn_segments_out (conn_ticks (round_ticks rs) c) =
      cn_segments_out c @ replicate (length rs) (with_ackno_and_win (cn_receiver c) g)"
  using assms
proof (induction rs arbitrary: c n rto)
  case (Cons r rs)
  obtain ds d where r: "r = (ds, d)" by fastforce
  have h: "sum_list (map unat ds) < rto" "rto \<le> sum_list (map unat ds) + unat d"
    "sum_list (map unat ds) + unat d < 2 ^ 64" "rounds (2 * rto) rs" using Cons.prems(2) r by auto
  from conn_round [OF Cons.prems(1) h(1-3)] obtain c1 where c1: "conn_ticks (ds @ [d]) c = TCPConnection_tick d c1"
    "conn_waiting g (sum_list (map unat ds)) rto n c1" "cn_receiver c1 = cn_receiver c" "cn_segments_out c1 = cn_segments_out c" .
  have "2 * rto \<le> rto * 2 ^ length (r # rs)" by simp
  then have b: "2 * rto < 2 ^ 32" using Cons.prems(4) by (rule le_less_trans)
  define c2 where "c2 = TCPConnection_tick d c1"
  have "n < 8" using Cons.prems(3) by simp
  from conn_tick_expires(1) [OF c1(2) h(2,3) this b, folded c2_def]
  have c2: "conn_waiting g 0 (2 * rto) (n + 1) c2" "cn_receiver c2 = cn_receiver c"
    "cn_segments_out c2 = cn_segments_out c @ [with_ackno_and_win (cn_receiver c) g]" using c1(3,4) by auto
  have "conn_ticks (round_ticks (r # rs)) c = conn_ticks (round_ticks rs) c2"
    using conn_ticks_append [of "ds @ [d]" "round_ticks rs" c] c1(1) by (simp add: r c2_def)
  with Cons.IH [OF c2(1) h(4)] Cons.prems(3,4) c2(2,3) show ?case
    by (simp add: ac_simps)
qed simp

lemma rounds_append: "rounds rto (rs @ qs) \<longleftrightarrow> rounds rto rs \<and> rounds (rto * 2 ^ length rs) qs"
  by (induction rto rs rule: rounds.induct) (auto simp: ac_simps)

lemma round_ticks_append: "round_ticks (rs @ qs) = round_ticks rs @ round_ticks qs"
  by (induction rs rule: round_ticks.induct) auto

section \<open>The handshake\<close>

definition syn_seg :: "WrappingInt32 \<Rightarrow> TCPSegment" where
  "syn_seg isn = \<lparr>ts_header = TCPHeader_default\<lparr>th_seqno := isn, th_syn := True\<rparr>, ts_payload = Buffer_of []\<rparr>"

definition syn_sent :: "TCPSender \<Rightarrow> TCPSender" where
  "syn_sent s = s\<lparr>se_syned := True, se_next_seqno := 1, se_window_used_size := 1,
     se_segments_out := [syn_seg (se_isn s)], se_tcp_seg_cache := [(0, syn_seg (se_isn s))]\<rparr>"

lemma wrap_0 [simp]: "wrap 0 isn = isn"
  by (rule WrappingInt32.expand) (simp add: raw_wrap)

lemma length_syn_seg [simp]: "length_in_sequence_space (syn_seg isn) = 1"
  by (simp add: length_in_sequence_space_def syn_seg_def Buffer_str_of str_size_def TCPHeader_default_def)

lemma syn_seg_seqno [simp]: "th_seqno (ts_header (syn_seg isn)) = isn"
  by (simp add: syn_seg_def)

lemma read_new:
  assumes "0 < unat cap"
  shows "ByteStream_read n (ByteStream_new cap) = Some ([], ByteStream_new cap)"
  using assms by (auto simp: ByteStream_read_def ByteStream_peek_output_def ByteStream_pop_output_def ByteStream_new_def)

lemma fill_window_new:
  assumes "0 < unat cap"
  shows "TCPSender_fill_window (TCPSender_new cap rto isn rnd) = Some (syn_sent (TCPSender_new cap rto isn rnd))"
proof -
  let ?s = "TCPSender_new cap rto isn rnd"
  have s: "se_window_size ?s = 1" "se_window_used_size ?s = 0" "\<not> se_syned ?s" "\<not> se_fin ?s" "se_stream ?s = ByteStream_new cap"
    "se_next_seqno ?s = 0" "se_now_time_ms ?s = 0" "se_segments_out ?s = []" "se_tcp_seg_cache ?s = []"
    by (simp_all add: TCPSender_new_def Let_def)
  have e: "\<not> ByteStream_eof (ByteStream_new cap)" by (simp add: ByteStream_eof_def ByteStream_new_def)
  have g: "\<lparr>ts_header = TCPHeader_default\<lparr>th_seqno := i, th_syn := True, th_fin := False\<rparr>, ts_payload = Buffer_of []\<rparr> = syn_seg i" for i
    by (simp add: syn_seg_def TCPHeader_default_def)
  have w: "window_unused ?s = 1" by (simp add: window_unused_def s)
  have "fill_step ?s = Some (send_segment (syn_seg (se_isn ?s)) 1
      (?s\<lparr>se_syned := True, se_stream := ByteStream_new cap, se_fin := False\<rparr>), True)"
    unfolding fill_step_def w Let_def s read_new [OF assms] by (simp add: e s g)
  moreover have "send_segment (syn_seg (se_isn ?s)) 1 (?s\<lparr>se_syned := True, se_stream := ByteStream_new cap, se_fin := False\<rparr>) = syn_sent ?s"
    by (simp add: send_segment_def syn_sent_def s)
  ultimately have 1: "fill_step ?s = Some (syn_sent ?s, True)" by simp
  have 2: "fill_step (syn_sent ?s) = Some (syn_sent ?s, False)"
    by (simp add: fill_step_def window_unused_def syn_sent_def s)
  have "fill_loop (syn_sent ?s) = Some (syn_sent ?s)" by (subst fill_loop.simps) (simp only: 2 option.case prod.case bool.case)
  then have "fill_loop ?s = Some (syn_sent ?s)" by (subst fill_loop.simps) (simp only: 1 option.case prod.case bool.case)
  then show ?thesis by (simp add: TCPSender_fill_window_def s(1))
qed

text \<open>A receiver that has got the SYN and nothing else.\<close>

definition syn_received :: "size_t \<Rightarrow> WrappingInt32 \<Rightarrow> TCPReceiver" where
  "syn_received cap isn = (TCPReceiver_new cap)\<lparr>tr_isn := isn, tr_set_isn := True\<rparr>"

lemma push_empty_new: "push_substring [] 0 False (StreamReassembler_new cap) = StreamReassembler_new cap"
  by (simp add: push_substring_def Let_def StreamReassembler_new_def end_if_done_def str_size_def)

lemma receive_syn:
  assumes "th_syn (ts_header seg)" and "\<not> th_fin (ts_header seg)" and "Buffer_str (ts_payload seg) = []"
  shows "TCPReceiver_segment_received seg (TCPReceiver_new cap) = syn_received cap (th_seqno (ts_header seg))"
proof -
  have "unwrap (th_seqno (ts_header seg)) (th_seqno (ts_header seg)) 0 = 0" by (rule unwrap_self) simp
  with assms push_empty_new [of cap] show ?thesis
    by (simp add: TCPReceiver_segment_received_def TCPReceiver_new_def syn_received_def Let_def TCPReceiver_stream_out_def
        ByteStream_bytes_written_def Buffer_copy_def StreamReassembler_new_def ByteStream_new_def)
qed

lemma receive_empty:
  assumes "th_seqno (ts_header seg) = wrap 1 isn" and "\<not> th_fin (ts_header seg)" and "Buffer_str (ts_payload seg) = []"
  shows "TCPReceiver_segment_received seg (syn_received cap isn) = syn_received cap isn"
proof -
  have "unwrap (wrap 1 isn) isn 0 = 1" by (rule unwrap_unique) (auto simp: ndist_def)
  with assms push_empty_new [of cap] show ?thesis
    by (simp add: TCPReceiver_segment_received_def TCPReceiver_new_def syn_received_def Let_def TCPReceiver_stream_out_def
        ByteStream_bytes_written_def Buffer_copy_def StreamReassembler_new_def ByteStream_new_def)
qed

lemma syn_received_facts [simp]:
  "TCPReceiver_ackno (syn_received cap isn) = Some (wrap 1 isn)" "receiver_summary (syn_received cap isn) = R_SYN_RECV"
  "\<not> bs_input_ended (TCPReceiver_stream_out (syn_received cap isn))" "TCPReceiver_ackno (TCPReceiver_new cap) = None"
  "receiver_summary (TCPReceiver_new cap) = R_LISTEN"
  by (simp_all add: TCPReceiver_ackno_def syn_received_def TCPReceiver_new_def TCPReceiver_stream_out_def
      StreamReassembler_new_def ByteStream_new_def receiver_summary_def ByteStream_bytes_written_def)

lemma window_syn_received: "TCPReceiver_window_size (syn_received cap isn) = cap"
  by (simp add: TCPReceiver_window_size_def syn_received_def TCPReceiver_new_def TCPReceiver_stream_out_def
      StreamReassembler_new_def ByteStream_new_def ByteStream_buffer_size_def)

text \<open>The sender when its SYN has been acknowledged with a window \<open>w\<close>.\<close>

definition syn_acked :: "u16 \<Rightarrow> TCPSender \<Rightarrow> TCPSender" where
  "syn_acked w s = s\<lparr>se_syned := True, se_next_seqno := 1, se_window_size := ucast w, se_window_used_size := 0,
     se_latest_ackno := wrap 1 (se_isn s)\<rparr>"

lemma syn_numbers:
  "unwrap isn isn 1 = 0" "unwrap (wrap 1 isn) isn 1 = 1" "wi_add isn 1 = wrap 1 isn" "wi_eq (wrap 1 isn) isn = False"
proof -
  show "unwrap isn isn 1 = 0" by (rule unwrap_self) simp
  show "unwrap (wrap 1 isn) isn 1 = 1" by (rule unwrap_unique) (auto simp: ndist_def)
  show "wi_add isn 1 = wrap 1 isn" by (rule WrappingInt32.expand) (simp add: raw_wrap wi_add_def)
  show "wi_eq (wrap 1 isn) isn = False" by (simp add: wi_eq_def raw_wrap)
qed

lemma ack_syn:
  assumes "s = TCPSender_new cap rto isn rnd"
  shows "TCPSender_ack_received (wrap 1 (se_isn s)) w ((syn_sent s)\<lparr>se_segments_out := []\<rparr>) = syn_acked w s"
proof -
  define i where "i = se_isn s"
  have c: "TCPSender_compare i (wrap 1 i) i 1 = False" by (simp add: TCPSender_compare_def syn_numbers)
  have sq: "th_seqno (ts_header (syn_seg i)) = i" by (simp add: syn_seg_def)
  have s: "se_latest_ackno s = i" "se_isn s = i" using assms by (auto simp: i_def TCPSender_new_def Let_def)
  have "TCPSender_ack_received (wrap 1 i) w ((syn_sent s)\<lparr>se_segments_out := []\<rparr>) =
      s\<lparr>se_syned := True, se_next_seqno := 1, se_window_size := ucast w, se_window_used_size := 0, se_segments_out := [],
        se_latest_ackno := wrap 1 i, se_retransmission_timeout := se_initial_retransmission_timeout s,
        se_retransmission_count := 0, se_tcp_seg_cache := []\<rparr>"
    by (simp add: TCPSender_ack_received_def syn_sent_def s syn_numbers c sq remove_acked_seg_def Let_def restart_first_def)
  also have "\<dots> = syn_acked w s" using assms by (simp add: syn_acked_def i_def TCPSender_new_def Let_def)
  finally show ?thesis by (simp add: i_def)
qed

lemma fill_window_acked:
  assumes "0 < unat cap" and "s = TCPSender_new cap rto isn rnd"
  shows "TCPSender_fill_window (syn_acked w s) = Some (syn_acked w s)"
proof -
  let ?s = "syn_acked w s"
  have s: "se_window_used_size ?s = 0" "se_syned ?s" "\<not> se_fin ?s" "se_stream ?s = ByteStream_new cap"
    using assms(2) by (simp_all add: TCPSender_new_def Let_def syn_acked_def)
  have e: "\<not> ByteStream_eof (ByteStream_new cap)" "ByteStream_buffer_empty (ByteStream_new cap)"
    by (simp_all add: ByteStream_eof_def ByteStream_new_def ByteStream_buffer_empty_def)
  have l: "length_in_sequence_space TCPSegment_default = 0"
    "length_in_sequence_space \<lparr>ts_header = TCPHeader_default\<lparr>th_seqno := i, th_syn := False, th_fin := False\<rparr>, ts_payload = Buffer_of []\<rparr> = 0" for i
    by (simp_all add: length_in_sequence_space_def TCPSegment_default_def TCPHeader_default_def str_size_def Buffer_str_of)
  have n: "?s\<lparr>se_syned := True, se_stream := ByteStream_new cap, se_fin := False\<rparr> = ?s"
    using assms(2) by (simp add: TCPSender_new_def Let_def syn_acked_def)
  have "fill_step ?s = Some (?s, False)"
    unfolding fill_step_def Let_def s(4) read_new [OF assms(1)] by (simp add: s e l n)
  then have "fill_loop ?s = Some ?s" by (subst fill_loop.simps) (simp only: option.case prod.case bool.case)
  moreover have "fill_zero_window ?s = Some ?s" by (simp add: fill_zero_window_def s e l)
  ultimately show ?thesis by (simp add: TCPSender_fill_window_def)
qed

lemma syn_acked_summary:
  assumes "s = TCPSender_new cap rto isn rnd"
  shows "sender_summary (syn_acked w s) = S_SYN_ACKED" and "TCPSender_bytes_in_flight (syn_acked w s) = 0"
    and "TCPSender_next_seqno (syn_acked w s) = wrap 1 (se_isn s)"
  using assms by (simp_all add: sender_summary_def TCPSender_bytes_in_flight_def TCPSender_next_seqno_def syn_acked_def
      TCPSender_new_def Let_def syn_numbers ByteStream_new_def ByteStream_eof_def)

section \<open>Runs of two endpoints\<close>

fun receive_all :: "TCPSegment list \<Rightarrow> TCPConnection \<Rightarrow> TCPConnection option" where
  "receive_all [] c = Some c"
| "receive_all (seg # segs) c = (case TCPConnection_segment_received seg c of None \<Rightarrow> None | Some c' \<Rightarrow> receive_all segs c')"

text \<open>What \<open>a\<close> has queued is handed to \<open>b\<close>.\<close>

definition exchange :: "TCPConnection \<times> TCPConnection \<Rightarrow> (TCPConnection \<times> TCPConnection) option" where
  "exchange p =
     (case receive_all (cn_segments_out (fst p)) (snd p) of
        None \<Rightarrow> None
      | Some b' \<Rightarrow> Some (snd (TCPConnection_drain (fst p)), b'))"

text \<open>The handshake: \<open>a\<close> connects, \<open>b\<close> answers, \<open>a\<close> acknowledges.\<close>

definition handshake :: "TCPConnection \<Rightarrow> TCPConnection \<Rightarrow> (TCPConnection \<times> TCPConnection) option" where
  "handshake a b =
     (case TCPConnection_connect a of
        None \<Rightarrow> None
      | Some a1 \<Rightarrow>
          (case exchange (a1, b) of
             None \<Rightarrow> None
           | Some p \<Rightarrow> (case exchange (prod.swap p) of None \<Rightarrow> None | Some q \<Rightarrow> exchange (prod.swap q))))"

lemma segment_received_open:
  assumes "\<not> th_rst (ts_header seg)" and "TCPReceiver_segment_received seg (cn_receiver c) = t"
    and "(if th_ack (ts_header seg) then TCPSender_ack_received (th_ackno (ts_header seg)) (th_win (ts_header seg)) (cn_sender c)
      else cn_sender c) = s"
    and "receiver_summary t = R_SYN_RECV" and "\<not> bs_input_ended (TCPReceiver_stream_out t)" and "TCPReceiver_ackno t = Some k"
    and "TCPSender_fill_window s = Some s'"
  shows "TCPConnection_segment_received seg c = Some (send_with_ackno_and_win (answer_segment seg k
    (c\<lparr>cn_seg_received_time_ms := cn_now_time_ms c, cn_receiver := t, cn_sender := s'\<rparr>)))"
proof -
  have d: "take_segment seg (c\<lparr>cn_seg_received_time_ms := cn_now_time_ms c\<rparr>)
      = c\<lparr>cn_seg_received_time_ms := cn_now_time_ms c, cn_receiver := t, cn_sender := s\<rparr>"
    using assms(2,3,5) by (cases "th_ack (ts_header seg)") (auto simp: take_segment_def Let_def)
  show ?thesis
    using assms(1,4,6,7) by (simp add: TCPConnection_segment_received_def Let_def d both_streams_finished_def conn_fill_window_def)
qed

definition established :: "TCPConfig \<Rightarrow> u32 \<Rightarrow> WrappingInt32 \<Rightarrow> u16 \<Rightarrow> TCPConnection" where
  "established cfg rnd peer_isn w =
     (TCPConnection_new cfg rnd)\<lparr>cn_receiver := syn_received (cf_recv_capacity cfg) peer_isn,
       cn_sender := syn_acked w (cn_sender (TCPConnection_new cfg rnd))\<rparr>"

lemma connection_new_fields:
  "cn_receiver (TCPConnection_new cfg rnd) = TCPReceiver_new (cf_recv_capacity cfg)"
  "cn_sender (TCPConnection_new cfg rnd) = TCPSender_new (cf_send_capacity cfg) (cf_rt_timeout cfg) (cf_fixed_isn cfg) rnd"
  "cn_segments_out (TCPConnection_new cfg rnd) = []" "cn_now_time_ms (TCPConnection_new cfg rnd) = 0"
  "(TCPConnection_new cfg rnd)\<lparr>cn_seg_received_time_ms := 0\<rparr> = TCPConnection_new cfg rnd"
  by (simp_all add: TCPConnection_new_def)

lemma stamped_syn:
  "\<not> th_rst (ts_header (with_ackno_and_win t (syn_seg i)))" "th_syn (ts_header (with_ackno_and_win t (syn_seg i)))"
  "\<not> th_fin (ts_header (with_ackno_and_win t (syn_seg i)))" "Buffer_str (ts_payload (with_ackno_and_win t (syn_seg i))) = []"
  "th_seqno (ts_header (with_ackno_and_win t (syn_seg i))) = i" "length_in_sequence_space (with_ackno_and_win t (syn_seg i)) = 1"
  by (simp_all add: with_ackno_and_win_def syn_seg_def TCPHeader_default_def Buffer_str_of length_in_sequence_space_def str_size_def)

lemma stamped_fields [simp]:
  "th_ack (ts_header (with_ackno_and_win t g)) \<longleftrightarrow> receiver_summary t \<noteq> R_LISTEN"
  "th_ackno (ts_header (with_ackno_and_win t g)) = (case TCPReceiver_ackno t of Some n \<Rightarrow> n | None \<Rightarrow> WrappingInt32 0)"
  "th_seqno (ts_header (with_ackno_and_win t g)) = th_seqno (ts_header g)"
  by (simp_all add: with_ackno_and_win_def)

lemma unat_stamped_win: "unat (th_win (ts_header (with_ackno_and_win t g))) = min 65535 (unat (TCPReceiver_window_size t))"
  by (auto simp: with_ackno_and_win_def word_less_nat_alt unat_ucast_down)

lemma handshake_established:
  assumes "0 < unat (cf_send_capacity ca)" and "0 < unat (cf_send_capacity cb)"
  shows "\<exists>wa wb. handshake (TCPConnection_new ca ra) (TCPConnection_new cb rb) =
    Some (established ca ra (se_isn (cn_sender (TCPConnection_new cb rb))) wa,
          established cb rb (se_isn (cn_sender (TCPConnection_new ca ra))) wb) \<and>
    unat wa = min 65535 (unat (cf_recv_capacity cb)) \<and> unat wb = min 65535 (unat (cf_recv_capacity ca))"
proof -
  define sa where "sa = TCPSender_new (cf_send_capacity ca) (cf_rt_timeout ca) (cf_fixed_isn ca) ra"
  define sb where "sb = TCPSender_new (cf_send_capacity cb) (cf_rt_timeout cb) (cf_fixed_isn cb) rb"
  let ?A = "TCPConnection_new ca ra" and ?B = "TCPConnection_new cb rb" and ?ia = "se_isn sa" and ?ib = "se_isn sb"
  let ?ta = "syn_received (cf_recv_capacity ca) ?ib" and ?tb = "syn_received (cf_recv_capacity cb) ?ia"
  define g1 where "g1 = with_ackno_and_win (TCPReceiver_new (cf_recv_capacity ca)) (syn_seg ?ia)"
  define g2 where "g2 = with_ackno_and_win ?tb (syn_seg ?ib)"
  define g3 where "g3 = with_ackno_and_win ?ta (TCPSegment_default\<lparr>ts_header := TCPHeader_default\<lparr>th_seqno := wrap 1 ?ia\<rparr>\<rparr>)"
  note N = connection_new_fields [of ca ra, folded sa_def] connection_new_fields [of cb rb, folded sb_def]
  define a1 where "a1 = ?A\<lparr>cn_sender := (syn_sent sa)\<lparr>se_segments_out := []\<rparr>\<rparr>"
  define b1 where "b1 = ?B\<lparr>cn_sender := (syn_sent sb)\<lparr>se_segments_out := []\<rparr>, cn_receiver := ?tb\<rparr>"
  define a2 where "a2 = ?A\<lparr>cn_sender := syn_acked (th_win (ts_header g2)) sa, cn_receiver := ?ta\<rparr>"
  define b2 where "b2 = ?B\<lparr>cn_sender := syn_acked (th_win (ts_header g3)) sb, cn_receiver := ?tb\<rparr>"
  have fa: "TCPSender_fill_window sa = Some (syn_sent sa)" and fb: "TCPSender_fill_window sb = Some (syn_sent sb)"
    unfolding sa_def sb_def by (rule fill_window_new [OF assms(1)], rule fill_window_new [OF assms(2)])
  have q: "se_segments_out (syn_sent s) = [syn_seg (se_isn s)]" for s by (simp add: syn_sent_def)
  have k: "se_segments_out (syn_acked w sa) = []" "(syn_acked w sa)\<lparr>se_segments_out := []\<rparr> = syn_acked w sa"
    "se_segments_out (syn_acked w sb) = []" "(syn_acked w sb)\<lparr>se_segments_out := []\<rparr> = syn_acked w sb"
    "se_next_seqno (syn_acked w sa) = 1" "se_isn (syn_acked w sa) = ?ia" for w
    by (simp_all add: syn_acked_def sa_def sb_def TCPSender_new_def Let_def)
  have 1: "TCPConnection_connect ?A = Some (a1\<lparr>cn_segments_out := [g1]\<rparr>)"
    by (simp add: TCPConnection_connect_def conn_fill_window_def N fa send_with_ackno_and_win_def a1_def g1_def q)
  have g1: "\<not> th_rst (ts_header g1)" "TCPReceiver_segment_received g1 (cn_receiver ?B) = ?tb" "\<not> th_ack (ts_header g1)"
    using receive_syn [of g1] by (simp_all add: g1_def stamped_syn N)
  have 2: "TCPConnection_segment_received g1 ?B = Some (b1\<lparr>cn_segments_out := [g2]\<rparr>)"
    using segment_received_open [OF g1(1,2) refl, where k = "wrap 1 ?ia" and s' = "syn_sent sb"]
    by (simp add: g1(3) N fb answer_segment_def q send_with_ackno_and_win_def b1_def g2_def)
  have g2: "\<not> th_rst (ts_header g2)" "TCPReceiver_segment_received g2 (cn_receiver a1) = ?ta" "th_ack (ts_header g2)"
    "th_ackno (ts_header g2) = wrap 1 ?ia" "length_in_sequence_space g2 \<noteq> 0"
    using receive_syn [of g2] by (simp_all add: g2_def stamped_syn N a1_def)
  have 3: "TCPConnection_segment_received g2 a1 = Some (a2\<lparr>cn_segments_out := [g3]\<rparr>)"
    using segment_received_open [OF g2(1,2) refl, where k = "wrap 1 ?ib" and s' = "syn_acked (th_win (ts_header g2)) sa"]
    by (simp add: g2(3,4,5) a1_def N ack_syn [OF sa_def] fill_window_acked [OF assms(1) sa_def] answer_segment_def k
         send_with_ackno_and_win_def TCPSender_send_empty_segment_def a2_def g3_def)
  have g3: "\<not> th_rst (ts_header g3)" "TCPReceiver_segment_received g3 (cn_receiver b1) = ?tb" "th_ack (ts_header g3)"
    "th_ackno (ts_header g3) = wrap 1 ?ib" "length_in_sequence_space g3 = 0" "th_seqno (ts_header g3) = wrap 1 ?ia"
    using receive_empty [of g3 ?ia]
    by (simp_all add: g3_def N b1_def) (simp_all add: with_ackno_and_win_def TCPSegment_default_def TCPHeader_default_def
      length_in_sequence_space_def str_size_def)
  have 4: "TCPConnection_segment_received g3 b1 = Some b2"
    using segment_received_open [OF g3(1,2) refl, where k = "wrap 1 ?ia" and s' = "syn_acked (th_win (ts_header g3)) sb"]
    by (simp add: g3(3-6) b1_def N ack_syn [OF sb_def] fill_window_acked [OF assms(2) sb_def] answer_segment_def k
         send_with_ackno_and_win_def b2_def wi_eq_def wi_sub_def wi_add_def)
  have ea: "established ca ra ?ib (th_win (ts_header g2)) = a2" and eb: "established cb rb ?ia (th_win (ts_header g3)) = b2"
    by (simp_all add: established_def a2_def b2_def N)
  have z: "b1\<lparr>cn_segments_out := []\<rparr> = b1" "a1\<lparr>cn_segments_out := []\<rparr> = a1" "a2\<lparr>cn_segments_out := []\<rparr> = a2"
    by (simp_all add: a1_def b1_def a2_def TCPConnection_new_def)
  have "handshake ?A ?B = Some (a2, b2)"
    by (simp add: handshake_def 1 2 3 4 exchange_def TCPConnection_drain_def z)
  moreover have "unat (th_win (ts_header g2)) = min 65535 (unat (cf_recv_capacity cb))"
    "unat (th_win (ts_header g3)) = min 65535 (unat (cf_recv_capacity ca))"
    unfolding g2_def g3_def unat_stamped_win by (simp_all add: window_syn_received)
  ultimately show ?thesis unfolding N ea [symmetric] eb [symmetric] by blast
qed

section \<open>Properties\<close>

text \<open>
  C25: the three-way handshake. For any two configurations with a sending capacity that is not
  zero, and any initial sequence numbers, \<open>connect\<close>, the answer and the acknowledgment
  take both endpoints to ESTABLISHED, with nothing in flight, each acknowledging the next
  sequence number of the other and each knowing the other's capacity as its window.
\<close>
theorem TCPConnection_handshake:
  assumes "0 < unat (cf_send_capacity ca)" and "0 < unat (cf_send_capacity cb)"
  shows "\<exists>a b. handshake (TCPConnection_new ca ra) (TCPConnection_new cb rb) = Some (a, b) \<and>
    TCPState_eq (TCPConnection_state a) (TCPState_of_State ESTABLISHED) \<and>
    TCPState_eq (TCPConnection_state b) (TCPState_of_State ESTABLISHED) \<and>
    TCPConnection_bytes_in_flight a = 0 \<and> TCPConnection_bytes_in_flight b = 0 \<and>
    TCPReceiver_ackno (cn_receiver a) = Some (TCPSender_next_seqno (cn_sender b)) \<and>
    TCPReceiver_ackno (cn_receiver b) = Some (TCPSender_next_seqno (cn_sender a)) \<and>
    unat (se_window_size (cn_sender a)) = min 65535 (unat (cf_recv_capacity cb)) \<and>
    unat (se_window_size (cn_sender b)) = min 65535 (unat (cf_recv_capacity ca))"
proof -
  obtain wa wb where h: "handshake (TCPConnection_new ca ra) (TCPConnection_new cb rb) =
      Some (established ca ra (se_isn (cn_sender (TCPConnection_new cb rb))) wa,
            established cb rb (se_isn (cn_sender (TCPConnection_new ca ra))) wb)"
    and w: "unat wa = min 65535 (unat (cf_recv_capacity cb))" "unat wb = min 65535 (unat (cf_recv_capacity ca))"
    using handshake_established [OF assms] by blast
  have "TCPState_eq (TCPConnection_state (established c r i v)) (TCPState_of_State ESTABLISHED)"
    "TCPConnection_bytes_in_flight (established c r i v) = 0"
    "TCPReceiver_ackno (cn_receiver (established c r i v)) = Some (wrap 1 i)"
    "TCPSender_next_seqno (cn_sender (established c r i v)) = wrap 1 (se_isn (cn_sender (TCPConnection_new c r)))"
    "unat (se_window_size (cn_sender (established c r i v))) = unat v" for c r i v
    using syn_acked_summary [OF connection_new_fields(2)]
    by (simp_all add: established_def TCPConnection_state_def TCPState_of_def TCPState_eq_def TCPState_of_State_def
        TCPConnection_bytes_in_flight_def TCPConnection_new_def)
       (simp add: syn_acked_def unat_ucast_up)
  with h w show ?thesis by simp
qed

theorem TCPConnection_handshake_witness:
  "\<exists>a b. handshake (TCPConnection_new TCPConfig_default 1) (TCPConnection_new TCPConfig_default 2) = Some (a, b) \<and>
     TCPState_eq (TCPConnection_state a) (TCPState_of_State ESTABLISHED)"
  using TCPConnection_handshake [of TCPConfig_default TCPConfig_default 1 2]
  by (auto simp: TCPConfig_default_def DEFAULT_CAPACITY_def)

text \<open>
  C26: in every run of a connection with a proper sending capacity no operation traps: the
  owner's calls return, keep the invariant (all segments of the sender are stamped and queued), never activate a
  connection that is no longer active, and queue only segments that carry the
  acknowledgment and window of the receiver.
\<close>
theorem TCPConnection_total:
  assumes "reachable (conn_init cfg random) conn_step c" and "length d < 2 ^ 64"
  shows "conn_ok c \<and> conn_progress c (TCPConnection_tick ms c) \<and>
    (\<exists>c'. TCPConnection_connect c = Some c' \<and> conn_progress c c') \<and>
    (\<exists>n c'. TCPConnection_write d c = Some (n, c') \<and> conn_progress c c') \<and>
    (\<exists>c'. TCPConnection_end_input_stream c = Some c' \<and> conn_progress c c') \<and>
    (\<exists>c'. TCPConnection_segment_received seg c = Some c' \<and> conn_progress c c')"
proof -
  have "conn_ok c" by (rule cn.reachable_inv [OF assms(1)])
  then show ?thesis
    using tick_progress connect_progress write_progress [OF _ assms(2)] end_input_progress segment_received_progress by blast
qed

theorem TCPConnection_total_witness:
  "\<exists>n c'. TCPConnection_write [1] (TCPConnection_new TCPConfig_default 1) = Some (n, c') \<and> conn_ok c'"
proof -
  have "reachable (conn_init TCPConfig_default 1) conn_step (TCPConnection_new TCPConfig_default 1)"
    by (rule reach_init) (simp add: conn_init_def TCPConfig_default_def DEFAULT_CAPACITY_def)
  then obtain n c' where "TCPConnection_write [1] (TCPConnection_new TCPConfig_default 1) = Some (n, c')"
    "conn_progress (TCPConnection_new TCPConfig_default 1) c'"
    using TCPConnection_total [where d = "[1]" and ms = 0 and seg = TCPSegment_default] by force
  then show ?thesis using conn_progressD by blast
qed



text \<open>
  C28: a connection gives up after the ninth expiration of the timer. While its oldest segment
  \<open>g\<close> stays unacknowledged, the first eight expirations send it again with the current acknowledgment
  and window; the ninth sends a single RST instead, marks both streams as failed and makes
  the connection inactive.
\<close>
theorem TCPConnection_gives_up:
  assumes "conn_waiting g 0 rto 0 c" and "rounds rto (rs @ [(ds, d)])" and "length rs = 8" and "rto * 2 ^ 8 < 2 ^ 32"
    and "c' = conn_ticks (round_ticks (rs @ [(ds, d)])) c"
  shows "\<not> cn_active c' \<and> TCPState_eq (TCPConnection_state c') (TCPState_of_State RESET) \<and>
    cn_segments_out c' = cn_segments_out c @ replicate 8 (with_ackno_and_win (cn_receiver c) g) @
      [with_ackno_and_win (cn_receiver c') (rst_segment (cn_sender (conn_ticks (round_ticks rs @ ds) c)))]"
proof -
  let ?c = "conn_ticks (round_ticks rs) c"
  have r: "rounds rto rs \<and> rounds (rto * 2 ^ length rs) [(ds, d)]"
    using assms(2) by (rule rounds_append [THEN iffD1])
  from conn_retransmits [OF assms(1) conjunct1 [OF r]] assms(3,4)
  have w: "conn_waiting g 0 (rto * 2 ^ 8) 8 ?c" "cn_receiver ?c = cn_receiver c"
    "cn_segments_out ?c = cn_segments_out c @ replicate 8 (with_ackno_and_win (cn_receiver c) g)" by simp_all
  have h: "sum_list (map unat ds) < rto * 2 ^ 8" "rto * 2 ^ 8 \<le> sum_list (map unat ds) + unat d"
    "sum_list (map unat ds) + unat d < 2 ^ 64" using r assms(3) by auto
  have q: "conn_waiting g (sum_list (map unat ds)) (rto * 2 ^ 8) 8 (conn_ticks ds ?c)"
    "cn_segments_out (conn_ticks ds ?c) = cn_segments_out ?c" using conn_ticks_quiet [OF w(1), of ds] h(1) by auto
  have c': "c' = TCPConnection_tick d (conn_ticks ds ?c)"
    using assms(5) by (simp add: round_ticks_append conn_ticks_append)
  from conn_tick_expires(2) [OF q(1) h(2,3) refl] w(3) q(2) show ?thesis
    by (simp add: c' conn_ticks_append TCPState_eq_def TCPConnection_state_def TCPState_of_def TCPState_of_State_def
        sender_summary_def receiver_summary_def)
qed

theorem TCPConnection_gives_up_witness:
  "\<not> cn_active (conn_ticks [1000, 2000, 4000, 8000, 16000, 32000, 64000, 128000, 256000]
     ((TCPConnection_new TCPConfig_default 1)\<lparr>cn_sender := syn_sender\<lparr>se_segments_out := []\<rparr>\<rparr>))"
proof -
  let ?c = "(TCPConnection_new TCPConfig_default 1)\<lparr>cn_sender := syn_sender\<lparr>se_segments_out := []\<rparr>\<rparr>"
  let ?rs = "map (Pair []) [1000, 2000, 4000, 8000, 16000, 32000, 64000, 128000] :: (u64 list \<times> u64) list"
  have "awaiting syn_segment 0 syn_sender"
    unfolding awaiting_def by (rule conjI, code_simp) (simp add: syn_sender_def TCPSender_new_def Let_def)
  then have w: "conn_waiting syn_segment 0 1000 0 ?c"
    by (simp add: conn_waiting_def) (simp add: syn_sender_def TCPSender_new_def Let_def)
  have "rounds 1000 (?rs @ [([], 256000)])" by simp
  from TCPConnection_gives_up [OF w this _ _ refl] show ?thesis by simp
qed

section \<open>What the operations leave alone\<close>

lemma receiver_kept [simp]:
  "cn_receiver (send_with_ackno_and_win c) = cn_receiver c" "cn_receiver (answer_segment seg k c) = cn_receiver c"
  "conn_fill_window c = Some c' \<Longrightarrow> cn_receiver c' = cn_receiver c"
  "TCPConnection_connect c = Some c' \<Longrightarrow> cn_receiver c' = cn_receiver c"
  "TCPConnection_end_input_stream c = Some c' \<Longrightarrow> cn_receiver c' = cn_receiver c"
  by (auto simp: send_with_ackno_and_win_def answer_segment_def conn_fill_window_def TCPConnection_connect_def
      TCPConnection_end_input_stream_def)

lemma sender_stream_kept [simp]:
  "se_stream (cn_sender (send_with_ackno_and_win c)) = se_stream (cn_sender c)"
  "se_stream (cn_sender (answer_segment seg k c)) = se_stream (cn_sender c)"
  "se_stream (TCPSender_ack_received k w s) = se_stream s" "se_stream (TCPSender_tick ms s) = se_stream s"
  "se_stream (cn_sender (send_rst_seg c)) = se_stream (cn_sender c)"
  by (auto simp: send_with_ackno_and_win_def answer_segment_def TCPSender_send_empty_segment_def TCPSender_ack_received_def
      TCPSender_tick_def send_rst_seg_def Let_def split: list.split)

section \<open>A FIN that overtakes data\<close>

lemma segment_received_receiver:
  assumes "TCPConnection_segment_received seg c = Some c'"
  shows "\<not> th_rst (ts_header seg) \<Longrightarrow> cn_receiver c' = TCPReceiver_segment_received seg (cn_receiver c)"
    and "th_rst (ts_header seg) \<Longrightarrow>
      TCPReceiver_stream_out (cn_receiver c') = ByteStream_set_error (TCPReceiver_stream_out (cn_receiver c))"
proof -
  assume n: "\<not> th_rst (ts_header seg)"
  define d where "d = take_segment seg (c\<lparr>cn_seg_received_time_ms := cn_now_time_ms c\<rparr>)"
  have "cn_receiver d = TCPReceiver_segment_received seg (cn_receiver c)" by (simp add: d_def take_segment_def Let_def)
  moreover have "cn_receiver c' = cn_receiver d"
    using assms n by (auto simp: TCPConnection_segment_received_def d_def [symmetric] Let_def split: if_splits option.splits)
  ultimately show "cn_receiver c' = TCPReceiver_segment_received seg (cn_receiver c)" by simp
next
  assume "th_rst (ts_header seg)"
  then show "TCPReceiver_stream_out (cn_receiver c') = ByteStream_set_error (TCPReceiver_stream_out (cn_receiver c))"
    using assms by (auto simp: TCPConnection_segment_received_def set_rst_state_def TCPReceiver_stream_out_def Let_def)
qed

lemma segment_received_ended:
  assumes "TCPConnection_segment_received seg c = Some c'" and "bs_input_ended (TCPReceiver_stream_out (cn_receiver c))"
  shows "bs_input_ended (TCPReceiver_stream_out (cn_receiver c')) \<and>
    bs_contents (TCPReceiver_stream_out (cn_receiver c')) = bs_contents (TCPReceiver_stream_out (cn_receiver c))"
  using segment_received_receiver [OF assms(1)] received_ended [OF assms(2)] assms(2)
  by (cases "th_rst (ts_header seg)") (simp_all add: ByteStream_set_error_def bs_contents_def)

lemma receive_all_ended:
  assumes "conn_ok c" and "bs_input_ended (TCPReceiver_stream_out (cn_receiver c))"
  shows "\<exists>c'. receive_all segs c = Some c' \<and> bs_input_ended (TCPReceiver_stream_out (cn_receiver c')) \<and>
    bs_contents (TCPReceiver_stream_out (cn_receiver c')) = bs_contents (TCPReceiver_stream_out (cn_receiver c))"
  using assms
proof (induction segs arbitrary: c)
  case (Cons seg segs)
  obtain c1 where 1: "TCPConnection_segment_received seg c = Some c1" "conn_ok c1"
    using segment_received_progress [OF Cons.prems(1)] conn_progressD by blast
  with Cons.IH [OF 1(2)] segment_received_ended [OF 1(1) Cons.prems(2)] show ?case by auto
qed simp

text \<open>
  C29: a FIN that overtakes data truncates the stream. Take any proper connection whose receiver
  has assembled the first \<open>h\<close> bytes of the peer's stream \<open>S\<close> and stored nothing ahead of them, and
  let the FIN arrive in a segment without payload at an index ahead of \<open>h\<close> and inside the window,
  because the data before it was lost or delayed. The inbound stream ends at once, and whatever
  segments arrive after that, the missing data included, the reader gets the first \<open>h\<close> bytes and no more.
\<close>
theorem TCPConnection_fin_truncates:
  assumes "conn_ok c" and "reachable (tr_init S cap) (tr_step S isn) (cn_receiver c, out)"
    and "tr_set_isn (cn_receiver c)" and "TCPReceiver_unassembled_bytes (cn_receiver c) = 0"
    and "th_fin (ts_header seg)" and "\<not> th_rst (ts_header seg)" and "Buffer_str (ts_payload seg) = []"
    and "th_seqno (ts_header seg) = wrap (of_nat (i + 1)) isn"
    and "h = unat (sr_head_index (tr_reassembler (cn_receiver c)))" and "h < i"
    and "i < h + unat (TCPReceiver_window_size (cn_receiver c))" and "i + 1 < h + 2 ^ 31"
  shows "\<exists>c' c''. TCPConnection_segment_received seg c = Some c' \<and> bs_input_ended (TCPReceiver_stream_out (cn_receiver c')) \<and>
    receive_all segs c' = Some c'' \<and> out @ bs_contents (TCPReceiver_stream_out (cn_receiver c'')) = take h S"
proof -
  have inv: "tr_inv S isn cap (cn_receiver c, out)" by (rule tr.reachable_inv [OF assms(2)])
  then have r: "sr_core S out (tr_reassembler (cn_receiver c))" by (auto simp: tr_inv_def sr_run_inv_def sr_inv_def)
  obtain c' where c': "TCPConnection_segment_received seg c = Some c'" "conn_ok c'"
    using segment_received_progress [OF assms(1)] conn_progressD by blast
  have o: "TCPReceiver_stream_out (cn_receiver c') = ByteStream_end_input (TCPReceiver_stream_out (cn_receiver c))"
    using segment_received_receiver(1) [OF c'(1)] assms(6,9)
      empty_fin_ends [OF inv assms(3,4,5,8,7)] assms(10-12) by simp
  then have "bs_input_ended (TCPReceiver_stream_out (cn_receiver c'))" by (simp add: ByteStream_end_input_def)
  from receive_all_ended [OF c'(2) this, of segs] this c'(1) o sr_coreD(4) [OF r] assms(9) show ?thesis
    by (auto simp: ByteStream_end_input_def bs_contents_def TCPReceiver_stream_out_def)
qed

theorem TCPConnection_fin_truncates_witness:
  "\<exists>c c' c''. TCPConnection_segment_received (example_segment True False 6 []) (TCPConnection_new (TCPConfig_default\<lparr>cf_recv_capacity := 8\<rparr>) 1) = Some c \<and>
     TCPConnection_segment_received (example_segment False True 10 []) c = Some c' \<and>
     receive_all [example_segment False True 7 [1, 2, 3]] c' = Some c'' \<and>
     bs_input_ended (TCPReceiver_stream_out (cn_receiver c')) \<and> bs_contents (TCPReceiver_stream_out (cn_receiver c'')) = []"
proof -
  let ?c0 = "TCPConnection_new (TCPConfig_default\<lparr>cf_recv_capacity := 8\<rparr>) 1" and ?syn = "example_segment True False 6 []"
  let ?S = "[1, 2, 3] :: bytes" and ?isn = "WrappingInt32 6" and ?fin = "example_segment False True 10 []"
  let ?t0 = "TCPReceiver_new 8"
  let ?t1 = "TCPReceiver_segment_received ?syn ?t0"
  have "conn_ok ?c0" 
    by (rule conn_new_ok [of "TCPConfig_default\<lparr>cf_recv_capacity := 8\<rparr>" 1])
       (simp add: conn_init_def TCPConfig_default_def DEFAULT_CAPACITY_def)
  then obtain c where c: "TCPConnection_segment_received ?syn ?c0 = Some c" "conn_ok c"
    using segment_received_progress conn_progressD by blast
  have r: "cn_receiver c = ?t1"
    using segment_received_receiver(1) [OF c(1)]
    by (simp add: example_segment_def TCPHeader_default_def TCPConnection_new_def Let_def)
  have "reachable (tr_init ?S 8) (tr_step ?S ?isn) (?t0, [])"
    by (rule reach_init) (simp add: tr_init_def)
  moreover have "valid_segment ?S ?isn ?t0 0 ?syn" unfolding valid_segment_def Let_def by code_simp
  then have "tr_step ?S ?isn (?t0, []) (?t1, [])" by (rule tr_segment)
  ultimately have "reachable (tr_init ?S 8) (tr_step ?S ?isn) (cn_receiver c, [])"
    unfolding r by (rule reach_step)
  note f = TCPConnection_fin_truncates [OF c(2) this]
  have h: "tr_set_isn ?t1" "TCPReceiver_unassembled_bytes ?t1 = 0" "unat (sr_head_index (tr_reassembler ?t1)) = 0"
    "unat (TCPReceiver_window_size ?t1) = 8" by code_simp+
  have s: "th_fin (ts_header ?fin)" "\<not> th_rst (ts_header ?fin)" "th_seqno (ts_header ?fin) = wrap (of_nat (3 + 1)) ?isn"
    "Buffer_str (ts_payload ?fin) = []"
    by (simp_all add: example_segment_def TCPHeader_default_def Buffer_str_of wrap_def)
  have "\<exists>c' c''. TCPConnection_segment_received ?fin c = Some c' \<and> bs_input_ended (TCPReceiver_stream_out (cn_receiver c')) \<and>
      receive_all [example_segment False True 7 [1, 2, 3]] c' = Some c'' \<and>
      [] @ bs_contents (TCPReceiver_stream_out (cn_receiver c'')) = take 0 ?S"
    by (rule f [OF _ _ s(1,2,4,3)]) (simp_all only: r h, simp_all)
  then obtain c' c'' where "TCPConnection_segment_received ?fin c = Some c'" "bs_input_ended (TCPReceiver_stream_out (cn_receiver c'))"
    "receive_all [example_segment False True 7 [1, 2, 3]] c' = Some c''" "bs_contents (TCPReceiver_stream_out (cn_receiver c'')) = []"
    unfolding append_Nil take_0 by blast
  with c(1) show ?thesis by blast
qed

end
