(* ===== verification/IPv4.thy ===== *)
theory IPv4
  imports TCP_Segment
begin

text \<open>
  \<open>libsponge/tcp_helpers/ipv4_header.hh\<close>, \<open>ipv4_datagram.hh\<close> and their \<open>.cc\<close>: the IPv4 header
  with its wire format, the pseudo-header sum for TCP, and the datagram. A serialized
  datagram parses back to itself; the header parser reports every malformed header, and the
  datagram parser drops that report.
\<close>

section \<open>Header\<close>

record IPv4Header =
  ih_ver :: u8
  ih_hlen :: u8
  ih_tos :: u8
  ih_len :: u16
  ih_id :: u16
  ih_df :: bool
  ih_mf :: bool
  ih_offset :: u16
  ih_ttl :: u8
  ih_proto :: u8
  ih_cksum :: u16
  ih_src :: u32
  ih_dst :: u32

definition IPv4Header_LENGTH :: size_t where
  "IPv4Header_LENGTH = 20"

definition DEFAULT_TTL :: u8 where
  "DEFAULT_TTL = 128"

definition PROTO_TCP :: u8 where
  "PROTO_TCP = 6"

definition IPv4Header_default :: IPv4Header where
  "IPv4Header_default =
     \<lparr>ih_ver = 4, ih_hlen = 5, ih_tos = 0, ih_len = 0, ih_id = 0, ih_df = True, ih_mf = False,
      ih_offset = 0, ih_ttl = DEFAULT_TTL, ih_proto = PROTO_TCP, ih_cksum = 0, ih_src = 0, ih_dst = 0\<rparr>"

definition IPv4Header_parse :: "IPv4Header \<Rightarrow> NetParser \<Rightarrow> ParseResult \<times> IPv4Header \<times> NetParser" where
  "IPv4Header_parse h0 p0 =
     (let original_serialized_version = np_buffer p0;
          data_size = Buffer_size (np_buffer p0)
      in if data_size < IPv4Header_LENGTH then (PacketTooShort, h0, p0)
         else
           let (first_byte, p1) = NetParser_u8 p0;
               ver = drop_bit 4 first_byte;
               hlen = first_byte AND 0x0f;
               (tos, p2) = NetParser_u8 p1;
               (len, p3) = NetParser_u16 p2;
               (id, p4) = NetParser_u16 p3;
               (fo_val, p5) = NetParser_u16 p4;
               (ttl, p6) = NetParser_u8 p5;
               (proto, p7) = NetParser_u8 p6;
               (cksum, p8) = NetParser_u16 p7;
               (src, p9) = NetParser_u32 p8;
               (dst, p10) = NetParser_u32 p9;
               h = \<lparr>ih_ver = ver, ih_hlen = hlen, ih_tos = tos, ih_len = len, ih_id = id,
                    ih_df = (fo_val AND 0x4000 \<noteq> 0), ih_mf = (fo_val AND 0x2000 \<noteq> 0),
                    ih_offset = fo_val AND 0x1fff, ih_ttl = ttl, ih_proto = proto, ih_cksum = cksum,
                    ih_src = src, ih_dst = dst\<rparr>
           in if data_size < 4 * ucast hlen then (PacketTooShort, h, p10)
              else if ver \<noteq> 4 then (WrongIPVersion, h, p10)
              else if hlen < 5 then (HeaderTooShort, h, p10)
              else if data_size \<noteq> ucast len then (TruncatedPacket, h, p10)
              else
                let p11 = NetParser_remove_prefix (ucast hlen * 4 - IPv4Header_LENGTH) p10
                in if NetParser_error p11 then (NetParser_get_error p11, h, p11)
                   else
                     let check = InternetChecksum_add (take (unat (4 * ucast hlen :: size_t))
                           (Buffer_str original_serialized_version)) (InternetChecksum_new 0)
                     in if InternetChecksum_value check \<noteq> 0 then (BadChecksum, h, p11) else (NoError, h, p11))"

definition IPv4Header_fo_val :: "IPv4Header \<Rightarrow> u16" where
  "IPv4Header_fo_val h =
     (if ih_df h then 0x4000 else 0) OR (if ih_mf h then 0x2000 else 0) OR (ih_offset h AND 0x1fff)"

definition IPv4Header_serialize :: "IPv4Header \<Rightarrow> bytes res" where
  "IPv4Header_serialize h =
     (if ih_ver h \<noteq> 4 then Inl (Runtime_error ''wrong IP version'')
      else if 4 * ucast (ih_hlen h) < IPv4Header_LENGTH then Inl (Runtime_error ''IP header too short'')
      else
        let first_byte = push_bit 4 (ih_ver h) OR (ih_hlen h AND 0xf);
            ret = NetUnparser_u8 [] first_byte;
            ret = NetUnparser_u8 ret (ih_tos h);
            ret = NetUnparser_u16 ret (ih_len h);
            ret = NetUnparser_u16 ret (ih_id h);
            ret = NetUnparser_u16 ret (IPv4Header_fo_val h);
            ret = NetUnparser_u8 ret (ih_ttl h);
            ret = NetUnparser_u8 ret (ih_proto h);
            ret = NetUnparser_u16 ret (ih_cksum h);
            ret = NetUnparser_u32 ret (ih_src h);
            ret = NetUnparser_u32 ret (ih_dst h)
        in Inr (str_resize (4 * unat (ih_hlen h)) ret))"

definition payload_length :: "IPv4Header \<Rightarrow> u16" where
  "payload_length h = ih_len h - 4 * ucast (ih_hlen h)"

definition pseudo_cksum :: "IPv4Header \<Rightarrow> u32" where
  "pseudo_cksum h =
     (let pcksum = drop_bit 16 (ih_src h) + (ih_src h AND 0xffff);
          pcksum = pcksum + (drop_bit 16 (ih_dst h) + (ih_dst h AND 0xffff));
          pcksum = pcksum + ucast (ih_proto h);
          pcksum = pcksum + ucast (payload_length h)
      in pcksum)"

section \<open>Datagram\<close>

record IPv4Datagram =
  id_header :: IPv4Header
  id_payload :: BufferList

definition IPv4Datagram_default :: IPv4Datagram where
  "IPv4Datagram_default = \<lparr>id_header = IPv4Header_default, id_payload = []\<rparr>"

definition IPv4Datagram_parse :: "IPv4Datagram \<Rightarrow> Buffer \<Rightarrow> ParseResult \<times> IPv4Datagram" where
  "IPv4Datagram_parse d buffer =
     (let (_, h, p) = IPv4Header_parse (id_header d) (NetParser_new buffer);
          d' = \<lparr>id_header = h, id_payload = BufferList_of_Buffer (np_buffer p)\<rparr>
      in if BufferList_size (id_payload d') \<noteq> ucast (payload_length (id_header d')) then (PacketTooShort, d')
         else (NetParser_get_error p, d'))"

definition IPv4Datagram_serialize :: "IPv4Datagram \<Rightarrow> BufferList res" where
  "IPv4Datagram_serialize d =
     (if BufferList_size (id_payload d) \<noteq> ucast (payload_length (id_header d))
      then Inl (Runtime_error ''IPv4Datagram::serialize: payload is wrong size'')
      else
        let header_out = (id_header d)\<lparr>ih_cksum := 0\<rparr>
        in case IPv4Header_serialize header_out of
             Inl e \<Rightarrow> Inl e
           | Inr header_zero_checksum \<Rightarrow>
               let check = InternetChecksum_add header_zero_checksum (InternetChecksum_new 0);
                   header_out = header_out\<lparr>ih_cksum := InternetChecksum_value check\<rparr>
               in case IPv4Header_serialize header_out of
                    Inl e \<Rightarrow> Inl e
                  | Inr s \<Rightarrow> Inr (BufferList_append (BufferList_append [] (BufferList_of_string s)) (id_payload d)))"

section \<open>The wire format\<close>

definition ip_header_ok :: "IPv4Header \<Rightarrow> bool" where
  "ip_header_ok h \<longleftrightarrow>
     ih_ver h = 4 \<and> 5 \<le> unat (ih_hlen h) \<and> unat (ih_hlen h) \<le> 15 \<and> unat (ih_offset h) < 0x2000"

definition ip_header_bytes :: "IPv4Header \<Rightarrow> bytes" where
  "ip_header_bytes h =
     be_bytes 1 (push_bit 4 (ih_ver h) OR (ih_hlen h AND 0xf)) @ be_bytes 1 (ih_tos h) @ be_bytes 2 (ih_len h) @
     be_bytes 2 (ih_id h) @ be_bytes 2 (IPv4Header_fo_val h) @ be_bytes 1 (ih_ttl h) @ be_bytes 1 (ih_proto h) @
     be_bytes 2 (ih_cksum h) @ be_bytes 4 (ih_src h) @ be_bytes 4 (ih_dst h) @
     replicate (4 * unat (ih_hlen h) - 20) 0"

lemma length_ip_header_bytes: "ip_header_ok h \<Longrightarrow> length (ip_header_bytes h) = 4 * unat (ih_hlen h)"
  by (auto simp: ip_header_bytes_def ip_header_ok_def)

lemma unat_4_hlen: "unat (4 * ucast (x :: u8) :: size_t) = 4 * unat x"
  using unat_lt_8 [of x] by (simp add: unat_word_ariths unat_ucast_up)

lemma IPv4Header_serialize_bytes: "ip_header_ok h \<Longrightarrow> IPv4Header_serialize h = Inr (ip_header_bytes h)"
  by (auto simp: IPv4Header_serialize_def ip_header_ok_def ip_header_bytes_def str_resize_def Let_def
      IPv4Header_LENGTH_def word_less_nat_alt unat_4_hlen)


lemma and_or_distrib2: "((x :: 'a::len word) OR y) AND z = (x AND z) OR (y AND z)"
  by (rule bit_eqI) (auto simp: bit_simps)

lemma and_numeral_assoc: "((x :: 'a::len word) AND numeral m) AND numeral n = x AND (numeral m AND numeral n)"
  by (rule and.assoc)

lemma and_low_id: "unat (x :: 'a::len word) < 2 ^ n \<Longrightarrow> n < LENGTH('a) \<Longrightarrow> x AND mask n = x"
  by (simp add: word_unat_eq_iff unat_and_mask)

lemma fo_val_decode:
  assumes "unat (ih_offset h) < 0x2000"
  shows "(IPv4Header_fo_val h AND 0x4000 \<noteq> 0) = ih_df h" "(IPv4Header_fo_val h AND 0x2000 \<noteq> 0) = ih_mf h"
    "IPv4Header_fo_val h AND 0x1fff = ih_offset h"
proof -
  have "ih_offset h AND 0x1fff = ih_offset h"
    using and_low_id [of "ih_offset h" 13] assms by (simp add: mask_eq_exp_minus_1)
  then show "IPv4Header_fo_val h AND 0x1fff = ih_offset h"
    by (simp add: IPv4Header_fo_val_def and_or_distrib2 and_numeral_assoc)
  show "(IPv4Header_fo_val h AND 0x4000 \<noteq> 0) = ih_df h" "(IPv4Header_fo_val h AND 0x2000 \<noteq> 0) = ih_mf h"
    by (simp_all add: IPv4Header_fo_val_def and_or_distrib2 and_numeral_assoc)
qed

lemma first_byte_decode:
  assumes "unat (y :: u8) < 16"
  shows "drop_bit 4 (push_bit 4 4 OR (y AND 0xf)) = (4 :: u8)" "(push_bit 4 4 OR (y AND 0xf)) AND 0x0f = y"
proof -
  have "y AND 0xf = y" using and_low_id [of y 4] assms by (simp add: mask_eq_exp_minus_1)
  then show "(push_bit 4 4 OR (y AND 0xf)) AND 0x0f = y" by (simp add: and_or_distrib2)
  have "drop_bit 4 (y AND mask 4) = 0" by (rule bit_eqI) (auto simp: bit_simps)
  then show "drop_bit 4 (push_bit 4 4 OR (y AND 0xf)) = (4 :: u8)"
    by (simp add: mask_eq_exp_minus_1 drop_bit_or)
qed

lemma IPv4Header_parse_bytes:
  assumes ok: "ip_header_ok h" and p: "parser_at p (ip_header_bytes h @ rest)"
    and len: "length (ip_header_bytes h @ rest) = unat (ih_len h)"
    and ck: "InternetChecksum_value (InternetChecksum_add (ip_header_bytes h) (InternetChecksum_new 0)) = 0"
  shows "\<exists>p'. IPv4Header_parse h0 p = (NoError, h, p') \<and> parser_at p' rest"
proof -
  let ?s10 = "replicate (4 * unat (ih_hlen h) - 20) 0 @ rest" let ?s9 = "be_bytes 4 (ih_dst h) @ ?s10"
  let ?s8 = "be_bytes 4 (ih_src h) @ ?s9" let ?s7 = "be_bytes 2 (ih_cksum h) @ ?s8"
  let ?s6 = "be_bytes 1 (ih_proto h) @ ?s7" let ?s5 = "be_bytes 1 (ih_ttl h) @ ?s6"
  let ?s4 = "be_bytes 2 (IPv4Header_fo_val h) @ ?s5" let ?s3 = "be_bytes 2 (ih_id h) @ ?s4"
  let ?s2 = "be_bytes 2 (ih_len h) @ ?s3" let ?s1 = "be_bytes 1 (ih_tos h) @ ?s2"
  define b0 where "b0 = push_bit 4 (ih_ver h) OR (ih_hlen h AND 0xf)"
  note p0 = p [unfolded ip_header_bytes_def append_assoc b0_def [symmetric]]
  obtain p1 where 1: "NetParser_u8 p = (b0, p1)" "parser_at p1 ?s1" by (rule u8.decE [OF p0 TrueI])
  obtain p2 where 2: "NetParser_u8 p1 = (ih_tos h, p2)" "parser_at p2 ?s2" by (rule u8.decE [OF 1(2) TrueI])
  obtain p3 where 3: "NetParser_u16 p2 = (ih_len h, p3)" "parser_at p3 ?s3" by (rule u16.decE [OF 2(2) TrueI])
  obtain p4 where 4: "NetParser_u16 p3 = (ih_id h, p4)" "parser_at p4 ?s4" by (rule u16.decE [OF 3(2) TrueI])
  obtain p5 where 5: "NetParser_u16 p4 = (IPv4Header_fo_val h, p5)" "parser_at p5 ?s5" by (rule u16.decE [OF 4(2) TrueI])
  obtain p6 where 6: "NetParser_u8 p5 = (ih_ttl h, p6)" "parser_at p6 ?s6" by (rule u8.decE [OF 5(2) TrueI])
  obtain p7 where 7: "NetParser_u8 p6 = (ih_proto h, p7)" "parser_at p7 ?s7" by (rule u8.decE [OF 6(2) TrueI])
  obtain p8 where 8: "NetParser_u16 p7 = (ih_cksum h, p8)" "parser_at p8 ?s8" by (rule u16.decE [OF 7(2) TrueI])
  obtain p9 where 9: "NetParser_u32 p8 = (ih_src h, p9)" "parser_at p9 ?s9" by (rule u32.decE [OF 8(2) TrueI])
  obtain p10 where 10: "NetParser_u32 p9 = (ih_dst h, p10)" "parser_at p10 ?s10" by (rule u32.decE [OF 9(2) TrueI])
  have v: "ih_ver h = 4" "unat (ih_hlen h) < 16" "5 \<le> unat (ih_hlen h)" "unat (ih_offset h) < 0x2000"
    using ok by (auto simp: ip_header_ok_def)
  have fb: "drop_bit 4 b0 = 4" "b0 AND 0x0f = ih_hlen h"
    unfolding b0_def v(1) by (rule first_byte_decode [OF v(2)])+
  note fo = fo_val_decode [OF v(4)]
  have sz: "unat (Buffer_size (np_buffer p)) = unat (ih_len h)"
    using p len unat_Buffer_size [of "np_buffer p"] by (simp add: parser_at_def)
  have hl: "4 * unat (ih_hlen h) \<le> unat (ih_len h)" using len length_ip_header_bytes [OF ok] by simp
  let ?p11 = "NetParser_remove_prefix (ucast (ih_hlen h) * 4 - IPv4Header_LENGTH) p10"
  have "parser_at ?p11 rest"
    using remove_prefix_at [OF 10(2), of "ucast (ih_hlen h) * 4 - IPv4Header_LENGTH"] unat_options_length [OF v(3)]
    by (simp add: IPv4Header_LENGTH_def TCPHeader_LENGTH_def)
  moreover have "take (4 * unat (ih_hlen h)) (Buffer_str (np_buffer p)) = ip_header_bytes h"
    using p length_ip_header_bytes [OF ok] by (simp add: parser_at_def)
  moreover have "\<not> Buffer_size (np_buffer p) < IPv4Header_LENGTH" "\<not> Buffer_size (np_buffer p) < 4 * ucast (ih_hlen h)"
    "\<not> ih_hlen h < 5" "Buffer_size (np_buffer p) = ucast (ih_len h)"
    using sz hl v by (auto simp: word_less_nat_alt IPv4Header_LENGTH_def unat_4_hlen word_unat_eq_iff unat_ucast_up)
  ultimately have "IPv4Header_parse h0 p = (NoError, h, ?p11)"
    using ck v(1) by (simp add: IPv4Header_parse_def 1 2 3 4 5 6 7 8 9 10 fb fo Let_def parser_atD(1) unat_4_hlen)
  with \<open>parser_at ?p11 rest\<close> show ?thesis by blast
qed


section \<open>Checksum of a header\<close>

definition ip_wire_header :: "IPv4Header \<Rightarrow> IPv4Header" where
  "ip_wire_header h =
     h\<lparr>ih_cksum := InternetChecksum_value
        (InternetChecksum_add (ip_header_bytes (h\<lparr>ih_cksum := 0\<rparr>)) (InternetChecksum_new 0))\<rparr>"

lemma ip_header_ok_cksum [simp]: "ip_header_ok (h\<lparr>ih_cksum := c\<rparr>) = ip_header_ok h"
  by (simp add: ip_header_ok_def)

lemma ip_header_ok_wire [simp]: "ip_header_ok (ip_wire_header h) = ip_header_ok h"
  by (simp add: ip_wire_header_def)

lemma ip_header_bytes_cksum:
  obtains pre post where "even (length pre)"
    and "length pre + length post = 18 + (4 * unat (ih_hlen h) - 20)"
    and "\<And>c. ip_header_bytes (h\<lparr>ih_cksum := c\<rparr>) = pre @ be_bytes 2 c @ post"
proof
  let ?pre = "be_bytes 1 (push_bit 4 (ih_ver h) OR (ih_hlen h AND 0xf)) @ be_bytes 1 (ih_tos h) @ be_bytes 2 (ih_len h) @
     be_bytes 2 (ih_id h) @ be_bytes 2 (IPv4Header_fo_val h) @ be_bytes 1 (ih_ttl h) @ be_bytes 1 (ih_proto h)"
  let ?post = "be_bytes 4 (ih_src h) @ be_bytes 4 (ih_dst h) @ replicate (4 * unat (ih_hlen h) - 20) 0"
  show "even (length ?pre)" by simp
  show "length ?pre + length ?post = 18 + (4 * unat (ih_hlen h) - 20)" by simp
  show "ip_header_bytes (h\<lparr>ih_cksum := c\<rparr>) = ?pre @ be_bytes 2 c @ ?post" for c
    by (simp add: ip_header_bytes_def IPv4Header_fo_val_def)
qed

lemma ip_wire_checksum:
  "InternetChecksum_value (InternetChecksum_add (ip_header_bytes (ip_wire_header h)) (InternetChecksum_new 0)) = 0"
proof -
  let ?c = "ih_cksum (ip_wire_header h)"
  obtain pre post where pp: "even (length pre)" "length pre + length post = 18 + (4 * unat (ih_hlen h) - 20)"
    "\<And>c. ip_header_bytes (h\<lparr>ih_cksum := c\<rparr>) = pre @ be_bytes 2 c @ post"
    using ip_header_bytes_cksum [of h] by metis
  have "be_bytes 2 (0 :: u16) = [0, 0]" by (simp add: be_bytes_2)
  then have "?c = InternetChecksum_value (InternetChecksum_add (pre @ 0 # 0 # post) (InternetChecksum_new 0))"
    by (simp add: ip_wire_header_def pp)
  then have "InternetChecksum_value (InternetChecksum_add (pre @ ucast (drop_bit 8 ?c) # ucast ?c # post)
      (InternetChecksum_new 0)) = 0"
    using pp(1,2) unat_lt_8 [of "ih_hlen h"] by (intro checksum_complete) auto
  moreover have "ip_wire_header h = h\<lparr>ih_cksum := ?c\<rparr>" by (simp add: ip_wire_header_def)
  then have "ip_header_bytes (ip_wire_header h) = pre @ be_bytes 2 ?c @ post" using pp(3) by metis
  ultimately show ?thesis by (simp add: be_bytes_2)
qed

lemma IPv4Datagram_serialize_wire:
  assumes "ip_header_ok (id_header d)" and "BufferList_size (id_payload d) = ucast (payload_length (id_header d))"
  shows "IPv4Datagram_serialize d = Inr (Buffer_of (ip_header_bytes (ip_wire_header (id_header d))) # id_payload d)"
  using assms
  by (simp add: IPv4Datagram_serialize_def IPv4Header_serialize_bytes ip_wire_header_def Let_def
      BufferList_append_def BufferList_of_string_def BufferList_of_Buffer_def)

text \<open>The length field covers the header and the payload.\<close>

definition datagram_ok :: "IPv4Datagram \<Rightarrow> bool" where
  "datagram_ok d \<longleftrightarrow>
     ip_header_ok (id_header d) \<and> (\<forall>b\<in>set (id_payload d). buffer_ok b) \<and>
     unat (ih_len (id_header d)) = 4 * unat (ih_hlen (id_header d)) + length (BufferList_concatenate (id_payload d))"

lemma unat_payload_length:
  assumes "4 * unat (ih_hlen h) \<le> unat (ih_len h)"
  shows "unat (payload_length h) = unat (ih_len h) - 4 * unat (ih_hlen h)"
proof -
  have "unat (4 * ucast (ih_hlen h) :: u16) = 4 * unat (ih_hlen h)"
    using unat_lt_8 [of "ih_hlen h"] by (simp add: unat_word_ariths unat_ucast_up)
  then show ?thesis using assms by (simp add: payload_length_def unat_sub word_le_nat_alt)
qed

lemma payload_size:
  assumes "\<forall>b\<in>set bl. buffer_ok b" and "length (BufferList_concatenate bl) < 2 ^ 16"
  shows "BufferList_size bl = ucast (payload_length h) \<longleftrightarrow>
    length (BufferList_concatenate bl) = unat (payload_length h)"
  using assms by (auto simp: BufferList_size_length word_unat_eq_iff unat_of_nat unat_ucast_up)

lemma datagram_ok_size:
  assumes "datagram_ok d"
  shows "BufferList_size (id_payload d) = ucast (payload_length (id_header d))"
proof -
  have "length (BufferList_concatenate (id_payload d)) = unat (payload_length (id_header d))"
    using assms by (subst unat_payload_length) (auto simp: datagram_ok_def)
  moreover have "length (BufferList_concatenate (id_payload d)) < 2 ^ 16"
    using calculation unat_lt_16 [of "payload_length (id_header d)"] by simp
  ultimately show ?thesis using assms payload_size by (simp add: datagram_ok_def)
qed

lemma IPv4Datagram_parse_buffer:
  assumes ok: "datagram_ok d" and b0: "buffer_ok b0"
    and s: "Buffer_str b0 = ip_header_bytes (ip_wire_header (id_header d)) @ BufferList_concatenate (id_payload d)"
  shows "\<exists>b. IPv4Datagram_parse d0 b0 = (NoError, \<lparr>id_header = ip_wire_header (id_header d), id_payload = [b]\<rparr>) \<and>
    buffer_ok b \<and> Buffer_str b = BufferList_concatenate (id_payload d)"
proof -
  let ?h = "ip_wire_header (id_header d)" and ?pl = "BufferList_concatenate (id_payload d)"
  have h: "ip_header_ok ?h" using ok by (simp add: datagram_ok_def)
  have f: "ih_len ?h = ih_len (id_header d)" "ih_hlen ?h = ih_hlen (id_header d)" "payload_length ?h = payload_length (id_header d)"
    by (simp_all add: ip_wire_header_def payload_length_def)
  have len: "length (ip_header_bytes ?h @ ?pl) = unat (ih_len ?h)"
    using ok f length_ip_header_bytes [OF h] by (simp add: datagram_ok_def)
  have "parser_at (NetParser_new b0) (ip_header_bytes ?h @ ?pl)" using parser_at_new [OF b0] s by simp
  from IPv4Header_parse_bytes [OF h this len ip_wire_checksum] obtain p'
    where p': "IPv4Header_parse (id_header d0) (NetParser_new b0) = (NoError, ?h, p')" "parser_at p' ?pl" by auto
  have "BufferList_size [np_buffer p'] = ucast (payload_length ?h)"
    using datagram_ok_size [OF ok] p'(2) ok
    by (simp add: f parser_at_def BufferList_size_length datagram_ok_def Buffer_size_def str_size_def)
  with p' show ?thesis
    by (simp add: IPv4Datagram_parse_def BufferList_of_Buffer_def parser_at_def NetParser_get_error_def)
qed

lemma IPv4Datagram_parse_wire:
  assumes ok: "datagram_ok d"
  shows "\<exists>b. IPv4Datagram_parse d0 (Buffer_of (ip_header_bytes (ip_wire_header (id_header d)) @ BufferList_concatenate (id_payload d)))
    = (NoError, \<lparr>id_header = ip_wire_header (id_header d), id_payload = [b]\<rparr>) \<and> buffer_ok b
      \<and> Buffer_str b = BufferList_concatenate (id_payload d)"
proof -
  let ?h = "ip_wire_header (id_header d)" let ?s = "ip_header_bytes ?h @ BufferList_concatenate (id_payload d)"
  have "length ?s = unat (ih_len (id_header d))"
    using ok length_ip_header_bytes [of ?h] by (simp add: datagram_ok_def) (simp add: ip_wire_header_def)
  then have big: "length ?s < 2 ^ 64" using unat_lt_16 [of "ih_len (id_header d)"] by simp
  show ?thesis by (rule IPv4Datagram_parse_buffer [OF ok buffer_ok_of [OF big] Buffer_str_of [OF big]])
qed

lemma unat_pseudo_cksum: "unat (pseudo_cksum h) < 2 ^ 30"
proof -
  have half: "unat (drop_bit 16 x + (x AND 0xffff)) < 131072" for x :: u32
    using unat_carry_step [of x] unat_lt_32 [of x] mod_less_divisor [of 65536 "unat x"]
    by (simp add: div_less_iff_less_mult add_less_mono [of _ 65536 _ 65536, simplified])
  have add: "unat (a + b) < m + n" if "unat a < m" "unat b < n" for a b :: u32 and m n
    using that unat_plus_if' [of a b] by (auto split: if_splits)
  have c: "unat (ucast (ih_proto h) :: u32) < 256" "unat (ucast (payload_length h) :: u32) < 65536"
    using unat_lt_8 [of "ih_proto h"] unat_lt_16 [of "payload_length h"] by (simp_all add: unat_ucast_up)
  have "unat (pseudo_cksum h) < 131072 + 131072 + 256 + 65536"
    unfolding pseudo_cksum_def Let_def by (intro add half c)
  then show ?thesis by simp
qed


section \<open>Headers that the datagram parser lets pass\<close>

lemma IPv4Header_parse_hlen5:
  assumes c: "consumed s 0 p" and s: "20 \<le> length s" and nib: "s ! 0 AND 0x0f = 5"
    and "IPv4Header_parse h0 p = (r, h, p')"
  shows "consumed s 20 p'" and "ih_hlen h = 5" and "unat (ih_len h) = 256 * unat (s ! 2) + unat (s ! 3)"
proof -
  obtain v1 p1 where 1: "NetParser_u8 p = (v1, p1)" by fastforce
  obtain v2 p2 where 2: "NetParser_u8 p1 = (v2, p2)" by fastforce
  obtain v3 p3 where 3: "NetParser_u16 p2 = (v3, p3)" by fastforce
  obtain v4 p4 where 4: "NetParser_u16 p3 = (v4, p4)" by fastforce
  obtain v5 p5 where 5: "NetParser_u16 p4 = (v5, p5)" by fastforce
  obtain v6 p6 where 6: "NetParser_u8 p5 = (v6, p6)" by fastforce
  obtain v7 p7 where 7: "NetParser_u8 p6 = (v7, p7)" by fastforce
  obtain v8 p8 where 8: "NetParser_u16 p7 = (v8, p8)" by fastforce
  obtain v9 p9 where 9: "NetParser_u32 p8 = (v9, p9)" by fastforce
  obtain v10 p10 where 10: "NetParser_u32 p9 = (v10, p10)" by fastforce
  have c2: "consumed s 2 p2" using u_consumed(3) [OF u_consumed(3) [OF c 1] 2] by (simp add: numeral_2_eq_2)
  have c10: "consumed s 20 p10"
    using u_consumed(1) [OF u_consumed(1) [OF u_consumed(2) [OF u_consumed(3) [OF u_consumed(3)
      [OF u_consumed(2) [OF u_consumed(2) [OF u_consumed(2) [OF c2 3] 4] 5] 6] 7] 8] 9] 10] by simp
  have v1: "v1 AND 0x0f = 5" using u8_value [OF c 1] s nib by (cases s) auto
  have "unat (Buffer_size (np_buffer p)) = length s"
    using c unat_Buffer_size [of "np_buffer p"] by (simp add: consumed_def parser_at_def)
  then have "\<not> Buffer_size (np_buffer p) < IPv4Header_LENGTH"
    using s by (simp add: word_less_nat_alt IPv4Header_LENGTH_def)
  then have h: "ih_hlen h = 5" "ih_len h = v3" "p' = p10 \<or> p' = NetParser_remove_prefix 0 p10"
    using assms(4) v1
    by (auto simp: IPv4Header_parse_def 1 2 3 4 5 6 7 8 9 10 Let_def IPv4Header_LENGTH_def split: if_splits)
  show "consumed s 20 p'" using h(3) c10 remove_prefix_consumed [OF c10, of 0] by auto
  show "ih_hlen h = 5" by (rule h(1))
  show "unat (ih_len h) = 256 * unat (s ! 2) + unat (s ! 3)" using h(2) u16_value [OF c2 3] s by simp
qed

section \<open>Properties\<close>

text \<open>
  C9: a datagram with a legal version-4 header whose length field covers header and payload is
  serialized without an exception, and the bytes parse without error into a datagram with
  the same payload bytes and the same header up to the checksum field.
\<close>
theorem IPv4Datagram_roundtrip:
  assumes "datagram_ok d"
  shows "\<exists>bl d'. IPv4Datagram_serialize d = Inr bl \<and>
    IPv4Datagram_parse d0 (Buffer_of (BufferList_concatenate bl)) = (NoError, d') \<and>
    id_header d' = (id_header d)\<lparr>ih_cksum := ih_cksum (id_header d')\<rparr> \<and>
    BufferList_concatenate (id_payload d') = BufferList_concatenate (id_payload d)"
proof -
  have h: "ip_header_ok (id_header d)" using assms by (simp add: datagram_ok_def)
  then have "length (ip_header_bytes (ip_wire_header (id_header d))) \<le> 60"
    using length_ip_header_bytes [of "ip_wire_header (id_header d)"] by (simp add: ip_header_ok_def ip_wire_header_def)
  then have "Buffer_str (Buffer_of (ip_header_bytes (ip_wire_header (id_header d)))) = ip_header_bytes (ip_wire_header (id_header d))"
    by (intro Buffer_str_of) simp
  with IPv4Datagram_serialize_wire [OF h datagram_ok_size [OF assms]] IPv4Datagram_parse_wire [OF assms, of d0]
  show ?thesis by (auto simp: ip_wire_header_def)
qed

theorem IPv4Datagram_roundtrip_witness:
  "\<exists>bl d'. IPv4Datagram_serialize \<lparr>id_header = IPv4Header_default\<lparr>ih_len := 23, ih_dst := 0x0a000001\<rparr>,
      id_payload = [Buffer_of [1], Buffer_of [2, 3]]\<rparr> = Inr bl \<and>
    IPv4Datagram_parse IPv4Datagram_default (Buffer_of (BufferList_concatenate bl)) = (NoError, d') \<and>
    BufferList_concatenate (id_payload d') = [1, 2, 3]"
  using IPv4Datagram_roundtrip [of "\<lparr>id_header = IPv4Header_default\<lparr>ih_len := 23, ih_dst := 0x0a000001\<rparr>,
      id_payload = [Buffer_of [1], Buffer_of [2, 3]]\<rparr>" IPv4Datagram_default]
  by (fastforce simp: datagram_ok_def ip_header_ok_def IPv4Header_default_def buffer_ok_of Buffer_str_of)

text \<open>
  C11: \<open>IPv4Datagram::parse\<close> drops the result of the header parser. Every buffer of at least 20
  bytes with a header length nibble of 5 and a length field equal to its size is accepted,
  whatever its version and its checksum.
\<close>
theorem IPv4Datagram_parse_drops_errors:
  assumes "buffer_ok b" and "s = Buffer_str b" and "20 \<le> length s" and "s ! 0 AND 0x0f = 5"
    and "256 * unat (s ! 2) + unat (s ! 3) = length s"
  shows "fst (IPv4Datagram_parse d b) = NoError"
proof -
  obtain r h p where p: "IPv4Header_parse (id_header d) (NetParser_new b) = (r, h, p)" by (metis prod_cases3)
  have c: "consumed s 0 (NetParser_new b)" using assms(1,2) consumed_new by simp
  note H = IPv4Header_parse_hlen5 [OF c assms(3,4) p]
  have pa: "parser_at p (drop 20 s)" using H(1) assms(3) by (simp add: consumed_def)
  have "unat (payload_length h) = length s - 20"
    using H(2,3) assms(3,5) by (subst unat_payload_length) auto
  then have "Buffer_size (np_buffer p) = ucast (payload_length h)"
    using pa unat_Buffer_size [of "np_buffer p"]
    by (simp add: parser_at_def word_unat_eq_iff unat_ucast_up)
  then show ?thesis using p pa by (simp add: IPv4Datagram_parse_def BufferList_of_Buffer_def parser_at_def NetParser_get_error_def)
qed

theorem IPv4Datagram_parse_drops_errors_witness:
  "fst (IPv4Datagram_parse IPv4Datagram_default (Buffer_of ([0x65, 0, 0, 20] @ replicate 16 0xff))) = NoError"
proof -
  let ?s = "[0x65, 0, 0, 20] @ replicate 16 (0xff :: u8)"
  have b: "buffer_ok (Buffer_of ?s)" "Buffer_str (Buffer_of ?s) = ?s" by (simp_all add: buffer_ok_of Buffer_str_of)
  show ?thesis
    by (rule IPv4Datagram_parse_drops_errors [OF b(1) b(2) [symmetric]]) simp_all
qed

end
