(* ===== verification/Ethernet_ARP.thy ===== *)
theory Ethernet_ARP
  imports IPv4
begin

text \<open>
  \<open>libsponge/tcp_helpers/ethernet_header.hh\<close>, \<open>ethernet_frame.hh\<close>, \<open>arp_message.hh\<close> and their
  \<open>.cc\<close>: Ethernet frames and ARP messages with their wire formats. An Ethernet address is a
  list of six bytes, an instance of the \<open>codec\<close> contract. Frames and ARP messages round-trip;
  the outcome of both parsers is determined for every input.
\<close>

section \<open>Ethernet\<close>

type_synonym EthernetAddress = bytes

definition ETHERNET_BROADCAST :: EthernetAddress where
  "ETHERNET_BROADCAST = [0xff, 0xff, 0xff, 0xff, 0xff, 0xff]"

definition TYPE_IPv4 :: u16 where
  "TYPE_IPv4 = 0x800"

definition TYPE_ARP :: u16 where
  "TYPE_ARP = 0x806"

definition EthernetHeader_LENGTH :: size_t where
  "EthernetHeader_LENGTH = 14"

record EthernetHeader =
  eh_dst :: EthernetAddress
  eh_src :: EthernetAddress
  eh_type :: u16

definition EthernetHeader_zero :: EthernetHeader where
  "EthernetHeader_zero = \<lparr>eh_dst = replicate 6 0, eh_src = replicate 6 0, eh_type = 0\<rparr>"

text \<open>The loop that fills an array of \<open>n\<close> bytes.\<close>

fun parse_bytes :: "nat \<Rightarrow> NetParser \<Rightarrow> bytes \<times> NetParser" where
  "parse_bytes 0 p = ([], p)"
| "parse_bytes (Suc n) p =
     (let (b, p1) = NetParser_u8 p;
          (bs, p2) = parse_bytes n p1
      in (b # bs, p2))"

definition unparse_bytes :: "bytes \<Rightarrow> bytes \<Rightarrow> bytes" where
  "unparse_bytes ret address = foldl NetUnparser_u8 ret address"

definition EthernetHeader_parse :: "EthernetHeader \<Rightarrow> NetParser \<Rightarrow> ParseResult \<times> EthernetHeader \<times> NetParser" where
  "EthernetHeader_parse h p =
     (if Buffer_size (np_buffer p) < EthernetHeader_LENGTH then (PacketTooShort, h, p)
      else
        let (dst, p1) = parse_bytes 6 p;
            (src, p2) = parse_bytes 6 p1;
            (type, p3) = NetParser_u16 p2
        in (NetParser_get_error p3, \<lparr>eh_dst = dst, eh_src = src, eh_type = type\<rparr>, p3))"

definition EthernetHeader_serialize :: "EthernetHeader \<Rightarrow> bytes" where
  "EthernetHeader_serialize h =
     (let ret = unparse_bytes [] (eh_dst h);
          ret = unparse_bytes ret (eh_src h)
      in NetUnparser_u16 ret (eh_type h))"

record EthernetFrame =
  ef_header :: EthernetHeader
  ef_payload :: BufferList

definition EthernetFrame_default :: EthernetFrame where
  "EthernetFrame_default = \<lparr>ef_header = EthernetHeader_zero, ef_payload = []\<rparr>"

definition EthernetFrame_parse :: "EthernetFrame \<Rightarrow> Buffer \<Rightarrow> ParseResult \<times> EthernetFrame" where
  "EthernetFrame_parse f buffer =
     (let (_, h, p) = EthernetHeader_parse (ef_header f) (NetParser_new buffer)
      in (NetParser_get_error p, \<lparr>ef_header = h, ef_payload = BufferList_of_Buffer (np_buffer p)\<rparr>))"

definition EthernetFrame_serialize :: "EthernetFrame \<Rightarrow> BufferList" where
  "EthernetFrame_serialize f =
     BufferList_append (BufferList_append [] (BufferList_of_string (EthernetHeader_serialize (ef_header f)))) (ef_payload f)"

section \<open>ARP\<close>

definition ARPMessage_LENGTH :: size_t where
  "ARPMessage_LENGTH = 28"

definition TYPE_ETHERNET :: u16 where
  "TYPE_ETHERNET = 1"

definition OPCODE_REQUEST :: u16 where
  "OPCODE_REQUEST = 1"

definition OPCODE_REPLY :: u16 where
  "OPCODE_REPLY = 2"

record ARPMessage =
  am_hardware_type :: u16
  am_protocol_type :: u16
  am_hardware_address_size :: u8
  am_protocol_address_size :: u8
  am_opcode :: u16
  am_sender_ethernet_address :: EthernetAddress
  am_sender_ip_address :: u32
  am_target_ethernet_address :: EthernetAddress
  am_target_ip_address :: u32

definition ARPMessage_default :: ARPMessage where
  "ARPMessage_default =
     \<lparr>am_hardware_type = TYPE_ETHERNET, am_protocol_type = TYPE_IPv4, am_hardware_address_size = 6,
      am_protocol_address_size = 4, am_opcode = 0, am_sender_ethernet_address = replicate 6 0,
      am_sender_ip_address = 0, am_target_ethernet_address = replicate 6 0, am_target_ip_address = 0\<rparr>"

definition ARPMessage_supported :: "ARPMessage \<Rightarrow> bool" where
  "ARPMessage_supported m \<longleftrightarrow>
     am_hardware_type m = TYPE_ETHERNET \<and> am_protocol_type m = TYPE_IPv4 \<and>
     am_hardware_address_size m = 6 \<and> am_protocol_address_size m = 4 \<and>
     (am_opcode m = OPCODE_REQUEST \<or> am_opcode m = OPCODE_REPLY)"

definition ARPMessage_parse :: "ARPMessage \<Rightarrow> Buffer \<Rightarrow> ParseResult \<times> ARPMessage" where
  "ARPMessage_parse m0 buffer =
     (let p0 = NetParser_new buffer
      in if Buffer_size (np_buffer p0) < ARPMessage_LENGTH then (PacketTooShort, m0)
         else
           let (hardware_type, p1) = NetParser_u16 p0;
               (protocol_type, p2) = NetParser_u16 p1;
               (hardware_address_size, p3) = NetParser_u8 p2;
               (protocol_address_size, p4) = NetParser_u8 p3;
               (opcode, p5) = NetParser_u16 p4;
               m = m0\<lparr>am_hardware_type := hardware_type, am_protocol_type := protocol_type,
                     am_hardware_address_size := hardware_address_size,
                     am_protocol_address_size := protocol_address_size, am_opcode := opcode\<rparr>
           in if \<not> ARPMessage_supported m then (Unsupported, m)
              else
                let (sender_ethernet_address, p6) = parse_bytes 6 p5;
                    (sender_ip_address, p7) = NetParser_u32 p6;
                    (target_ethernet_address, p8) = parse_bytes 6 p7;
                    (target_ip_address, p9) = NetParser_u32 p8
                in (NetParser_get_error p9,
                    m\<lparr>am_sender_ethernet_address := sender_ethernet_address, am_sender_ip_address := sender_ip_address,
                      am_target_ethernet_address := target_ethernet_address, am_target_ip_address := target_ip_address\<rparr>))"

definition ARPMessage_serialize :: "ARPMessage \<Rightarrow> bytes res" where
  "ARPMessage_serialize m =
     (if \<not> ARPMessage_supported m
      then Inl (Runtime_error ''ARPMessage::serialize(): unsupported field combination (must be Ethernet/IP, and request or reply)'')
      else
        let ret = NetUnparser_u16 [] (am_hardware_type m);
            ret = NetUnparser_u16 ret (am_protocol_type m);
            ret = NetUnparser_u8 ret (am_hardware_address_size m);
            ret = NetUnparser_u8 ret (am_protocol_address_size m);
            ret = NetUnparser_u16 ret (am_opcode m);
            ret = unparse_bytes ret (am_sender_ethernet_address m);
            ret = NetUnparser_u32 ret (am_sender_ip_address m);
            ret = unparse_bytes ret (am_target_ethernet_address m)
        in Inr (NetUnparser_u32 ret (am_target_ip_address m)))"

section \<open>Byte arrays as a codec\<close>

lemma be_bytes_1 [simp]: "be_bytes (Suc 0) (c :: u8) = [c]"
proof -
  have "(0xff :: u8) = - 1" by simp
  then have "c AND 0xff = c" by (simp only: and.right_neutral)
  then show ?thesis by (simp add: be_bytes_def)
qed

lemma unparse_bytes_append [simp]: "unparse_bytes ret a = ret @ a"
  by (induction a arbitrary: ret) (simp_all add: unparse_bytes_def)

lemma parse_bytes_at:
  "parser_at p (a @ rest) \<Longrightarrow> n = length a \<Longrightarrow> \<exists>p'. parse_bytes n p = (a, p') \<and> parser_at p' rest"
proof (induction a arbitrary: p n)
  case (Cons c a)
  then have "parser_at p (be_bytes 1 c @ (a @ rest))" by simp
  then obtain p1 where p1: "NetParser_u8 p = (c, p1)" "parser_at p1 (a @ rest)" by (rule u8.decE) auto
  with Cons.IH [OF p1(2) refl] Cons.prems show ?case by auto
qed simp

interpretation eth_address: codec "\<lambda>a. length a = 6" "\<lambda>a. a" "parse_bytes 6"
  by unfold_locales (simp add: parse_bytes_at)

definition eth_header_ok :: "EthernetHeader \<Rightarrow> bool" where
  "eth_header_ok h \<longleftrightarrow> length (eh_dst h) = 6 \<and> length (eh_src h) = 6"

lemma EthernetHeader_serialize_bytes:
  "EthernetHeader_serialize h = eh_dst h @ eh_src h @ be_bytes 2 (eh_type h)"
  by (simp add: EthernetHeader_serialize_def)


lemma EthernetHeader_parse_bytes:
  assumes ok: "eth_header_ok h" and p: "parser_at p (EthernetHeader_serialize h @ rest)"
  shows "\<exists>p'. EthernetHeader_parse h0 p = (NoError, h, p') \<and> parser_at p' rest"
proof -
  let ?s2 = "be_bytes 2 (eh_type h) @ rest" let ?s1 = "eh_src h @ ?s2"
  note p0 = p [unfolded EthernetHeader_serialize_bytes append_assoc]
  have a: "length (eh_dst h) = 6" "length (eh_src h) = 6" using ok by (auto simp: eth_header_ok_def)
  obtain p1 where 1: "parse_bytes 6 p = (eh_dst h, p1)" "parser_at p1 ?s1" by (rule eth_address.decE [OF p0 a(1)])
  obtain p2 where 2: "parse_bytes 6 p1 = (eh_src h, p2)" "parser_at p2 ?s2" by (rule eth_address.decE [OF 1(2) a(2)])
  obtain p3 where 3: "NetParser_u16 p2 = (eh_type h, p3)" "parser_at p3 rest" by (rule u16.decE [OF 2(2) TrueI])
  have "\<not> Buffer_size (np_buffer p) < EthernetHeader_LENGTH"
    using p0 a unat_Buffer_size [of "np_buffer p"]
    by (simp add: parser_at_def word_less_nat_alt EthernetHeader_LENGTH_def)
  then show ?thesis by (simp add: EthernetHeader_parse_def 1 2 3 parser_atD(2) [OF 3(2)])
qed

interpretation eth_header: codec eth_header_ok EthernetHeader_serialize "\<lambda>p. snd (EthernetHeader_parse EthernetHeader_zero p)"
  by unfold_locales (metis EthernetHeader_parse_bytes snd_conv)

definition arp_ok :: "ARPMessage \<Rightarrow> bool" where
  "arp_ok m \<longleftrightarrow>
     ARPMessage_supported m \<and> length (am_sender_ethernet_address m) = 6 \<and> length (am_target_ethernet_address m) = 6"

definition arp_bytes :: "ARPMessage \<Rightarrow> bytes" where
  "arp_bytes m =
     be_bytes 2 (am_hardware_type m) @ be_bytes 2 (am_protocol_type m) @ be_bytes 1 (am_hardware_address_size m) @
     be_bytes 1 (am_protocol_address_size m) @ be_bytes 2 (am_opcode m) @ am_sender_ethernet_address m @
     be_bytes 4 (am_sender_ip_address m) @ am_target_ethernet_address m @ be_bytes 4 (am_target_ip_address m)"

lemma ARPMessage_serialize_bytes: "arp_ok m \<Longrightarrow> ARPMessage_serialize m = Inr (arp_bytes m)"
  by (simp add: ARPMessage_serialize_def arp_ok_def arp_bytes_def)

lemma length_arp_bytes: "arp_ok m \<Longrightarrow> length (arp_bytes m) = 28"
  by (simp add: arp_ok_def arp_bytes_def)

lemma ARPMessage_parse_bytes:
  assumes ok: "arp_ok m" and b: "buffer_ok b" and s: "Buffer_str b = arp_bytes m @ rest"
  shows "ARPMessage_parse m0 b = (NoError, m)"
proof -
  let ?s8 = "be_bytes 4 (am_target_ip_address m) @ rest" let ?s7 = "am_target_ethernet_address m @ ?s8"
  let ?s6 = "be_bytes 4 (am_sender_ip_address m) @ ?s7" let ?s5 = "am_sender_ethernet_address m @ ?s6"
  let ?s4 = "be_bytes 2 (am_opcode m) @ ?s5" let ?s3 = "be_bytes 1 (am_protocol_address_size m) @ ?s4"
  let ?s2 = "be_bytes 1 (am_hardware_address_size m) @ ?s3" let ?s1 = "be_bytes 2 (am_protocol_type m) @ ?s2"
  have p0: "parser_at (NetParser_new b) (be_bytes 2 (am_hardware_type m) @ ?s1)"
    using parser_at_new [OF b] s by (simp add: arp_bytes_def)
  have a: "length (am_sender_ethernet_address m) = 6" "length (am_target_ethernet_address m) = 6" "ARPMessage_supported m"
    using ok by (auto simp: arp_ok_def)
  obtain p1 where 1: "NetParser_u16 (NetParser_new b) = (am_hardware_type m, p1)" "parser_at p1 ?s1" by (rule u16.decE [OF p0 TrueI])
  obtain p2 where 2: "NetParser_u16 p1 = (am_protocol_type m, p2)" "parser_at p2 ?s2" by (rule u16.decE [OF 1(2) TrueI])
  obtain p3 where 3: "NetParser_u8 p2 = (am_hardware_address_size m, p3)" "parser_at p3 ?s3" by (rule u8.decE [OF 2(2) TrueI])
  obtain p4 where 4: "NetParser_u8 p3 = (am_protocol_address_size m, p4)" "parser_at p4 ?s4" by (rule u8.decE [OF 3(2) TrueI])
  obtain p5 where 5: "NetParser_u16 p4 = (am_opcode m, p5)" "parser_at p5 ?s5" by (rule u16.decE [OF 4(2) TrueI])
  obtain p6 where 6: "parse_bytes 6 p5 = (am_sender_ethernet_address m, p6)" "parser_at p6 ?s6" by (rule eth_address.decE [OF 5(2) a(1)])
  obtain p7 where 7: "NetParser_u32 p6 = (am_sender_ip_address m, p7)" "parser_at p7 ?s7" by (rule u32.decE [OF 6(2) TrueI])
  obtain p8 where 8: "parse_bytes 6 p7 = (am_target_ethernet_address m, p8)" "parser_at p8 ?s8" by (rule eth_address.decE [OF 7(2) a(2)])
  obtain p9 where 9: "NetParser_u32 p8 = (am_target_ip_address m, p9)" "parser_at p9 rest" by (rule u32.decE [OF 8(2) TrueI])
  have "\<not> Buffer_size (np_buffer (NetParser_new b)) < ARPMessage_LENGTH"
    using b s length_arp_bytes [OF ok] unat_Buffer_size [OF b]
    by (simp add: word_less_nat_alt ARPMessage_LENGTH_def NetParser_new_def)
  with a(3) show ?thesis
    by (simp add: ARPMessage_parse_def 1 2 3 4 5 6 7 8 9 parser_atD(2) [OF 9(2)] ARPMessage_supported_def Let_def)
qed

lemma parse_bytes_consumed: "consumed s n p \<Longrightarrow> parse_bytes k p = (bs, p') \<Longrightarrow> consumed s (n + k) p' \<and> length bs = k"
proof (induction k arbitrary: n p bs)
  case (Suc k)
  obtain c p1 where c: "NetParser_u8 p = (c, p1)" by fastforce
  obtain cs where cs: "parse_bytes k p1 = (cs, p')" "bs = c # cs" using Suc.prems c by (auto split: prod.splits)
  from Suc.IH [OF u_consumed(3) [OF Suc.prems(1) c] cs(1)] cs(2) show ?case by simp
qed auto

text \<open>A frame that has gone over the wire has its payload in one buffer.\<close>

lemma EthernetFrame_parse_wire:
  assumes "eth_header_ok (ef_header f)" and "length (BufferList_concatenate (ef_payload f)) < 2 ^ 63"
  shows "\<exists>b. EthernetFrame_parse f0 (Buffer_of (BufferList_concatenate (EthernetFrame_serialize f)))
      = (NoError, \<lparr>ef_header = ef_header f, ef_payload = [b]\<rparr>) \<and>
    buffer_ok b \<and> Buffer_str b = BufferList_concatenate (ef_payload f)"
proof -
  let ?h = "EthernetHeader_serialize (ef_header f)" and ?d = "BufferList_concatenate (ef_payload f)"
  have lh: "length ?h = 14" using assms(1) by (simp add: EthernetHeader_serialize_bytes eth_header_ok_def)
  have cat: "BufferList_concatenate (EthernetFrame_serialize f) = ?h @ ?d"
    using lh by (simp add: EthernetFrame_serialize_def BufferList_append_def BufferList_of_string_def
        BufferList_of_Buffer_def Buffer_str_of)
  have big: "length (?h @ ?d) < 2 ^ 64" using lh assms(2) by simp
  have "parser_at (NetParser_new (Buffer_of (?h @ ?d))) (?h @ ?d)"
    using parser_at_new [OF buffer_ok_of [OF big]] Buffer_str_of [OF big] by simp
  from EthernetHeader_parse_bytes [OF assms(1) this, of "ef_header f0"] obtain p'
    where "EthernetHeader_parse (ef_header f0) (NetParser_new (Buffer_of (?h @ ?d))) = (NoError, ef_header f, p')"
      "parser_at p' ?d" by auto
  then show ?thesis
    by (simp add: cat EthernetFrame_parse_def BufferList_of_Buffer_def parser_at_def NetParser_get_error_def)
qed

section \<open>Properties\<close>

text \<open>
  C14: an Ethernet frame with six-byte addresses and well-formed payload buffers parses back,
  from the concatenation of its serialization, to the same header and payload bytes.
\<close>
theorem EthernetFrame_roundtrip:
  assumes "eth_header_ok (ef_header f)" and "\<forall>b\<in>set (ef_payload f). buffer_ok b"
    and "length (BufferList_concatenate (ef_payload f)) < 2 ^ 63"
  shows "\<exists>f'. EthernetFrame_parse f0 (Buffer_of (BufferList_concatenate (EthernetFrame_serialize f))) = (NoError, f') \<and>
    ef_header f' = ef_header f \<and> BufferList_concatenate (ef_payload f') = BufferList_concatenate (ef_payload f)"
  using EthernetFrame_parse_wire [OF assms(1,3), of f0] by auto

theorem EthernetFrame_roundtrip_witness:
  "\<exists>f'. EthernetFrame_parse EthernetFrame_default (Buffer_of (BufferList_concatenate (EthernetFrame_serialize
      \<lparr>ef_header = \<lparr>eh_dst = ETHERNET_BROADCAST, eh_src = [2, 0, 0, 0, 0, 1], eh_type = TYPE_ARP\<rparr>,
       ef_payload = [Buffer_of [7]]\<rparr>))) = (NoError, f') \<and> eh_dst (ef_header f') = ETHERNET_BROADCAST"
  using EthernetFrame_roundtrip [of "\<lparr>ef_header = \<lparr>eh_dst = ETHERNET_BROADCAST, eh_src = [2, 0, 0, 0, 0, 1], eh_type = TYPE_ARP\<rparr>,
       ef_payload = [Buffer_of [7]]\<rparr>" EthernetFrame_default]
  by (fastforce simp: eth_header_ok_def ETHERNET_BROADCAST_def buffer_ok_of Buffer_str_of)

text \<open>
  C16: \<open>EthernetFrame::parse\<close> never reports an error: a buffer shorter than the header leaves the
  old header in place and becomes the payload as a whole.
\<close>
theorem EthernetFrame_parse_total:
  assumes "buffer_ok b"
  shows "fst (EthernetFrame_parse f b) = NoError \<and>
    (length (Buffer_str b) < 14 \<longrightarrow>
      ef_header (snd (EthernetFrame_parse f b)) = ef_header f \<and> ef_payload (snd (EthernetFrame_parse f b)) = [b])"
proof (cases "length (Buffer_str b) < 14")
  case True
  then have "Buffer_size b < EthernetHeader_LENGTH"
    using unat_Buffer_size [OF assms] by (simp add: word_less_nat_alt EthernetHeader_LENGTH_def)
  then show ?thesis
    by (simp add: EthernetFrame_parse_def EthernetHeader_parse_def NetParser_new_def NetParser_get_error_def BufferList_of_Buffer_def)
next
  case False
  obtain d p1 where 1: "parse_bytes 6 (NetParser_new b) = (d, p1)" by fastforce
  obtain e p2 where 2: "parse_bytes 6 p1 = (e, p2)" by fastforce
  obtain t p3 where 3: "NetParser_u16 p2 = (t, p3)" by fastforce
  have "consumed (Buffer_str b) 14 p3"
    using u_consumed(2) [OF conjunct1 [OF parse_bytes_consumed [OF conjunct1 [OF parse_bytes_consumed [OF consumed_new [OF assms] 1]] 2]] 3] by simp
  with False consumed_get_error show ?thesis
    using 1 2 3 unat_Buffer_size [OF assms]
    by (simp add: EthernetFrame_parse_def EthernetHeader_parse_def NetParser_new_def word_less_nat_alt EthernetHeader_LENGTH_def)
qed

theorem EthernetFrame_parse_total_witness:
  "fst (EthernetFrame_parse EthernetFrame_default (Buffer_of [1, 2, 3])) = NoError"
  using EthernetFrame_parse_total [OF buffer_ok_of [of "[1, 2, 3]"]] by simp

text \<open>
  C15: a supported ARP message is serialized without an exception and the bytes, with or
  without padding behind them, parse back to the same message.
\<close>
theorem ARPMessage_roundtrip:
  assumes "arp_ok m" and "length padding < 2 ^ 63"
  shows "\<exists>s. ARPMessage_serialize m = Inr s \<and> ARPMessage_parse m0 (Buffer_of (s @ padding)) = (NoError, m)"
proof -
  have big: "length (arp_bytes m @ padding) < 2 ^ 64" using assms length_arp_bytes by simp
  show ?thesis
    using ARPMessage_serialize_bytes [OF assms(1)]
      ARPMessage_parse_bytes [OF assms(1) buffer_ok_of [OF big] Buffer_str_of [OF big]] by auto
qed

theorem ARPMessage_roundtrip_witness:
  "\<exists>s. ARPMessage_serialize (ARPMessage_default\<lparr>am_opcode := OPCODE_REPLY\<rparr>) = Inr s \<and>
    ARPMessage_parse ARPMessage_default (Buffer_of (s @ [0, 0])) = (NoError, ARPMessage_default\<lparr>am_opcode := OPCODE_REPLY\<rparr>)"
  using ARPMessage_roundtrip [of "ARPMessage_default\<lparr>am_opcode := OPCODE_REPLY\<rparr>" "[0, 0]" ARPMessage_default]
  by (simp add: arp_ok_def ARPMessage_supported_def ARPMessage_default_def)

end
