(* ===== verification/Network_Interface.thy ===== *)
theory Network_Interface
  imports Ethernet_ARP
begin

text \<open>
  \<open>libsponge/network_interface.hh\<close> and \<open>.cc\<close>: the interface between IP and Ethernet, with its
  ARP cache, the record of recent ARP requests and the datagrams that wait for an address. An
  operation that throws returns the exception beside the state it leaves behind. An IP
  address is the number that \<open>Address::ipv4_numeric\<close> returns for it. The operations work on
  every extension of the record, because \<open>AsyncNetworkInterface\<close> inherits them.
\<close>

section \<open>Model\<close>

record NetworkInterface =
  ni_ethernet_address :: EthernetAddress
  ni_ip_address :: u32
  ni_frames_out :: "EthernetFrame list"
  ni_now_time_ms :: u64
  ni_ip_to_ethernet_cache :: "u32 \<rightharpoonup> EthernetAddress"
  ni_cache_time :: "u32 \<rightharpoonup> u64"
  ni_arp_request_his :: "u32 \<rightharpoonup> u64"
  ni_unsent_datagram :: "u32 \<rightharpoonup> IPv4Datagram list"

definition arp_cache_timeout :: u64 where
  "arp_cache_timeout = 30000"

definition arp_request_limit :: u64 where
  "arp_request_limit = 5000"

definition NetworkInterface_new :: "EthernetAddress \<Rightarrow> u32 \<Rightarrow> NetworkInterface" where
  "NetworkInterface_new ethernet_address ip_address =
     \<lparr>ni_ethernet_address = ethernet_address, ni_ip_address = ip_address, ni_frames_out = [], ni_now_time_ms = 0,
      ni_ip_to_ethernet_cache = Map.empty, ni_cache_time = Map.empty, ni_arp_request_his = Map.empty,
      ni_unsent_datagram = Map.empty\<rparr>"

definition frame_of :: "u16 \<Rightarrow> EthernetAddress \<Rightarrow> EthernetAddress \<Rightarrow> BufferList \<Rightarrow> EthernetFrame" where
  "frame_of type src dst payload =
     \<lparr>ef_header = \<lparr>eh_dst = dst, eh_src = src, eh_type = type\<rparr>, ef_payload = payload\<rparr>"

definition push_frame :: "EthernetFrame \<Rightarrow> 'a NetworkInterface_scheme \<Rightarrow> 'a NetworkInterface_scheme" where
  "push_frame f n = n\<lparr>ni_frames_out := ni_frames_out n @ [f]\<rparr>"

text \<open>\<open>operator[]\<close> of a map: a missing entry is the default value.\<close>

definition map_index :: "'k \<Rightarrow> 'v \<Rightarrow> ('k \<rightharpoonup> 'v) \<Rightarrow> 'v" where
  "map_index k d m = (case m k of None \<Rightarrow> d | Some v \<Rightarrow> v)"

definition cached :: "u32 \<Rightarrow> 'a NetworkInterface_scheme \<Rightarrow> bool" where
  "cached ip n \<longleftrightarrow> (case ni_cache_time n ip of None \<Rightarrow> False | Some t \<Rightarrow> ni_now_time_ms n - t < arp_cache_timeout)"

definition may_request :: "u32 \<Rightarrow> 'a NetworkInterface_scheme \<Rightarrow> bool" where
  "may_request ip n \<longleftrightarrow>
     (case ni_arp_request_his n ip of None \<Rightarrow> True | Some t \<Rightarrow> ni_now_time_ms n - t \<ge> arp_request_limit)"

definition arp_request :: "u32 \<Rightarrow> 'a NetworkInterface_scheme \<Rightarrow> ARPMessage" where
  "arp_request ip n =
     ARPMessage_default\<lparr>am_opcode := OPCODE_REQUEST, am_sender_ip_address := ni_ip_address n,
       am_sender_ethernet_address := ni_ethernet_address n, am_target_ip_address := ip\<rparr>"

definition send_arp_request :: "u32 \<Rightarrow> 'a NetworkInterface_scheme \<Rightarrow> exn option \<times> 'a NetworkInterface_scheme" where
  "send_arp_request ip n =
     (case ARPMessage_serialize (arp_request ip n) of
        Inl e \<Rightarrow> (Some e, n)
      | Inr s \<Rightarrow>
          (None, (push_frame (frame_of TYPE_ARP (ni_ethernet_address n) ETHERNET_BROADCAST (BufferList_of_string s)) n)
                   \<lparr>ni_arp_request_his := (ni_arp_request_his n)(ip \<mapsto> ni_now_time_ms n)\<rparr>))"

definition NetworkInterface_send_datagram ::
  "IPv4Datagram \<Rightarrow> u32 \<Rightarrow> 'a NetworkInterface_scheme \<Rightarrow> exn option \<times> 'a NetworkInterface_scheme" where
  "NetworkInterface_send_datagram dgram next_hop_ip n =
     (if cached next_hop_ip n
      then
        (case IPv4Datagram_serialize dgram of
           Inl e \<Rightarrow> (Some e, n)
         | Inr payload \<Rightarrow>
             (None, push_frame (frame_of TYPE_IPv4 (ni_ethernet_address n)
                (map_index next_hop_ip (replicate 6 0) (ni_ip_to_ethernet_cache n)) payload) n))
      else
        (case (if may_request next_hop_ip n then send_arp_request next_hop_ip n else (None, n)) of
           (Some e, n') \<Rightarrow> (Some e, n')
         | (None, n') \<Rightarrow>
             (None, n'\<lparr>ni_unsent_datagram := (ni_unsent_datagram n')
                (next_hop_ip \<mapsto> map_index next_hop_ip [] (ni_unsent_datagram n') @ [dgram])\<rparr>)))"

text \<open>The loop over the datagrams that wait for an address; an exception stops it.\<close>

fun send_unsent ::
  "EthernetAddress \<Rightarrow> IPv4Datagram list \<Rightarrow> 'a NetworkInterface_scheme \<Rightarrow> exn option \<times> 'a NetworkInterface_scheme" where
  "send_unsent dst [] n = (None, n)"
| "send_unsent dst (dgram # dgrams) n =
     (case IPv4Datagram_serialize dgram of
        Inl e \<Rightarrow> (Some e, n)
      | Inr payload \<Rightarrow> send_unsent dst dgrams (push_frame (frame_of TYPE_IPv4 (ni_ethernet_address n) dst payload) n))"

definition arp_reply :: "ARPMessage \<Rightarrow> 'a NetworkInterface_scheme \<Rightarrow> ARPMessage" where
  "arp_reply m n =
     ARPMessage_default\<lparr>am_opcode := OPCODE_REPLY, am_sender_ip_address := ni_ip_address n,
       am_sender_ethernet_address := ni_ethernet_address n, am_target_ip_address := am_sender_ip_address m,
       am_target_ethernet_address := am_sender_ethernet_address m\<rparr>"

definition learn :: "ARPMessage \<Rightarrow> 'a NetworkInterface_scheme \<Rightarrow> 'a NetworkInterface_scheme" where
  "learn m n =
     n\<lparr>ni_cache_time := (ni_cache_time n)(am_sender_ip_address m \<mapsto> ni_now_time_ms n),
       ni_ip_to_ethernet_cache := (ni_ip_to_ethernet_cache n)(am_sender_ip_address m \<mapsto> am_sender_ethernet_address m)\<rparr>"

definition receive_arp :: "ARPMessage \<Rightarrow> 'a NetworkInterface_scheme \<Rightarrow> exn option \<times> 'a NetworkInterface_scheme" where
  "receive_arp m n =
     (case send_unsent (am_sender_ethernet_address m) (map_index (am_sender_ip_address m) [] (ni_unsent_datagram n)) (learn m n) of
        (Some e, n') \<Rightarrow> (Some e, n')
      | (None, n') \<Rightarrow>
          let n'' = n'\<lparr>ni_unsent_datagram := (ni_unsent_datagram n')(am_sender_ip_address m := None)\<rparr>
          in if am_opcode m = OPCODE_REQUEST \<and> am_target_ip_address m = ni_ip_address n
             then
               (case ARPMessage_serialize (arp_reply m n) of
                  Inl e \<Rightarrow> (Some e, n'')
                | Inr s \<Rightarrow>
                    (None, push_frame (frame_of TYPE_ARP (ni_ethernet_address n) (am_sender_ethernet_address m)
                       (BufferList_of_string s)) n''))
             else (None, n''))"

text \<open>A payload in more than one buffer does not convert to the \<open>Buffer\<close> that the parsers take.\<close>

definition NetworkInterface_recv_frame ::
  "EthernetFrame \<Rightarrow> 'a NetworkInterface_scheme \<Rightarrow> IPv4Datagram option res \<times> 'a NetworkInterface_scheme" where
  "NetworkInterface_recv_frame frame n =
     (let h = ef_header frame
      in if eh_type h = TYPE_IPv4
         then
           (case BufferList_to_Buffer (ef_payload frame) of
              Inl e \<Rightarrow> (Inl e, n)
            | Inr b \<Rightarrow>
                let (result, ip_datagram) = IPv4Datagram_parse IPv4Datagram_default b
                in if result = NoError \<and> eh_dst h = ni_ethernet_address n then (Inr (Some ip_datagram), n)
                   else (Inr None, n))
         else if eh_type h = TYPE_ARP
         then
           (case BufferList_to_Buffer (ef_payload frame) of
              Inl e \<Rightarrow> (Inl e, n)
            | Inr b \<Rightarrow>
                let (result, arp_message) = ARPMessage_parse ARPMessage_default b
                in if result = NoError
                   then (case receive_arp arp_message n of (Some e, n') \<Rightarrow> (Inl e, n') | (None, n') \<Rightarrow> (Inr None, n'))
                   else (Inr None, n))
         else (Inr None, n))"

definition NetworkInterface_tick :: "u64 \<Rightarrow> 'a NetworkInterface_scheme \<Rightarrow> 'a NetworkInterface_scheme" where
  "NetworkInterface_tick ms n = n\<lparr>ni_now_time_ms := ni_now_time_ms n + ms\<rparr>"

section \<open>Frames on the wire\<close>

text \<open>A frame as the other side gets it: its bytes, parsed again.\<close>

definition on_wire :: "EthernetFrame \<Rightarrow> EthernetFrame" where
  "on_wire f = snd (EthernetFrame_parse EthernetFrame_default (Buffer_of (BufferList_concatenate (EthernetFrame_serialize f))))"

definition same_datagram :: "IPv4Datagram \<Rightarrow> IPv4Datagram \<Rightarrow> bool" where
  "same_datagram d d' \<longleftrightarrow>
     id_header d' = ip_wire_header (id_header d) \<and> BufferList_concatenate (id_payload d') = BufferList_concatenate (id_payload d)"

definition wire_payload :: "IPv4Datagram \<Rightarrow> BufferList" where
  "wire_payload d = Buffer_of (ip_header_bytes (ip_wire_header (id_header d))) # id_payload d"

lemma serialize_wire_payload: "datagram_ok d \<Longrightarrow> IPv4Datagram_serialize d = Inr (wire_payload d)"
  using IPv4Datagram_serialize_wire [OF _ datagram_ok_size] by (simp add: wire_payload_def datagram_ok_def)

lemma wire_payload_bytes:
  assumes "datagram_ok d"
  shows "BufferList_concatenate (wire_payload d) =
      ip_header_bytes (ip_wire_header (id_header d)) @ BufferList_concatenate (id_payload d)"
    and "length (BufferList_concatenate (wire_payload d)) < 2 ^ 16"
proof -
  let ?h = "ip_wire_header (id_header d)"
  have "length (ip_header_bytes ?h) = 4 * unat (ih_hlen (id_header d))"
    using assms length_ip_header_bytes [of ?h] by (simp add: datagram_ok_def) (simp add: ip_wire_header_def)
  moreover have "4 * unat (ih_hlen (id_header d)) + length (BufferList_concatenate (id_payload d)) < 2 ^ 16"
    using assms unat_lt_16 [of "ih_len (id_header d)"] by (simp add: datagram_ok_def)
  ultimately show "BufferList_concatenate (wire_payload d) = ip_header_bytes ?h @ BufferList_concatenate (id_payload d)"
    "length (BufferList_concatenate (wire_payload d)) < 2 ^ 16"
    by (simp_all add: wire_payload_def Buffer_str_of)
qed

lemma on_wire_frame:
  assumes "length dst = 6" and "length src = 6" and "length (BufferList_concatenate pl) < 2 ^ 63"
  obtains b where "on_wire (frame_of t src dst pl) = frame_of t src dst [b]" and "buffer_ok b"
    and "Buffer_str b = BufferList_concatenate pl"
  using EthernetFrame_parse_wire [of "frame_of t src dst pl" EthernetFrame_default] assms
  by (auto simp: on_wire_def frame_of_def eth_header_ok_def)

lemma recv_ip_frame:
  assumes "datagram_ok d" and "length (ni_ethernet_address n) = 6" and "length src = 6"
  shows "\<exists>d'. NetworkInterface_recv_frame (on_wire (frame_of TYPE_IPv4 src (ni_ethernet_address n) (wire_payload d))) n
      = (Inr (Some d'), n) \<and> same_datagram d d'"
proof -
  have "length (BufferList_concatenate (wire_payload d)) < 2 ^ 63" using wire_payload_bytes(2) [OF assms(1)] by simp
  then obtain b where b: "on_wire (frame_of TYPE_IPv4 src (ni_ethernet_address n) (wire_payload d))
      = frame_of TYPE_IPv4 src (ni_ethernet_address n) [b]" "buffer_ok b"
      "Buffer_str b = ip_header_bytes (ip_wire_header (id_header d)) @ BufferList_concatenate (id_payload d)"
    using on_wire_frame [OF assms(2,3), of "wire_payload d" TYPE_IPv4] wire_payload_bytes(1) [OF assms(1)] by metis
  from IPv4Datagram_parse_buffer [OF assms(1) b(2,3), of IPv4Datagram_default]
  obtain c where "IPv4Datagram_parse IPv4Datagram_default b = (NoError, \<lparr>id_header = ip_wire_header (id_header d), id_payload = [c]\<rparr>)"
    "Buffer_str c = BufferList_concatenate (id_payload d)" by blast
  then show ?thesis
    unfolding NetworkInterface_recv_frame_def b(1) by (simp add: frame_of_def BufferList_to_Buffer_def same_datagram_def)
qed

lemma recv_arp_frame:
  assumes "arp_ok m" and "length dst = 6" and "length src = 6" and "receive_arp m n = (None, n')"
  shows "NetworkInterface_recv_frame (on_wire (frame_of TYPE_ARP src dst (BufferList_of_string (arp_bytes m)))) n = (Inr None, n')"
proof -
  have l: "length (arp_bytes m) = 28" by (rule length_arp_bytes [OF assms(1)])
  then have c: "BufferList_concatenate (BufferList_of_string (arp_bytes m)) = arp_bytes m"
    by (simp add: BufferList_of_string_def BufferList_of_Buffer_def BufferList_append_def Buffer_str_of)
  then have "length (BufferList_concatenate (BufferList_of_string (arp_bytes m))) < 2 ^ 63" using l by simp
  from on_wire_frame [OF assms(2,3) this, of TYPE_ARP] obtain b where
    b: "on_wire (frame_of TYPE_ARP src dst (BufferList_of_string (arp_bytes m))) = frame_of TYPE_ARP src dst [b]" "buffer_ok b"
      "Buffer_str b = arp_bytes m @ []" using c by auto
  from ARPMessage_parse_bytes [OF assms(1) b(2,3)] show ?thesis
    unfolding NetworkInterface_recv_frame_def b(1)
    by (simp add: frame_of_def BufferList_to_Buffer_def assms(4) TYPE_ARP_def TYPE_IPv4_def)
qed

section \<open>The steps of an address resolution\<close>

lemma arp_messages_ok:
  assumes "length (ni_ethernet_address n) = 6"
  shows "arp_ok (arp_request ip n)" and "length (am_sender_ethernet_address m) = 6 \<Longrightarrow> arp_ok (arp_reply m n)"
  using assms by (simp_all add: arp_ok_def arp_request_def arp_reply_def ARPMessage_default_def ARPMessage_supported_def)

lemma send_unsent_frames:
  assumes "\<forall>d \<in> set ds. datagram_ok d"
  shows "send_unsent dst ds n =
    (None, n\<lparr>ni_frames_out := ni_frames_out n @ map (\<lambda>d. frame_of TYPE_IPv4 (ni_ethernet_address n) dst (wire_payload d)) ds\<rparr>)"
  using assms
proof (induction ds arbitrary: n)
  case (Cons d ds)
  then show ?case by (simp add: serialize_wire_payload push_frame_def)
qed simp

lemma send_datagram_unknown:
  assumes "length (ni_ethernet_address n) = 6" and "\<not> cached ip n" and "may_request ip n"
  shows "NetworkInterface_send_datagram d ip n =
    (None, n\<lparr>ni_frames_out := ni_frames_out n @ [frame_of TYPE_ARP (ni_ethernet_address n) ETHERNET_BROADCAST
              (BufferList_of_string (arp_bytes (arp_request ip n)))],
       ni_arp_request_his := (ni_arp_request_his n)(ip \<mapsto> ni_now_time_ms n),
       ni_unsent_datagram := (ni_unsent_datagram n)(ip \<mapsto> map_index ip [] (ni_unsent_datagram n) @ [d])\<rparr>)"
  using assms(2,3) ARPMessage_serialize_bytes [OF arp_messages_ok(1) [OF assms(1)]]
  by (simp add: NetworkInterface_send_datagram_def send_arp_request_def push_frame_def)

lemma receive_arp_effect:
  assumes "length (ni_ethernet_address n) = 6" and "length (am_sender_ethernet_address m) = 6"
    and "\<forall>d \<in> set (map_index (am_sender_ip_address m) [] (ni_unsent_datagram n)). datagram_ok d"
  shows "receive_arp m n =
    (None, (learn m n)\<lparr>ni_frames_out := ni_frames_out n @
        map (\<lambda>d. frame_of TYPE_IPv4 (ni_ethernet_address n) (am_sender_ethernet_address m) (wire_payload d))
          (map_index (am_sender_ip_address m) [] (ni_unsent_datagram n)) @
        (if am_opcode m = OPCODE_REQUEST \<and> am_target_ip_address m = ni_ip_address n
         then [frame_of TYPE_ARP (ni_ethernet_address n) (am_sender_ethernet_address m)
           (BufferList_of_string (arp_bytes (arp_reply m n)))] else []),
      ni_unsent_datagram := (ni_unsent_datagram n)(am_sender_ip_address m := None)\<rparr>)"
  using ARPMessage_serialize_bytes [OF arp_messages_ok(2) [OF assms(1,2)]]
  by (simp add: receive_arp_def send_unsent_frames [OF assms(3)] learn_def push_frame_def Let_def)

section \<open>Runs of one interface\<close>

datatype ni_op = Op_send IPv4Datagram u32 | Op_recv EthernetFrame | Op_tick u64

fun ni_exec :: "ni_op \<Rightarrow> NetworkInterface \<Rightarrow> NetworkInterface" where
  "ni_exec (Op_send d ip) n = snd (NetworkInterface_send_datagram d ip n)"
| "ni_exec (Op_recv f) n = snd (NetworkInterface_recv_frame f n)"
| "ni_exec (Op_tick ms) n = NetworkInterface_tick ms n"

fun ni_run :: "ni_op list \<Rightarrow> NetworkInterface \<Rightarrow> NetworkInterface" where
  "ni_run [] n = n"
| "ni_run (a # as) n = ni_run as (ni_exec a n)"

fun elapsed :: "ni_op list \<Rightarrow> nat" where
  "elapsed [] = 0"
| "elapsed (Op_tick ms # as) = unat ms + elapsed as"
| "elapsed (_ # as) = elapsed as"

text \<open>The frame is an ARP request for the address \<open>ip\<close>.\<close>

definition requests_for :: "u32 \<Rightarrow> EthernetFrame \<Rightarrow> bool" where
  "requests_for ip f \<longleftrightarrow>
     eh_type (ef_header f) = TYPE_ARP \<and>
     (case ef_payload f of
        [b] \<Rightarrow> (let (result, m) = ARPMessage_parse ARPMessage_default b
                in result = NoError \<and> am_opcode m = OPCODE_REQUEST \<and> am_target_ip_address m = ip)
      | _ \<Rightarrow> False)"

text \<open>\<open>n'\<close> is \<open>n\<close> with more frames, none of them a request for \<open>ip\<close>, and the same record of requests for \<open>ip\<close>.\<close>

definition quiet :: "u32 \<Rightarrow> NetworkInterface \<Rightarrow> NetworkInterface \<Rightarrow> bool" where
  "quiet ip n n' \<longleftrightarrow>
     (\<exists>fs. ni_frames_out n' = ni_frames_out n @ fs \<and> (\<forall>f \<in> set fs. \<not> requests_for ip f)) \<and>
     ni_arp_request_his n' ip = ni_arp_request_his n ip \<and> ni_ethernet_address n' = ni_ethernet_address n"

lemma quiet_trans: "quiet ip n n1 \<Longrightarrow> quiet ip n1 n2 \<Longrightarrow> quiet ip n n2"
  by (fastforce simp: quiet_def)

lemma requests_ip [simp]: "\<not> requests_for ip (frame_of TYPE_IPv4 src dst pl)"
  by (simp add: requests_for_def frame_of_def TYPE_IPv4_def TYPE_ARP_def)

lemma requests_arp:
  assumes "arp_ok m"
  shows "requests_for ip (frame_of TYPE_ARP src dst (BufferList_of_string (arp_bytes m))) \<longleftrightarrow>
    am_opcode m = OPCODE_REQUEST \<and> am_target_ip_address m = ip"
proof -
  have l: "length (arp_bytes m) < 2 ^ 64" using length_arp_bytes [OF assms] by simp
  have "ARPMessage_parse ARPMessage_default (Buffer_of (arp_bytes m)) = (NoError, m)"
    by (rule ARPMessage_parse_bytes [OF assms buffer_ok_of [OF l], where rest = "[]"]) (simp add: Buffer_str_of [OF l])
  then show ?thesis
    by (simp add: requests_for_def frame_of_def BufferList_of_string_def BufferList_of_Buffer_def BufferList_append_def)
qed

lemma parse_bytes_length: "length (fst (parse_bytes k p)) = k"
  by (induction k arbitrary: p) (simp_all add: Let_def split: prod.splits, metis fst_conv)

lemma ARPMessage_parse_sender:
  assumes "ARPMessage_parse ARPMessage_default b = (NoError, m)"
  shows "length (am_sender_ethernet_address m) = 6"
proof -
  have "length x = 6" if "parse_bytes 6 p = (x, p')" for p x p' using parse_bytes_length [of 6 p] that by simp
  with assms show ?thesis by (auto simp: ARPMessage_parse_def Let_def split: prod.splits if_splits)
qed

lemma send_unsent_quiet: "\<exists>fs. snd (send_unsent dst ds n) = n\<lparr>ni_frames_out := ni_frames_out n @ fs\<rparr> \<and> (\<forall>f \<in> set fs. \<not> requests_for ip f)"
proof (induction ds arbitrary: n)
  case Nil
  show ?case by (rule exI [of _ "[]"]) simp
next
  case (Cons d ds)
  show ?case
  proof (cases "IPv4Datagram_serialize d")
    case (Inl e)
    then show ?thesis by (intro exI [of _ "[]"]) simp
  next
    case (Inr pl)
    let ?f = "frame_of TYPE_IPv4 (ni_ethernet_address n) dst pl"
    from Cons.IH [of "push_frame ?f n"] obtain fs where
      "snd (send_unsent dst ds (push_frame ?f n)) = (push_frame ?f n)\<lparr>ni_frames_out := ni_frames_out (push_frame ?f n) @ fs\<rparr>"
      "\<forall>f \<in> set fs. \<not> requests_for ip f" by blast
    with Inr show ?thesis by (intro exI [of _ "?f # fs"]) (simp add: push_frame_def)
  qed
qed

lemma receive_arp_quiet:
  assumes "length (ni_ethernet_address n) = 6" and "length (am_sender_ethernet_address m) = 6"
  shows "quiet ip n (snd (receive_arp m n))"
proof -
  obtain e n1 where u: "send_unsent (am_sender_ethernet_address m) (map_index (am_sender_ip_address m) [] (ni_unsent_datagram n))
      (learn m n) = (e, n1)" by fastforce
  with send_unsent_quiet obtain fs where n1: "n1 = (learn m n)\<lparr>ni_frames_out := ni_frames_out (learn m n) @ fs\<rparr>"
    "\<forall>f \<in> set fs. \<not> requests_for ip f" by (metis snd_conv)
  have "arp_ok (arp_reply m n)" by (rule arp_messages_ok(2) [OF assms])
  moreover have "am_opcode (arp_reply m n) \<noteq> OPCODE_REQUEST" by (simp add: arp_reply_def OPCODE_REPLY_def OPCODE_REQUEST_def)
  ultimately show ?thesis
    using u n1(2) ARPMessage_serialize_bytes [of "arp_reply m n"]
    by (cases e) (auto simp: receive_arp_def n1(1) learn_def push_frame_def quiet_def requests_arp Let_def)
qed

lemma recv_quiet:
  assumes "length (ni_ethernet_address n) = 6"
  shows "quiet ip n (snd (NetworkInterface_recv_frame f n))"
proof -
  have "quiet ip n n" by (simp add: quiet_def)
  moreover have "quiet ip n n'" if "ARPMessage_parse ARPMessage_default b = (NoError, m)" "receive_arp m n = (e, n')" for b m e n'
    using receive_arp_quiet [OF assms ARPMessage_parse_sender [OF that(1)], of ip] that(2) by simp
  ultimately show ?thesis
    by (auto simp: NetworkInterface_recv_frame_def Let_def split: sum.splits prod.splits option.splits)
qed

lemma send_quiet:
  assumes "length (ni_ethernet_address n) = 6" and "\<not> may_request ip n \<or> cached ip n \<or> ip' \<noteq> ip"
  shows "quiet ip n (snd (NetworkInterface_send_datagram d ip' n))"
proof -
  have "am_target_ip_address (arp_request ip' n) = ip'" by (simp add: arp_request_def)
  with assms(2) show ?thesis
    using ARPMessage_serialize_bytes [OF arp_messages_ok(1) [OF assms(1)], of ip'] requests_arp [OF arp_messages_ok(1) [OF assms(1)]]
    by (auto simp: NetworkInterface_send_datagram_def quiet_def send_arp_request_def push_frame_def split: sum.splits)
qed

lemma send_unsent_now [simp]: "ni_now_time_ms (snd (send_unsent dst ds n)) = ni_now_time_ms n"
  by (induction ds arbitrary: n) (auto simp: push_frame_def split: sum.splits)

lemma exec_now:
  "ni_now_time_ms (snd (NetworkInterface_send_datagram d ip n)) = ni_now_time_ms n"
  "ni_now_time_ms (snd (NetworkInterface_recv_frame f n)) = ni_now_time_ms n"
proof -
  show "ni_now_time_ms (snd (NetworkInterface_send_datagram d ip n)) = ni_now_time_ms n"
    by (auto simp: NetworkInterface_send_datagram_def send_arp_request_def push_frame_def split: sum.splits option.splits prod.splits if_splits)
  have "ni_now_time_ms (snd (receive_arp m n)) = ni_now_time_ms n" for m
  proof -
    obtain e n1 where u: "send_unsent (am_sender_ethernet_address m) (map_index (am_sender_ip_address m) [] (ni_unsent_datagram n))
        (learn m n) = (e, n1)" by fastforce
    then have "ni_now_time_ms n1 = ni_now_time_ms (learn m n)" using send_unsent_now by (metis snd_conv)
    with u show ?thesis by (cases e) (auto simp: receive_arp_def push_frame_def learn_def Let_def split: sum.splits)
  qed
  then show "ni_now_time_ms (snd (NetworkInterface_recv_frame f n)) = ni_now_time_ms n"
    by (auto simp: NetworkInterface_recv_frame_def Let_def split: sum.splits option.splits prod.splits) (metis snd_conv)+
qed

lemma exec_time:
  assumes "unat (ni_now_time_ms n - t) + elapsed (a # ops) < 2 ^ 64"
  shows "unat (ni_now_time_ms (ni_exec a n) - t) + elapsed ops = unat (ni_now_time_ms n - t) + elapsed (a # ops)"
proof (cases a)
  case (Op_tick ms)
  have "ni_now_time_ms n + ms - t = (ni_now_time_ms n - t) + ms" by simp
  moreover have "unat ((ni_now_time_ms n - t) + ms) = unat (ni_now_time_ms n - t) + unat ms"
    using assms Op_tick by (intro unat_add_small) simp
  ultimately have "unat (ni_now_time_ms n + ms - t) = unat (ni_now_time_ms n - t) + unat ms" by (simp only:)
  then show ?thesis by (simp add: Op_tick NetworkInterface_tick_def)
qed (simp_all add: exec_now)

text \<open>An operation sends one request for \<open>ip\<close> and records the time, or none.\<close>

definition asks :: "u32 \<Rightarrow> NetworkInterface \<Rightarrow> NetworkInterface \<Rightarrow> bool" where
  "asks ip n n' \<longleftrightarrow>
     (\<exists>g. ni_frames_out n' = ni_frames_out n @ [g] \<and> requests_for ip g) \<and>
     ni_arp_request_his n' ip = Some (ni_now_time_ms n) \<and> ni_ethernet_address n' = ni_ethernet_address n \<and>
     ni_now_time_ms n' = ni_now_time_ms n"

lemma send_asks:
  assumes "length (ni_ethernet_address n) = 6" and "may_request ip n" and "\<not> cached ip n"
  shows "asks ip n (snd (NetworkInterface_send_datagram d ip n))"
  using assms(2,3) requests_arp [OF arp_messages_ok(1) [OF assms(1)]] ARPMessage_serialize_bytes [OF arp_messages_ok(1) [OF assms(1)], of ip]
  by (simp add: NetworkInterface_send_datagram_def send_arp_request_def asks_def push_frame_def)
     (simp add: arp_request_def)

lemma exec_cases:
  assumes "length (ni_ethernet_address n) = 6"
  shows "quiet ip n (ni_exec a n) \<or> asks ip n (ni_exec a n)"
proof (cases a)
  case (Op_send d ip')
  then show ?thesis using send_asks [OF assms, of ip d] send_quiet [OF assms, of ip ip' d] by (cases "ip' = ip") auto
qed (use recv_quiet [OF assms] in \<open>auto simp: quiet_def NetworkInterface_tick_def\<close>)

definition unasked :: "u32 \<Rightarrow> NetworkInterface \<Rightarrow> NetworkInterface \<Rightarrow> bool" where
  "unasked ip n n' \<longleftrightarrow> (\<exists>fs. ni_frames_out n' = ni_frames_out n @ fs \<and> (\<forall>f \<in> set fs. \<not> requests_for ip f))"

lemma quiet_unasked: "quiet ip n n' \<Longrightarrow> unasked ip n n'"
  by (auto simp: quiet_def unasked_def)

lemma run_frames:
  assumes "length (ni_ethernet_address n) = 6"
  shows "\<exists>fs. ni_frames_out (ni_run ops n) = ni_frames_out n @ fs"
  using assms
proof (induction ops arbitrary: n)
  case (Cons a ops)
  then show ?case using exec_cases [OF Cons.prems, of 0 a] Cons.IH [of "ni_exec a n"] by (fastforce simp: quiet_def asks_def)
qed simp

text \<open>A run without a request for \<open>ip\<close> keeps the record of the last one.\<close>

lemma unasked_run:
  assumes "length (ni_ethernet_address n) = 6" and "unasked ip n (ni_run ops n)"
  shows "quiet ip n (ni_run ops n)"
  using assms
proof (induction ops arbitrary: n)
  case (Cons a ops)
  have l: "length (ni_ethernet_address (ni_exec a n)) = 6"
    using exec_cases [OF Cons.prems(1), of ip a] Cons.prems(1) by (auto simp: quiet_def asks_def)
  obtain fs where fs: "ni_frames_out (ni_run ops (ni_exec a n)) = ni_frames_out (ni_exec a n) @ fs"
    using run_frames [OF l] by blast
  have q: "quiet ip n (ni_exec a n)"
    using exec_cases [OF Cons.prems(1), of ip a] Cons.prems(2) fs by (fastforce simp: asks_def unasked_def)
  then have "unasked ip (ni_exec a n) (ni_run ops (ni_exec a n))" using Cons.prems(2) fs by (fastforce simp: quiet_def unasked_def)
  with Cons.IH [OF l] q show ?case by (auto intro: quiet_trans)
qed (simp add: quiet_def)

lemma run_time:
  assumes "unat (ni_now_time_ms n - t) + elapsed ops < 2 ^ 64"
  shows "unat (ni_now_time_ms (ni_run ops n) - t) = unat (ni_now_time_ms n - t) + elapsed ops"
  using assms
proof (induction ops arbitrary: n)
  case (Cons a ops)
  from exec_time [OF Cons.prems] Cons.IH [of "ni_exec a n"] Cons.prems show ?case by simp
qed simp

lemma limited_run:
  assumes "length (ni_ethernet_address n) = 6" and "ni_arp_request_his n ip = Some t"
    and "unat (ni_now_time_ms n - t) + elapsed ops < 5000"
  shows "quiet ip n (ni_run ops n)"
  using assms
proof (induction ops arbitrary: n)
  case (Cons a ops)
  have "unat (ni_now_time_ms n - t) < 5000" using Cons.prems(3) by linarith
  then have "\<not> may_request ip n" using Cons.prems(2) by (simp add: may_request_def arp_request_limit_def word_le_nat_alt)
  then have q: "quiet ip n (ni_exec a n)"
    using Cons.prems(1) by (cases a) (simp_all add: send_quiet recv_quiet, simp add: quiet_def NetworkInterface_tick_def)
  have "unat (ni_now_time_ms (ni_exec a n) - t) + elapsed ops = unat (ni_now_time_ms n - t) + elapsed (a # ops)"
    using Cons.prems(3) by (intro exec_time) simp
  with Cons.IH [of "ni_exec a n"] Cons.prems q have "quiet ip (ni_exec a n) (ni_run ops (ni_exec a n))"
    by (simp add: quiet_def)
  with q show ?case by (auto intro: quiet_trans)
qed (simp add: quiet_def)

section \<open>Properties\<close>

text \<open>
  C30: address resolution delivers. When \<open>a\<close> does not know the Ethernet address of \<open>b\<close> and may
  ask for it, sending a datagram broadcasts one ARP request; \<open>b\<close> answers it with one reply;
  the reply makes \<open>a\<close> send all datagrams that waited for \<open>b\<close> and the new one, in the order
  they came; and each frame, having gone over the wire, gives \<open>b\<close> the datagram with the
  same header (up to its checksum) and payload.
\<close>
theorem NetworkInterface_delivery:
  assumes "length (ni_ethernet_address a) = 6" and "length (ni_ethernet_address b) = 6"
    and "\<not> cached (ni_ip_address b) a" and "may_request (ni_ip_address b) a"
    and "ni_unsent_datagram b (ni_ip_address a) = None" and "ni_frames_out a = []" and "ni_frames_out b = []"
    and "\<forall>x \<in> set (map_index (ni_ip_address b) [] (ni_unsent_datagram a) @ [d]). datagram_ok x"
  shows "\<exists>a1 b1 a2 request reply.
    NetworkInterface_send_datagram d (ni_ip_address b) a = (None, a1) \<and> ni_frames_out a1 = [request] \<and>
    NetworkInterface_recv_frame (on_wire request) b = (Inr None, b1) \<and> ni_frames_out b1 = [reply] \<and>
    NetworkInterface_recv_frame (on_wire reply) (a1\<lparr>ni_frames_out := []\<rparr>) = (Inr None, a2) \<and>
    cached (ni_ip_address b) a2 \<and> ni_unsent_datagram a2 (ni_ip_address b) = None \<and>
    list_all2 (\<lambda>x f. \<exists>x'. NetworkInterface_recv_frame (on_wire f) b1 = (Inr (Some x'), b1) \<and> same_datagram x x')
      (map_index (ni_ip_address b) [] (ni_unsent_datagram a) @ [d]) (ni_frames_out a2)"
proof -
  let ?ea = "ni_ethernet_address a" and ?eb = "ni_ethernet_address b" and ?ib = "ni_ip_address b"
  let ?ds = "map_index ?ib [] (ni_unsent_datagram a) @ [d]"
  define req where "req = arp_request ?ib a"
  define rep where "rep = arp_reply req b"
  have req: "arp_ok req" "am_sender_ip_address req = ni_ip_address a" "am_sender_ethernet_address req = ?ea"
    "am_opcode req = OPCODE_REQUEST" "am_target_ip_address req = ?ib"
    using arp_messages_ok(1) [OF assms(1)] by (simp_all add: req_def arp_request_def)
  have rep: "arp_ok rep" "am_sender_ip_address rep = ?ib" "am_sender_ethernet_address rep = ?eb" "am_opcode rep = OPCODE_REPLY"
    using arp_messages_ok(2) [OF assms(2), of req, folded rep_def] assms(1) req(3) by simp_all (simp_all add: rep_def arp_reply_def)
  define a1 where "a1 = snd (NetworkInterface_send_datagram d ?ib a)"
  define b1 where "b1 = snd (receive_arp req b)"
  define a2 where "a2 = snd (receive_arp rep (a1\<lparr>ni_frames_out := []\<rparr>))"
  have a1: "NetworkInterface_send_datagram d ?ib a = (None, a1)" "ni_ethernet_address a1 = ?ea" "ni_ip_address a1 = ni_ip_address a"
    "ni_unsent_datagram a1 ?ib = Some ?ds" "ni_frames_out a1 = [frame_of TYPE_ARP ?ea ETHERNET_BROADCAST (BufferList_of_string (arp_bytes req))]"
    using send_datagram_unknown [OF assms(1,3,4), of d] assms(6) by (simp_all add: a1_def req_def)
  have b0: "map_index (ni_ip_address a) [] (ni_unsent_datagram b) = []" using assms(5) by (simp add: map_index_def)
  have b1: "receive_arp req b = (None, b1)" "ni_frames_out b1 = [frame_of TYPE_ARP ?eb ?ea (BufferList_of_string (arp_bytes rep))]"
    "ni_ethernet_address b1 = ?eb"
    using receive_arp_effect [OF assms(2), of req] assms(1,7) req b0 by (simp_all add: b1_def rep_def learn_def)
  have m: "map_index ?ib [] (ni_unsent_datagram a1) = ?ds" using a1(4) by (simp add: map_index_def)
  have a2: "receive_arp rep (a1\<lparr>ni_frames_out := []\<rparr>) = (None, a2)" "cached ?ib a2" "ni_unsent_datagram a2 ?ib = None"
    "ni_frames_out a2 = map (\<lambda>x. frame_of TYPE_IPv4 ?ea ?eb (wire_payload x)) ?ds"
    using receive_arp_effect [of "a1\<lparr>ni_frames_out := []\<rparr>" rep] assms(1,2,8) a1(2) rep m
    by (simp_all add: a2_def learn_def cached_def arp_cache_timeout_def OPCODE_REPLY_def OPCODE_REQUEST_def)
  have "length ETHERNET_BROADCAST = 6" by (simp add: ETHERNET_BROADCAST_def)
  note recv_arp_frame [OF req(1) this assms(1) b1(1)] recv_arp_frame [OF rep(1) assms(1,2) a2(1)]
  moreover have "\<exists>x'. NetworkInterface_recv_frame (on_wire (frame_of TYPE_IPv4 ?ea ?eb (wire_payload x))) b1 = (Inr (Some x'), b1)
      \<and> same_datagram x x'" if "x \<in> set ?ds" for x
    using recv_ip_frame [of x b1 ?ea] that assms(1,2,8) b1(3) by auto
  then have "list_all2 (\<lambda>x f. \<exists>x'. NetworkInterface_recv_frame (on_wire f) b1 = (Inr (Some x'), b1) \<and> same_datagram x x')
      ?ds (ni_frames_out a2)"
    unfolding a2(4) list.rel_map by (intro list.rel_refl_strong)
  ultimately show ?thesis using a1(1,5) b1(2) a2(2,3) by blast
qed


text \<open>
  C31: ARP requests are rate-limited. When an operation of the interface has queued a request for an
  address, no run of sends, received frames and ticks that lasts less than five seconds, whatever it consists
  of, queues another request for the same address. Once five seconds have passed without another request and the
  address is not in the cache, sending a datagram to it queues exactly one new request.
\<close>
theorem NetworkInterface_arp_rate:
  assumes "length (ni_ethernet_address n) = 6" and "n1 = ni_exec a n" and "ni_frames_out n1 = ni_frames_out n @ fs"
    and "f \<in> set fs" and "requests_for ip f" and "n2 = ni_run ops n1" and "elapsed ops < 2 ^ 64"
  shows "(elapsed ops < 5000 \<longrightarrow> unasked ip n1 n2) \<and>
    (5000 \<le> elapsed ops \<and> unasked ip n1 n2 \<and> \<not> cached ip n2 \<longrightarrow>
      (\<exists>g. ni_frames_out (snd (NetworkInterface_send_datagram d ip n2)) = ni_frames_out n2 @ [g] \<and> requests_for ip g))"
proof -
  have "asks ip n n1" using exec_cases [OF assms(1), of ip a] assms(2-5) quiet_unasked by (fastforce simp: unasked_def)
  then have n1: "ni_arp_request_his n1 ip = Some (ni_now_time_ms n1)" "length (ni_ethernet_address n1) = 6"
    using assms(1) by (auto simp: asks_def)
  have "asks ip n2 (snd (NetworkInterface_send_datagram d ip n2))"
    if "5000 \<le> elapsed ops" "unasked ip n1 n2" "\<not> cached ip n2"
  proof -
    have "quiet ip n1 n2" using unasked_run [OF n1(2)] that(2) by (simp add: assms(6))
    moreover have "unat (ni_now_time_ms n2 - ni_now_time_ms n1) = elapsed ops"
      using run_time [of n1 "ni_now_time_ms n1" ops] assms(6,7) by simp
    ultimately show ?thesis
      using n1 that by (intro send_asks) (auto simp: quiet_def may_request_def arp_request_limit_def word_le_nat_alt)
  qed
  moreover have "unasked ip n1 n2" if "elapsed ops < 5000"
    using limited_run [OF n1(2,1), of ops] that by (simp add: assms(6) quiet_unasked)
  ultimately show ?thesis by (auto simp: asks_def)
qed

definition example_datagram :: IPv4Datagram where
  "example_datagram = \<lparr>id_header = IPv4Header_default\<lparr>ih_len := 21, ih_ttl := 64, ih_dst := 0x0a000002\<rparr>, id_payload = [Buffer_of [7]]\<rparr>"

lemma example_datagram_ok: "datagram_ok example_datagram"
  by (simp add: example_datagram_def datagram_ok_def ip_header_ok_def IPv4Header_default_def buffer_ok_of Buffer_str_of)

theorem NetworkInterface_delivery_witness:
  "\<exists>a1 request. NetworkInterface_send_datagram example_datagram 0x0a000002 (NetworkInterface_new [2, 0, 0, 0, 0, 1] 0x0a000001)
     = (None, a1) \<and> ni_frames_out a1 = [request]"
proof -
  let ?a = "NetworkInterface_new [2, 0, 0, 0, 0, 1] 0x0a000001" and ?b = "NetworkInterface_new [2, 0, 0, 0, 0, 2] 0x0a000002"
  have f: "length (ni_ethernet_address ?a) = 6" "length (ni_ethernet_address ?b) = 6" "\<not> cached (ni_ip_address ?b) ?a"
    "may_request (ni_ip_address ?b) ?a" "ni_unsent_datagram ?b (ni_ip_address ?a) = None" "ni_frames_out ?a = []" "ni_frames_out ?b = []"
    "\<forall>x \<in> set (map_index (ni_ip_address ?b) [] (ni_unsent_datagram ?a) @ [example_datagram]). datagram_ok x"
    using example_datagram_ok by (simp_all add: NetworkInterface_new_def cached_def may_request_def map_index_def)
  have i: "ni_ip_address ?b = 0x0a000002" by (simp add: NetworkInterface_new_def)
  show ?thesis using NetworkInterface_delivery [OF f] unfolding i by blast
qed

theorem NetworkInterface_arp_rate_witness:
  "\<exists>n1. n1 = ni_exec (Op_send example_datagram 7) (NetworkInterface_new [2, 0, 0, 0, 0, 1] 1) \<and>
     unasked 7 n1 (ni_run [Op_tick 4999, Op_send example_datagram 7] n1) \<and>
     (\<exists>g. ni_frames_out (snd (NetworkInterface_send_datagram example_datagram 7 (ni_run [Op_tick 5000] n1))) =
       ni_frames_out (ni_run [Op_tick 5000] n1) @ [g] \<and> requests_for 7 g)"
proof -
  let ?n = "NetworkInterface_new [2, 0, 0, 0, 0, 1] 1"
  define n1 where "n1 = ni_exec (Op_send example_datagram 7) ?n"
  have l: "length (ni_ethernet_address ?n) = 6" and "may_request 7 ?n" "\<not> cached 7 ?n"
    by (simp_all add: NetworkInterface_new_def may_request_def cached_def)
  from send_asks [OF this, of example_datagram] obtain f where f: "ni_frames_out n1 = ni_frames_out ?n @ [f]" "requests_for 7 f"
    by (auto simp: asks_def n1_def)
  note r = NetworkInterface_arp_rate [OF l n1_def f(1) _ f(2) refl, where d = example_datagram]
  have "\<not> cached 7 (ni_run [Op_tick 5000] n1)"
    by (simp add: n1_def NetworkInterface_send_datagram_def NetworkInterface_new_def cached_def may_request_def
        send_arp_request_def push_frame_def NetworkInterface_tick_def split: sum.splits)
  moreover have "unasked 7 n1 (ni_run [Op_tick 5000] n1)" by (simp add: unasked_def NetworkInterface_tick_def)
  ultimately show ?thesis
    using r [of "[Op_tick 4999, Op_send example_datagram 7]"] r [of "[Op_tick 5000]"]
    by (intro exI [of _ n1] conjI n1_def) simp_all
qed

end
