(* ===== verification/Router.thy ===== *)
theory Router
  imports Network_Interface
begin

text \<open>
  \<open>libsponge/router.hh\<close> and \<open>.cc\<close>: a router with its interfaces and routing table. The
  search for a route compares right shifts of addresses, the last of them by 32 places, which C++
  leaves undefined; the value of \<open>x >> 32\<close> is the parameter \<open>shr32\<close>, and the theory shows that
  the route does not depend on it. An index beyond the interfaces is the error \<open>Undefined\<close>.
\<close>

section \<open>Model\<close>

record AsyncNetworkInterface = NetworkInterface +
  ai_datagrams_out :: "IPv4Datagram list"

definition AsyncNetworkInterface_of :: "NetworkInterface \<Rightarrow> AsyncNetworkInterface" where
  "AsyncNetworkInterface_of n = NetworkInterface.extend n \<lparr>ai_datagrams_out = []\<rparr>"

definition AsyncNetworkInterface_recv_frame :: "EthernetFrame \<Rightarrow> AsyncNetworkInterface \<Rightarrow> exn option \<times> AsyncNetworkInterface" where
  "AsyncNetworkInterface_recv_frame frame n =
     (case NetworkInterface_recv_frame frame n of
        (Inl e, n') \<Rightarrow> (Some e, n')
      | (Inr None, n') \<Rightarrow> (None, n')
      | (Inr (Some d), n') \<Rightarrow> (None, n'\<lparr>ai_datagrams_out := ai_datagrams_out n' @ [d]\<rparr>))"

record RouteMsg =
  rm_route_prefix :: u32
  rm_prefix_length :: u8
  rm_next_hop :: u32
  rm_interface_num :: size_t

record Router =
  ro_interfaces :: "AsyncNetworkInterface list"
  ro_route_table :: "RouteMsg list"

definition Router_new :: Router where
  "Router_new = \<lparr>ro_interfaces = [], ro_route_table = []\<rparr>"

definition Router_add_interface :: "AsyncNetworkInterface \<Rightarrow> Router \<Rightarrow> size_t \<times> Router" where
  "Router_add_interface n r =
     (let r' = r\<lparr>ro_interfaces := ro_interfaces r @ [n]\<rparr> in (of_nat (length (ro_interfaces r')) - 1, r'))"

definition Router_interface :: "size_t \<Rightarrow> Router \<Rightarrow> AsyncNetworkInterface res" where
  "Router_interface n r =
     (if unat n < length (ro_interfaces r) then Inr (ro_interfaces r ! unat n) else Inl Out_of_range)"

definition Router_add_route :: "u32 \<Rightarrow> u8 \<Rightarrow> u32 option \<Rightarrow> size_t \<Rightarrow> Router \<Rightarrow> Router" where
  "Router_add_route route_prefix prefix_length next_hop interface_num r =
     r\<lparr>ro_route_table := ro_route_table r @
       [\<lparr>rm_route_prefix = route_prefix, rm_prefix_length = prefix_length,
         rm_next_hop = (case next_hop of Some a \<Rightarrow> a | None \<Rightarrow> 0), rm_interface_num = interface_num\<rparr>]\<rparr>"

definition shr :: "(u32 \<Rightarrow> u32) \<Rightarrow> u32 \<Rightarrow> nat \<Rightarrow> u32" where
  "shr shr32 x i = (if i < 32 then drop_bit i x else shr32 x)"

text \<open>The inner loop, from \<open>i\<close> on, with \<open>n\<close> more turns: the length of the common prefix of two addresses.\<close>

fun match_loop :: "(u32 \<Rightarrow> u32) \<Rightarrow> u32 \<Rightarrow> u32 \<Rightarrow> nat \<Rightarrow> nat \<Rightarrow> u8" where
  "match_loop shr32 dst_ip route_prefix i 0 = 0"
| "match_loop shr32 dst_ip route_prefix i (Suc n) =
     (if shr shr32 dst_ip i = shr shr32 route_prefix i then of_nat (32 - i)
      else match_loop shr32 dst_ip route_prefix (i + 1) n)"

definition match_len :: "(u32 \<Rightarrow> u32) \<Rightarrow> u32 \<Rightarrow> u32 \<Rightarrow> u8" where
  "match_len shr32 dst_ip route_prefix = match_loop shr32 dst_ip route_prefix 0 33"

text \<open>The outer loop: the best route so far and its length.\<close>

fun best_route :: "(u32 \<Rightarrow> u32) \<Rightarrow> u32 \<Rightarrow> RouteMsg list \<Rightarrow> u8 \<Rightarrow> RouteMsg option \<Rightarrow> RouteMsg option" where
  "best_route shr32 dst_ip [] max_match_len best = best"
| "best_route shr32 dst_ip (it # table) max_match_len best =
     (if match_len shr32 dst_ip (rm_route_prefix it) \<ge> rm_prefix_length it \<and> rm_prefix_length it \<ge> max_match_len
      then best_route shr32 dst_ip table (rm_prefix_length it) (Some it)
      else best_route shr32 dst_ip table max_match_len best)"

definition decrement_ttl :: "IPv4Datagram \<Rightarrow> IPv4Datagram" where
  "decrement_ttl d = d\<lparr>id_header := (id_header d)\<lparr>ih_ttl := ih_ttl (id_header d) - 1\<rparr>\<rparr>"

text \<open>The datagram is changed in place, so it is part of the result.\<close>

definition Router_route_one_datagram :: "(u32 \<Rightarrow> u32) \<Rightarrow> IPv4Datagram \<Rightarrow> Router \<Rightarrow> exn option \<times> IPv4Datagram \<times> Router" where
  "Router_route_one_datagram shr32 dgram0 r =
     (if ih_ttl (id_header dgram0) = 0 \<or> ih_ttl (id_header dgram0) = 1 then (None, dgram0, r)
      else
        let dgram = decrement_ttl dgram0;
            dst_ip = ih_dst (id_header dgram)
        in case best_route shr32 dst_ip (ro_route_table r) 0 None of
             None \<Rightarrow> (None, dgram, r)
           | Some route \<Rightarrow>
               let next_hop = (if rm_next_hop route = 0 then dst_ip else rm_next_hop route);
                   i = unat (rm_interface_num route)
               in if i < length (ro_interfaces r)
                  then
                    let (e, n) = NetworkInterface_send_datagram dgram next_hop (ro_interfaces r ! i)
                    in (e, dgram, r\<lparr>ro_interfaces := (ro_interfaces r)[i := n]\<rparr>)
                  else (Some Undefined, dgram, r))"

definition set_queue :: "nat \<Rightarrow> IPv4Datagram list \<Rightarrow> Router \<Rightarrow> Router" where
  "set_queue k q r = r\<lparr>ro_interfaces := (ro_interfaces r)[k := (ro_interfaces r ! k)\<lparr>ai_datagrams_out := q\<rparr>]\<rparr>"

definition queue_of :: "nat \<Rightarrow> Router \<Rightarrow> IPv4Datagram list" where
  "queue_of k r = ai_datagrams_out (ro_interfaces r ! k)"

text \<open>One turn of the inner loop of \<open>route()\<close>: route the front of the queue of interface \<open>k\<close>, then pop it.\<close>

definition route_front :: "(u32 \<Rightarrow> u32) \<Rightarrow> nat \<Rightarrow> Router \<Rightarrow> exn option \<times> Router" where
  "route_front shr32 k r =
     (let (e, dgram, r') = Router_route_one_datagram shr32 (hd (queue_of k r)) r;
          r'' = set_queue k (dgram # tl (queue_of k r')) r'
      in case e of Some x \<Rightarrow> (Some x, r'') | None \<Rightarrow> (None, set_queue k (tl (queue_of k r'')) r''))"

lemma send_datagram_queue [simp]:
  "ai_datagrams_out (snd (NetworkInterface_send_datagram d ip n)) = ai_datagrams_out n"
  by (auto simp: NetworkInterface_send_datagram_def send_arp_request_def push_frame_def
      split: sum.splits option.splits prod.splits if_splits)

lemma length_set_queue [simp]: "length (ro_interfaces (set_queue k q r)) = length (ro_interfaces r)"
  by (simp add: set_queue_def)

lemma queue_set_queue [simp]: "k < length (ro_interfaces r) \<Longrightarrow> queue_of k (set_queue k q r) = q"
  by (simp add: queue_of_def set_queue_def)

lemma route_one_queues:
  assumes "Router_route_one_datagram shr32 d r = (e, d', r')"
  shows "map ai_datagrams_out (ro_interfaces r') = map ai_datagrams_out (ro_interfaces r)"
proof -
  have u: "(map ai_datagrams_out ns)[i := ai_datagrams_out n] = map ai_datagrams_out ns"
    if "NetworkInterface_send_datagram d ip (ns ! i) = (e, n)" "i < length ns" for d ip ns i e n
    using send_datagram_queue [of d ip "ns ! i"] that list_update_id [of "map ai_datagrams_out ns" i] by simp
  show ?thesis
    using assms u by (auto simp: Router_route_one_datagram_def Let_def map_update split: if_splits option.splits prod.splits)
qed

lemma route_front_queue:
  assumes "route_front shr32 k r = (None, r')" and "k < length (ro_interfaces r)"
  shows "length (ro_interfaces r') = length (ro_interfaces r) \<and> queue_of k r' = tl (queue_of k r)"
proof -
  obtain e d r1 where r1: "Router_route_one_datagram shr32 (hd (queue_of k r)) r = (e, d, r1)" by (metis prod_cases3)
  note q = route_one_queues [OF r1]
  have "length (ro_interfaces r1) = length (ro_interfaces r)" using arg_cong [OF q, of length] by simp
  moreover have "queue_of k r1 = queue_of k r" using arg_cong [OF q, of "\<lambda>l. l ! k"] assms(2) calculation by (simp add: queue_of_def)
  ultimately show ?thesis using assms by (auto simp: route_front_def r1 Let_def split: option.splits)
qed

function route_queue :: "(u32 \<Rightarrow> u32) \<Rightarrow> nat \<Rightarrow> Router \<Rightarrow> exn option \<times> Router" where
  "route_queue shr32 k r =
     (if k < length (ro_interfaces r) \<and> queue_of k r \<noteq> []
      then (case route_front shr32 k r of
              (Some e, r') \<Rightarrow> (Some e, r')
            | (None, r') \<Rightarrow> route_queue shr32 k r')
      else (None, r))"
  by pat_completeness auto
termination
  by (relation "measure (\<lambda>(shr32, k, r). length (queue_of k r))") (auto dest!: route_front_queue [OF sym])

declare route_queue.simps [simp del]

text \<open>The loop over the interfaces, \<open>n\<close> of them from number \<open>k\<close> on.\<close>

fun route_interfaces :: "(u32 \<Rightarrow> u32) \<Rightarrow> nat \<Rightarrow> nat \<Rightarrow> Router \<Rightarrow> exn option \<times> Router" where
  "route_interfaces shr32 k 0 r = (None, r)"
| "route_interfaces shr32 k (Suc n) r =
     (case route_queue shr32 k r of
        (Some e, r') \<Rightarrow> (Some e, r')
      | (None, r') \<Rightarrow> route_interfaces shr32 (k + 1) n r')"

definition Router_route :: "(u32 \<Rightarrow> u32) \<Rightarrow> Router \<Rightarrow> exn option \<times> Router" where
  "Router_route shr32 r = route_interfaces shr32 0 (length (ro_interfaces r)) r"

section \<open>Longest prefix match\<close>

definition route_matches :: "u32 \<Rightarrow> RouteMsg \<Rightarrow> bool" where
  "route_matches ip rt \<longleftrightarrow>
     unat (rm_prefix_length rt) \<le> 32 \<and>
     drop_bit (32 - unat (rm_prefix_length rt)) ip = drop_bit (32 - unat (rm_prefix_length rt)) (rm_route_prefix rt)"

lemma drop_bit_eq_mono:
  fixes a b :: u32
  assumes "drop_bit i a = drop_bit i b" and "i \<le> j"
  shows "drop_bit j a = drop_bit j b"
proof -
  have "drop_bit j x = drop_bit (j - i) (drop_bit i x)" for x :: u32 using assms(2) by simp
  then show ?thesis using assms(1) by metis
qed

lemma drop_bit_32: "drop_bit 32 (x :: u32) = 0"
  by (simp add: drop_bit_eq_div word_arith_nat_div word_eq_unatI)

lemma match_loop_prefix:
  assumes "i + n = 33" and "\<forall>j < i. drop_bit j a \<noteq> drop_bit j b" and "p \<le> 32"
  shows "p \<le> unat (match_loop s a b i n) \<longleftrightarrow> drop_bit (32 - p) a = drop_bit (32 - p) b"
  using assms
proof (induction n arbitrary: i)
  case 0
  have "(32 :: nat) < 33" by simp
  with 0 have "drop_bit 32 a \<noteq> drop_bit 32 b" by (metis add.right_neutral)
  then show ?case by (simp add: drop_bit_32)
next
  case (Suc n)
  show ?case
  proof (cases "i < 32")
    case True
    show ?thesis
    proof (cases "drop_bit i a = drop_bit i b")
      case eq: True
      have "p \<le> 32 - i \<longleftrightarrow> i \<le> 32 - p" using True Suc.prems(3) by auto
      moreover have "drop_bit (32 - p) a = drop_bit (32 - p) b \<longleftrightarrow> i \<le> 32 - p"
        using drop_bit_eq_mono [OF eq] Suc.prems(2) by (metis not_le)
      moreover have "match_loop s a b i (Suc n) = of_nat (32 - i)" using True eq by (simp add: shr_def)
      then have "unat (match_loop s a b i (Suc n)) = 32 - i" by (simp only:) (rule unat_of_nat_small, simp)
      ultimately show ?thesis by (simp only:)
    next
      case False
      with Suc.IH [of "i + 1"] Suc.prems True show ?thesis by (simp add: shr_def less_Suc_eq)
    qed
  next
    case False
    with Suc.prems(1) have i: "i = 32" "n = 0" by auto
    have "drop_bit (32 - p) a = drop_bit (32 - p) b \<longleftrightarrow> p = 0"
      using Suc.prems(2,3) i by (cases p) (auto simp: drop_bit_32)
    then show ?thesis using i by simp
  qed
qed

lemma match_loop_le: "unat (match_loop s a b i n) \<le> 32"
  by (induction n arbitrary: i) (auto simp: unat_of_nat_small)

lemma match_len_iff: "match_len s ip (rm_route_prefix rt) \<ge> rm_prefix_length rt \<longleftrightarrow> route_matches ip rt"
proof (cases "unat (rm_prefix_length rt) \<le> 32")
  case True
  with match_loop_prefix [of 0 33 ip "rm_route_prefix rt" "unat (rm_prefix_length rt)" s] show ?thesis
    by (simp add: match_len_def route_matches_def word_le_nat_alt)
next
  case False
  then show ?thesis
    using match_loop_le [of s ip "rm_route_prefix rt" 0 33] by (simp add: match_len_def route_matches_def word_le_nat_alt)
qed

text \<open>\<open>rt\<close> is the last of the longest matching routes of the table.\<close>

definition longest_match :: "u32 \<Rightarrow> RouteMsg list \<Rightarrow> RouteMsg \<Rightarrow> bool" where
  "longest_match ip table rt \<longleftrightarrow>
     (\<exists>pre post. table = pre @ rt # post \<and> route_matches ip rt \<and>
       (\<forall>x \<in> set pre. route_matches ip x \<longrightarrow> unat (rm_prefix_length x) \<le> unat (rm_prefix_length rt)) \<and>
       (\<forall>x \<in> set post. route_matches ip x \<longrightarrow> unat (rm_prefix_length x) < unat (rm_prefix_length rt)))"

definition best_so_far :: "u32 \<Rightarrow> RouteMsg list \<Rightarrow> u8 \<Rightarrow> RouteMsg option \<Rightarrow> bool" where
  "best_so_far ip table len best \<longleftrightarrow>
     (case best of
        None \<Rightarrow> len = 0 \<and> (\<forall>x \<in> set table. \<not> route_matches ip x)
      | Some rt \<Rightarrow> len = rm_prefix_length rt \<and> longest_match ip table rt)"

lemma best_so_far_step:
  assumes "best_so_far ip table len best"
  shows "best_so_far ip (table @ [it])
      (if route_matches ip it \<and> rm_prefix_length it \<ge> len then rm_prefix_length it else len)
      (if route_matches ip it \<and> rm_prefix_length it \<ge> len then Some it else best)"
proof (cases "route_matches ip it \<and> rm_prefix_length it \<ge> len")
  case True
  have "route_matches ip x \<longrightarrow> unat (rm_prefix_length x) \<le> unat (rm_prefix_length it)" if "x \<in> set table" for x
    using assms that True
    by (cases best) (auto simp: best_so_far_def longest_match_def word_le_nat_alt dest!: bspec)
  with True have "longest_match ip (table @ [it]) it"
    unfolding longest_match_def by - (rule exI [of _ table], rule exI [of _ "[]"], auto)
  with True show ?thesis by (simp add: best_so_far_def)
next
  case False
  show ?thesis
  proof (cases best)
    case None
    with assms False show ?thesis by (auto simp: best_so_far_def)
  next
    case (Some rt)
    with assms obtain pre post where "table = pre @ rt # post" "route_matches ip rt" "len = rm_prefix_length rt"
      "\<forall>x \<in> set pre. route_matches ip x \<longrightarrow> unat (rm_prefix_length x) \<le> unat (rm_prefix_length rt)"
      "\<forall>x \<in> set post. route_matches ip x \<longrightarrow> unat (rm_prefix_length x) < unat (rm_prefix_length rt)"
      by (auto simp: best_so_far_def longest_match_def)
    with False have "longest_match ip (table @ [it]) rt"
      unfolding longest_match_def by - (rule exI [of _ pre], rule exI [of _ "post @ [it]"], auto simp: word_le_nat_alt)
    with False Some \<open>len = rm_prefix_length rt\<close> show ?thesis by (auto simp: best_so_far_def)
  qed
qed

lemma best_route_scan:
  "best_so_far ip done len best \<Longrightarrow> \<exists>len'. best_so_far ip (done @ table) len' (best_route s ip table len best)"
proof (induction table arbitrary: "done" len best)
  case (Cons it table)
  from Cons.IH [OF best_so_far_step [OF Cons.prems, of it]] show ?case
    by (auto simp: match_len_iff split: if_splits)
qed auto

section \<open>Forwarding\<close>

text \<open>What routing one datagram does to the interfaces, as a function on them.\<close>

definition forward :: "RouteMsg list \<Rightarrow> IPv4Datagram \<Rightarrow> AsyncNetworkInterface list \<Rightarrow> AsyncNetworkInterface list" where
  "forward table d ns =
     (if unat (ih_ttl (id_header d)) \<le> 1 then ns
      else
        case best_route (\<lambda>x. 0) (ih_dst (id_header d)) table 0 None of
          None \<Rightarrow> ns
        | Some rt \<Rightarrow>
            ns[unat (rm_interface_num rt) :=
               snd (NetworkInterface_send_datagram (d\<lparr>id_header := (id_header d)\<lparr>ih_ttl := ih_ttl (id_header d) - 1\<rparr>\<rparr>)
                 (if rm_next_hop rt = 0 then ih_dst (id_header d) else rm_next_hop rt) (ns ! unat (rm_interface_num rt)))])"

lemma forward_alt:
  "forward table d ns =
     (if unat (ih_ttl (id_header d)) \<le> 1 then ns
      else
        case best_route (\<lambda>x. 0) (ih_dst (id_header d)) table 0 None of
          None \<Rightarrow> ns
        | Some rt \<Rightarrow>
            ns[unat (rm_interface_num rt) :=
               snd (NetworkInterface_send_datagram (decrement_ttl d)
                 (if rm_next_hop rt = 0 then ih_dst (id_header d) else rm_next_hop rt) (ns ! unat (rm_interface_num rt)))])"
  by (simp only: forward_def decrement_ttl_def)

lemma best_route_shr32: "best_route s ip table len best = best_route t ip table len best"
  by (induction table arbitrary: len best) (simp_all add: match_len_iff)

lemma best_route_in_table: "best_route s ip table 0 None = Some rt \<Longrightarrow> rt \<in> set table"
  using best_route_scan [of ip "[]" 0 None table s] by (auto simp: best_so_far_def longest_match_def)

definition routes_ok :: "Router \<Rightarrow> bool" where
  "routes_ok r \<longleftrightarrow> (\<forall>rt \<in> set (ro_route_table r). unat (rm_interface_num rt) < length (ro_interfaces r))"

lemma datagram_ok_decrement [simp]: "datagram_ok (decrement_ttl d) = datagram_ok d"
  by (simp add: datagram_ok_def decrement_ttl_def ip_header_ok_def)

lemma send_datagram_ok: "datagram_ok d \<Longrightarrow> fst (NetworkInterface_send_datagram d ip n) = None"
  by (simp add: NetworkInterface_send_datagram_def serialize_wire_payload send_arp_request_def ARPMessage_serialize_def
      ARPMessage_supported_def arp_request_def ARPMessage_default_def Let_def)

lemma ttl_le_1: "unat (x :: u8) \<le> Suc 0 \<longleftrightarrow> x = 0 \<or> x = 1"
  by (auto simp: word_unat_eq_iff)

lemma route_one_forward:
  assumes "datagram_ok d" and "routes_ok r"
  shows "\<exists>d'. Router_route_one_datagram s d r = (None, d', r\<lparr>ro_interfaces := forward (ro_route_table r) d (ro_interfaces r)\<rparr>)"
proof (cases "unat (ih_ttl (id_header d)) \<le> 1")
  case True
  then show ?thesis by (auto simp: Router_route_one_datagram_def forward_alt ttl_le_1)
next
  case ttl: False
  have dst: "ih_dst (id_header (decrement_ttl d)) = ih_dst (id_header d)" by (simp add: decrement_ttl_def)
  note b = best_route_shr32 [of s _ _ _ _ "\<lambda>x. 0"]
  show ?thesis
  proof (cases "best_route (\<lambda>x. 0) (ih_dst (id_header d)) (ro_route_table r) 0 None")
    case None
    then show ?thesis using ttl by (simp add: Router_route_one_datagram_def forward_alt ttl_le_1 Let_def dst b)
  next
    case (Some rt)
    then have "unat (rm_interface_num rt) < length (ro_interfaces r)"
      using best_route_in_table assms(2) by (auto simp: routes_ok_def)
    with Some ttl show ?thesis
      by (simp add: Router_route_one_datagram_def forward_alt ttl_le_1 Let_def dst b case_prod_beta send_datagram_ok assms(1))
  qed
qed

lemma send_datagram_set_queue:
  "snd (NetworkInterface_send_datagram d ip (n\<lparr>ai_datagrams_out := q\<rparr>)) =
   (snd (NetworkInterface_send_datagram d ip n))\<lparr>ai_datagrams_out := q\<rparr>"
  by (auto simp: NetworkInterface_send_datagram_def send_arp_request_def push_frame_def cached_def may_request_def arp_request_def
      split: sum.splits option.splits prod.splits if_splits)

lemma length_forward [simp]: "length (forward table d ns) = length ns"
  by (simp add: forward_alt split: option.splits)

text \<open>Forwarding does not look at the queues of received datagrams and leaves them alone.\<close>

lemma forward_set_queue:
  assumes "k < length ns"
  shows "forward table d (ns[k := (ns ! k)\<lparr>ai_datagrams_out := q\<rparr>]) =
    (forward table d ns)[k := (forward table d ns ! k)\<lparr>ai_datagrams_out := q\<rparr>]"
proof -
  let ?q = "\<lambda>n. n\<lparr>ai_datagrams_out := q\<rparr>"
  have "(ns[k := ?q (ns ! k)])[i := snd (NetworkInterface_send_datagram x ip (ns[k := ?q (ns ! k)] ! i))] =
      (ns[i := snd (NetworkInterface_send_datagram x ip (ns ! i))])[k := ?q (ns[i := snd (NetworkInterface_send_datagram x ip (ns ! i))] ! k)]"
    for i x ip
    using assms by (cases "i = k") (auto simp: send_datagram_set_queue list_update_swap)
  then show ?thesis by (simp add: forward_alt split: option.splits)
qed

lemma forward_queue:
  assumes "k < length ns"
  shows "ai_datagrams_out (forward table d ns ! k) = ai_datagrams_out (ns ! k)"
proof -
  have "ai_datagrams_out (ns[i := snd (NetworkInterface_send_datagram x ip (ns ! i))] ! k) = ai_datagrams_out (ns ! k)" for i x ip
    using assms by (cases "i = k") auto
  then show ?thesis by (auto simp: forward_alt split: option.splits)
qed

lemma fold_forward_set_queue:
  assumes "k < length ns"
  shows "fold (forward table) ds (ns[k := (ns ! k)\<lparr>ai_datagrams_out := q\<rparr>]) =
    (fold (forward table) ds ns)[k := (fold (forward table) ds ns ! k)\<lparr>ai_datagrams_out := q\<rparr>]"
  using assms
proof (induction ds arbitrary: ns)
  case (Cons d ds)
  from Cons.IH [of "forward table d ns"] Cons.prems show ?case by (simp add: forward_set_queue)
qed simp

lemma length_fold_forward [simp]: "length (fold (forward table) ds ns) = length ns"
  by (induction ds arbitrary: ns) auto

lemma fold_forward_queue: "k < length ns \<Longrightarrow> ai_datagrams_out (fold (forward table) ds ns ! k) = ai_datagrams_out (ns ! k)"
  by (induction ds arbitrary: ns) (auto simp: forward_queue)

definition cleared :: "nat \<Rightarrow> AsyncNetworkInterface list \<Rightarrow> AsyncNetworkInterface list" where
  "cleared k ns = ns[k := (ns ! k)\<lparr>ai_datagrams_out := []\<rparr>]"

lemma route_queue_forwards:
  assumes "k < length (ro_interfaces r)" and "routes_ok r" and "\<forall>d \<in> set (queue_of k r). datagram_ok d"
  shows "route_queue s k r =
    (None, r\<lparr>ro_interfaces := cleared k (fold (forward (ro_route_table r)) (queue_of k r) (ro_interfaces r))\<rparr>)"
  using assms
proof (induction "queue_of k r" arbitrary: r)
  case Nil
  then have "(ro_interfaces r ! k)\<lparr>ai_datagrams_out := []\<rparr> = ro_interfaces r ! k" by (simp add: queue_of_def)
  with Nil show ?case by (subst route_queue.simps) (simp add: cleared_def)
next
  case (Cons d ds)
  let ?T = "ro_route_table r" and ?ns = "ro_interfaces r"
  have d: "datagram_ok d" using Cons.prems(3) Cons.hyps(2) [symmetric] by simp
  obtain d' where o: "Router_route_one_datagram s (hd (queue_of k r)) r = (None, d', r\<lparr>ro_interfaces := forward ?T d ?ns\<rparr>)"
    using route_one_forward [OF d Cons.prems(2)] Cons.hyps(2) [symmetric] by auto
  define r1 where "r1 = r\<lparr>ro_interfaces := (forward ?T d ?ns)[k := (forward ?T d ?ns ! k)\<lparr>ai_datagrams_out := ds\<rparr>]\<rparr>"
  have q: "ai_datagrams_out (forward ?T d ?ns ! k) = d # ds"
    using forward_queue [OF Cons.prems(1)] Cons.hyps(2) by (simp add: queue_of_def)
  have f: "route_front s k r = (None, r1)"
    unfolding route_front_def o Let_def prod.case option.case
    using Cons.prems(1) by (simp add: r1_def set_queue_def queue_of_def q)
  have r1: "queue_of k r1 = ds" "k < length (ro_interfaces r1)" "routes_ok r1" "ro_route_table r1 = ?T"
    using Cons.prems by (auto simp: r1_def queue_of_def routes_ok_def)
  have "route_queue s k r1 = (None, r1\<lparr>ro_interfaces := cleared k (fold (forward ?T) ds (ro_interfaces r1))\<rparr>)"
    using Cons.hyps(1) [of r1] r1 Cons.prems(3) Cons.hyps(2) [symmetric] by simp
  moreover have "cleared k (fold (forward ?T) ds (ro_interfaces r1)) = cleared k (fold (forward ?T) (d # ds) ?ns)"
    using Cons.prems(1) by (simp add: r1_def cleared_def fold_forward_set_queue)
  ultimately show ?case
    using Cons.prems(1) Cons.hyps(2) [symmetric] by (subst route_queue.simps) (simp add: f r1_def)
qed

lemma fold_forward_cleared:
  assumes "k < length ns"
  shows "map (\<lambda>n. n\<lparr>ai_datagrams_out := []\<rparr>) (fold (forward table) ds (cleared k ns)) =
    map (\<lambda>n. n\<lparr>ai_datagrams_out := []\<rparr>) (fold (forward table) ds ns)"
proof -
  let ?f = "\<lambda>n. n\<lparr>ai_datagrams_out := []\<rparr>" and ?ms = "fold (forward table) ds ns"
  have "(map ?f ?ms)[k := ?f (?ms ! k)] = map ?f ?ms" using assms list_update_id [of "map ?f ?ms" k] by simp
  then show ?thesis using assms by (simp add: cleared_def fold_forward_set_queue map_update)
qed

lemma route_interfaces_forwards:
  assumes "k + n = length (ro_interfaces r)" and "routes_ok r"
    and "\<forall>i < length (ro_interfaces r). \<forall>d \<in> set (queue_of i r). datagram_ok d"
    and "r' = snd (route_interfaces s k n r)"
  shows "fst (route_interfaces s k n r) = None \<and> length (ro_interfaces r') = length (ro_interfaces r) \<and>
    ro_route_table r' = ro_route_table r \<and>
    (\<forall>i < length (ro_interfaces r). queue_of i r' = (if k \<le> i then [] else queue_of i r)) \<and>
    map (\<lambda>n. n\<lparr>ai_datagrams_out := []\<rparr>) (ro_interfaces r') =
      map (\<lambda>n. n\<lparr>ai_datagrams_out := []\<rparr>)
        (fold (forward (ro_route_table r)) (concat (map (\<lambda>i. queue_of i r) [k..<k + n])) (ro_interfaces r))"
  using assms
proof (induction n arbitrary: k r)
  case (Suc n)
  let ?T = "ro_route_table r" and ?ns = "ro_interfaces r"
  have k: "k < length ?ns" using Suc.prems(1) by simp
  define r1 where "r1 = r\<lparr>ro_interfaces := cleared k (fold (forward ?T) (queue_of k r) ?ns)\<rparr>"
  have q: "route_queue s k r = (None, r1)"
    using route_queue_forwards [OF k Suc.prems(2)] Suc.prems(3) k by (simp add: r1_def)
  have r1: "length (ro_interfaces r1) = length ?ns" "ro_route_table r1 = ?T" "routes_ok r1"
    using Suc.prems(2) by (auto simp: r1_def cleared_def routes_ok_def)
  have qs: "queue_of i r1 = (if i = k then [] else queue_of i r)" if "i < length ?ns" for i
    using that k fold_forward_queue [of i ?ns ?T "queue_of k r"] by (simp add: r1_def cleared_def queue_of_def)
  have r': "r' = snd (route_interfaces s (k + 1) n r1)" using Suc.prems(4) q by simp
  have all: "\<forall>i < length (ro_interfaces r1). \<forall>d \<in> set (queue_of i r1). datagram_ok d"
    using Suc.prems(3) qs r1(1) by auto
  note IH = Suc.IH [OF _ r1(3) all r']
  have later: "concat (map (\<lambda>i. queue_of i r1) [k + 1..<k + 1 + n]) = concat (map (\<lambda>i. queue_of i r) [k + 1..<k + 1 + n])"
    using Suc.prems(1) qs by (intro arg_cong [of _ _ concat] map_cong) auto
  have "map (\<lambda>n. n\<lparr>ai_datagrams_out := []\<rparr>) (ro_interfaces r') =
      map (\<lambda>n. n\<lparr>ai_datagrams_out := []\<rparr>) (fold (forward ?T) (concat (map (\<lambda>i. queue_of i r) [k..<k + Suc n])) ?ns)"
    using IH Suc.prems(1) r1 later k by (simp add: r1_def fold_forward_cleared upt_conv_Cons del: upt_Suc)
  moreover have "queue_of i r' = (if k \<le> i then [] else queue_of i r)" if "i < length ?ns" for i
    using IH Suc.prems(1) r1(1) qs that by (auto simp: less_Suc_eq_le)
  ultimately show ?case using IH q r1 Suc.prems(1) by (simp del: upt_Suc)
qed simp

section \<open>Properties\<close>

text \<open>
  C32: the route search is longest prefix match. The nested loops of \<open>route_one_datagram\<close> find a route exactly when
  some route of the table agrees with the destination in its first \<open>prefix_length\<close> bits; the
  route found is one of the longest, and the last of these in the table. What \<open>x >> 32\<close> yields
  does not matter, and a prefix length above 32 never matches.
\<close>
theorem Router_longest_prefix_match:
  "case best_route shr32 ip table 0 None of
     None \<Rightarrow> \<forall>rt \<in> set table. \<not> route_matches ip rt
   | Some rt \<Rightarrow> longest_match ip table rt"
proof -
  have "best_so_far ip [] 0 None" by (simp add: best_so_far_def)
  from best_route_scan [OF this, of table shr32] show ?thesis
    by (auto simp: best_so_far_def split: option.splits)
qed

theorem Router_longest_prefix_match_witness:
  "case best_route (\<lambda>x. x) 0x0a000001 [\<lparr>rm_route_prefix = 0x0a000000, rm_prefix_length = 8, rm_next_hop = 0, rm_interface_num = 0\<rparr>] 0 None of
     None \<Rightarrow> \<forall>rt \<in> set [\<lparr>rm_route_prefix = 0x0a000000, rm_prefix_length = 8, rm_next_hop = 0, rm_interface_num = 0\<rparr>]. \<not> route_matches 0x0a000001 rt
   | Some rt \<Rightarrow> longest_match 0x0a000001 [\<lparr>rm_route_prefix = 0x0a000000, rm_prefix_length = 8, rm_next_hop = 0, rm_interface_num = 0\<rparr>] rt"
  by (rule Router_longest_prefix_match)

text \<open>
  C33: \<open>route()\<close> terminates without an exception when the received datagrams are well-formed and
  the routes name existing interfaces, and does exactly this: all datagrams waiting in the
  queues, interface by interface and in order, are forwarded, that is, dropped when their
  time to live is at most one or no route matches, and otherwise sent once, with the time to
  live decremented, on the interface of the longest matching route; all queues are empty afterwards.
\<close>
theorem Router_route_refines:
  assumes "routes_ok r" and "\<forall>n \<in> set (ro_interfaces r). \<forall>d \<in> set (ai_datagrams_out n). datagram_ok d"
  shows "\<exists>r'. Router_route shr32 r = (None, r') \<and> ro_route_table r' = ro_route_table r \<and>
    ro_interfaces r' = map (\<lambda>n. n\<lparr>ai_datagrams_out := []\<rparr>)
      (fold (forward (ro_route_table r)) (concat (map ai_datagrams_out (ro_interfaces r))) (ro_interfaces r))"
proof -
  obtain e r' where r': "Router_route shr32 r = (e, r')" by fastforce
  have all: "\<forall>i < length (ro_interfaces r). \<forall>d \<in> set (queue_of i r). datagram_ok d"
    using assms(2) nth_mem unfolding queue_of_def by blast
  have s: "r' = snd (route_interfaces shr32 0 (length (ro_interfaces r)) r)" using r' by (simp add: Router_route_def)
  have F: "fst (route_interfaces shr32 0 (length (ro_interfaces r)) r) = None" "ro_route_table r' = ro_route_table r"
    "\<forall>i < length (ro_interfaces r). queue_of i r' = []" "length (ro_interfaces r') = length (ro_interfaces r)"
    "map (\<lambda>n. n\<lparr>ai_datagrams_out := []\<rparr>) (ro_interfaces r') = map (\<lambda>n. n\<lparr>ai_datagrams_out := []\<rparr>)
        (fold (forward (ro_route_table r)) (concat (map (\<lambda>i. queue_of i r) [0..<length (ro_interfaces r)])) (ro_interfaces r))"
    using route_interfaces_forwards [OF _ assms(1) all s] by simp_all
  have "map (\<lambda>i. queue_of i r) [0..<length (ro_interfaces r)] = map ai_datagrams_out (ro_interfaces r)"
    by (rule nth_equalityI) (simp_all add: queue_of_def)
  moreover have "map (\<lambda>n. n\<lparr>ai_datagrams_out := []\<rparr>) (ro_interfaces r') = ro_interfaces r'"
    using F(3,4) by (intro nth_equalityI) (simp_all add: queue_of_def)
  ultimately have "ro_interfaces r' = map (\<lambda>n. n\<lparr>ai_datagrams_out := []\<rparr>)
      (fold (forward (ro_route_table r)) (concat (map ai_datagrams_out (ro_interfaces r))) (ro_interfaces r))"
    using F(5) by metis
  moreover have "e = None" using F(1) r' by (simp add: Router_route_def)
  ultimately show ?thesis using r' F(2) by blast
qed

theorem Router_route_refines_witness:
  "\<exists>r'. Router_route (\<lambda>x. x) (Router_new\<lparr>ro_interfaces :=
     [(AsyncNetworkInterface_of (NetworkInterface_new [2, 0, 0, 0, 0, 1] 1))\<lparr>ai_datagrams_out := [example_datagram]\<rparr>]\<rparr>) = (None, r')"
  using Router_route_refines [of "Router_new\<lparr>ro_interfaces :=
     [(AsyncNetworkInterface_of (NetworkInterface_new [2, 0, 0, 0, 0, 1] 1))\<lparr>ai_datagrams_out := [example_datagram]\<rparr>]\<rparr>" "\<lambda>x. x"]
    example_datagram_ok
  by (auto simp: routes_ok_def Router_new_def)

end
