(* ===== verification/Address.thy ===== *)
theory Address
  imports Buffers
begin

text \<open>
  \<open>libsponge/util/address.hh\<close> and \<open>.cc\<close>. The program makes addresses with the \<open>AF_INET\<close> hints,
  from a 32-bit number, or from what the kernel reports for an IPv4 socket; such an address is
  the number of the host and the port, which is what \<open>getnameinfo\<close> and \<open>getaddrinfo\<close> convert to
  and from a dotted quad. Name resolution is not modelled.
\<close>

record Address =
  ad_ip :: u32
  ad_port :: u16

definition Address_ipv4_numeric :: "Address \<Rightarrow> u32" where
  "Address_ipv4_numeric a = ad_ip a"

definition Address_from_ipv4_numeric :: "u32 \<Rightarrow> Address" where
  "Address_from_ipv4_numeric ip_address = \<lparr>ad_ip = ip_address, ad_port = 0\<rparr>"

definition Address_eq :: "Address \<Rightarrow> Address \<Rightarrow> bool" where
  "Address_eq a b \<longleftrightarrow> ad_port a = ad_port b \<and> ad_ip a = ad_ip b"

lemma Address_eq_iff [simp]: "Address_eq a b \<longleftrightarrow> a = b"
  by (cases a; cases b) (auto simp: Address_eq_def)

text \<open>The number of a dotted quad, as \<open>inet_aton\<close> reads it.\<close>

definition quad :: "u8 \<Rightarrow> u8 \<Rightarrow> u8 \<Rightarrow> u8 \<Rightarrow> u32" where
  "quad a b c d = push_bit 24 (ucast a) OR push_bit 16 (ucast b) OR push_bit 8 (ucast c) OR ucast d"

section \<open>The text of an address\<close>

text \<open>\<open>std::to_string\<close> of an unsigned number.\<close>

definition digit_char :: "nat \<Rightarrow> char" where
  "digit_char d = char_of (48 + d)"

fun decimal :: "nat \<Rightarrow> string" where
  "decimal n = (if n < 10 then [digit_char n] else decimal (n div 10) @ [digit_char (n mod 10)])"

declare decimal.simps [simp del]

definition dotted_quad :: "u32 \<Rightarrow> string" where
  "dotted_quad ip =
     decimal (unat (drop_bit 24 ip)) @ ''.'' @ decimal (unat (drop_bit 16 ip AND 0xff)) @ ''.'' @
     decimal (unat (drop_bit 8 ip AND 0xff)) @ ''.'' @ decimal (unat (ip AND 0xff))"

definition Address_ip_port :: "Address \<Rightarrow> string \<times> u16" where
  "Address_ip_port a = (dotted_quad (ad_ip a), ad_port a)"

definition Address_to_string :: "Address \<Rightarrow> string" where
  "Address_to_string a = (let ip_and_port = Address_ip_port a in fst ip_and_port @ '':'' @ decimal (unat (snd ip_and_port)))"

end
