(* ===== verification/File_Descriptor.thy ===== *)
theory File_Descriptor
  imports Address
begin

text \<open>
  \<open>libsponge/util/file_descriptor.hh\<close> and \<open>.cc\<close>, the sockets of \<open>socket.hh\<close> and \<open>.cc\<close> and the
  wrapper \<open>SystemCall\<close> of \<open>util.cc\<close>. The kernel is a parameter: a record of the system calls,
  each a function of the kernel's state that returns the value of the call, the error number
  and the data it delivers. An operation works on the wrapper that all duplicates of a
  descriptor share, and on the kernel; it returns its result or its exception beside them.
\<close>

section \<open>System calls\<close>

record 'k Syscalls =
  sys_close :: "int \<Rightarrow> 'k \<Rightarrow> (int \<times> int) \<times> 'k"
  sys_read :: "int \<Rightarrow> size_t \<Rightarrow> 'k \<Rightarrow> (int \<times> int \<times> bytes) \<times> 'k"
  sys_writev :: "int \<Rightarrow> (bytes \<times> size_t) list \<Rightarrow> 'k \<Rightarrow> (int \<times> int) \<times> 'k"
  sys_getfl :: "int \<Rightarrow> 'k \<Rightarrow> (int \<times> int) \<times> 'k"
  sys_setfl :: "int \<Rightarrow> int \<Rightarrow> 'k \<Rightarrow> (int \<times> int) \<times> 'k"
  sys_shutdown :: "int \<Rightarrow> int \<Rightarrow> 'k \<Rightarrow> (int \<times> int) \<times> 'k"
  sys_recvfrom :: "int \<Rightarrow> size_t \<Rightarrow> 'k \<Rightarrow> (int \<times> int \<times> bytes \<times> Address) \<times> 'k"
  sys_sendmsg :: "int \<Rightarrow> Address option \<Rightarrow> (bytes \<times> size_t) list \<Rightarrow> 'k \<Rightarrow> (int \<times> int) \<times> 'k"
  sys_poll :: "(int \<times> u16) list \<Rightarrow> int \<Rightarrow> 'k \<Rightarrow> (int \<times> int \<times> u16 list) \<times> 'k"
  sys_clock :: "'k \<Rightarrow> u64 \<times> 'k"

text \<open>The value of a call becomes a 32-bit \<open>int\<close> when it is passed to \<open>SystemCall\<close>.\<close>

definition to_int :: "int \<Rightarrow> int" where
  "to_int v = sint (word_of_int v :: 32 word)"

definition SystemCall :: "string \<Rightarrow> int \<Rightarrow> int \<Rightarrow> int \<Rightarrow> int res" where
  "SystemCall attempt return_value errno errno_mask =
     (let v = to_int return_value
      in if v \<ge> 0 \<or> errno = errno_mask then Inr v else Inl (Unix_error attempt errno))"

section \<open>Descriptors\<close>

record FDWrapper =
  fd_fd :: int
  fd_eof :: bool
  fd_closed :: bool
  fd_read_count :: u32
  fd_write_count :: u32

definition FDWrapper_new :: "int \<Rightarrow> FDWrapper res" where
  "FDWrapper_new fd =
     (if fd < 0 then Inl (Runtime_error ''invalid fd number'')
      else Inr \<lparr>fd_fd = fd, fd_eof = False, fd_closed = False, fd_read_count = 0, fd_write_count = 0\<rparr>)"

definition FDWrapper_close :: "'k Syscalls \<Rightarrow> FDWrapper \<Rightarrow> 'k \<Rightarrow> unit res \<times> FDWrapper \<times> 'k" where
  "FDWrapper_close sys w k =
     (let ((ret, errno), k') = sys_close sys (fd_fd w) k
      in case SystemCall ''close'' ret errno 0 of
           Inl e \<Rightarrow> (Inl e, w, k')
         | Inr _ \<Rightarrow> (Inr (), w\<lparr>fd_eof := True, fd_closed := True\<rparr>, k'))"

definition FDWrapper_destroy :: "'k Syscalls \<Rightarrow> FDWrapper \<Rightarrow> 'k \<Rightarrow> FDWrapper \<times> 'k" where
  "FDWrapper_destroy sys w k = (if fd_closed w then (w, k) else snd (FDWrapper_close sys w k))"

definition register_read :: "FDWrapper \<Rightarrow> FDWrapper" where
  "register_read w = w\<lparr>fd_read_count := fd_read_count w + 1\<rparr>"

definition register_write :: "FDWrapper \<Rightarrow> FDWrapper" where
  "register_write w = w\<lparr>fd_write_count := fd_write_count w + 1\<rparr>"

definition BUFFER_SIZE :: size_t where
  "BUFFER_SIZE = 1024 * 1024"

text \<open>
  The string that the call fills has \<open>size_to_read\<close> bytes, and \<open>resize\<close> to a negative length
  throws.
\<close>

definition FileDescriptor_read :: "'k Syscalls \<Rightarrow> size_t \<Rightarrow> FDWrapper \<Rightarrow> 'k \<Rightarrow> bytes res \<times> FDWrapper \<times> 'k" where
  "FileDescriptor_read sys limit w k =
     (let size_to_read = min BUFFER_SIZE limit;
          ((ret, errno, data), k') = sys_read sys (fd_fd w) size_to_read k;
          str = take (unat size_to_read) (data @ replicate (unat size_to_read) 0)
      in case SystemCall ''read'' ret errno 0 of
           Inl e \<Rightarrow> (Inl e, w, k')
         | Inr bytes_read \<Rightarrow>
             let w' = (if limit > 0 \<and> bytes_read = 0 then w\<lparr>fd_eof := True\<rparr> else w)
             in if bytes_read > int (unat size_to_read) then (Inl (Runtime_error ''read() read more than requested''), w', k')
                else if bytes_read < 0 then (Inl (Runtime_error ''length_error''), w', k')
                else (Inr (str_resize (nat bytes_read) str), register_read w', k'))"

text \<open>The \<open>do\<close> loop of \<open>write\<close>; the sizes are below \<open>2 ^ 63\<close>, so the signed comparison is the plain one.\<close>

lemma remove_prefix_0: "BufferViewList_remove_prefix 0 vs = Inr vs"
  by (cases vs) auto

lemma remove_prefix_decreases:
  "BufferViewList_remove_prefix n vs = Inr vs' \<Longrightarrow> n \<noteq> 0 \<Longrightarrow> length (concat vs') < length (concat vs)"
proof (induction vs arbitrary: n)
  case (Cons v vs)
  consider "n < str_size v" | "n = str_size v" | "str_size v < n" by fastforce
  then show ?case
  proof cases
    case 1
    then have "v \<noteq> []" by (auto simp: str_size_def)
    then show ?thesis using 1 Cons.prems by (auto simp: word_gt_0 unat_gt_0)
  next
    case 2
    then have "v \<noteq> []" using Cons.prems by (auto simp: str_size_def)
    moreover have "vs' = vs" using 2 Cons.prems by (cases vs) (auto simp: word_gt_0 split: if_splits)
    ultimately show ?thesis by simp
  next
    case 3
    then have "n - str_size v \<noteq> 0" by auto
    moreover have "BufferViewList_remove_prefix (n - str_size v) vs = Inr vs'"
      using 3 Cons.prems by (simp add: word_gt_0 order_less_not_sym)
    ultimately have "length (concat vs') < length (concat vs)" by (intro Cons.IH)
    then show ?thesis by simp
  qed
qed (auto simp: word_gt_0)


lemma to_int_range: "- (2 ^ 31) \<le> to_int v \<and> to_int v < 2 ^ 31"
  using sint_range_size [of "word_of_int v :: 32 word"] by (auto simp: to_int_def word_size)

lemma SystemCall_range: "SystemCall a v e m = Inr r \<Longrightarrow> - (2 ^ 31) \<le> r \<and> r < 2 ^ 31"
  using to_int_range [of v] by (auto simp: SystemCall_def Let_def split: if_splits)

lemma word_of_int_neq_0: "- (2 ^ 31) \<le> r \<Longrightarrow> r < 2 ^ 31 \<Longrightarrow> r \<noteq> 0 \<Longrightarrow> (word_of_int r :: 64 word) \<noteq> 0"
proof
  assume r: "- (2 ^ 31) \<le> r" "r < 2 ^ 31" "r \<noteq> 0" and "(word_of_int r :: 64 word) = 0"
  then have "2 ^ 64 dvd r" by (simp add: word_of_int_eq_0_iff)
  with r show False using zdvd_imp_le [of "2 ^ 64" r] zdvd_imp_le [of "2 ^ 64" "- r"] by (cases "r > 0") auto
qed

lemma write_loop_measure:
  assumes "SystemCall a ret errno 0 = Inr n" and "n = 0 \<longrightarrow> BufferViewList_size b = 0"
    and "BufferViewList_remove_prefix (word_of_int n) b = Inr b'" and "BufferViewList_size b' \<noteq> 0"
  shows "length (concat b') < length (concat b)"
proof -
  have "n \<noteq> 0" using assms(2,3,4) by (auto simp: remove_prefix_0)
  then have "(word_of_int n :: size_t) \<noteq> 0" using SystemCall_range [OF assms(1)] by (intro word_of_int_neq_0) auto
  then show ?thesis by (rule remove_prefix_decreases [OF assms(3)])
qed

function write_loop_fd ::
  "'k Syscalls \<Rightarrow> bool \<Rightarrow> BufferViewList \<Rightarrow> size_t \<Rightarrow> FDWrapper \<Rightarrow> 'k \<Rightarrow> size_t res \<times> FDWrapper \<times> 'k" where
  "write_loop_fd sys write_all buffer written w k =
     (let iovecs = as_iovecs buffer;
          ((ret, errno), k') = sys_writev sys (fd_fd w) iovecs k
      in case SystemCall ''writev'' ret errno 0 of
           Inl e \<Rightarrow> (Inl e, w, k')
         | Inr bytes_written \<Rightarrow>
             if bytes_written = 0 \<and> BufferViewList_size buffer \<noteq> 0
             then (Inl (Runtime_error ''write returned 0 given non-empty input buffer''), w, k')
             else if bytes_written > sint (BufferViewList_size buffer)
             then (Inl (Runtime_error ''write wrote more than length of input buffer''), w, k')
             else
               (case BufferViewList_remove_prefix (word_of_int bytes_written) buffer of
                  Inl e \<Rightarrow> (Inl e, register_write w, k')
                | Inr buffer' \<Rightarrow>
                    if write_all \<and> BufferViewList_size buffer' \<noteq> 0
                    then write_loop_fd sys write_all buffer' (written + word_of_int bytes_written) (register_write w) k'
                    else (Inr (written + word_of_int bytes_written), register_write w, k')))"
  by pat_completeness auto
termination
  by (relation "measure (\<lambda>(sys, write_all, buffer, written, w, k). length (concat buffer))")
     (auto intro!: write_loop_measure)

declare write_loop_fd.simps [simp del]

definition FileDescriptor_write ::
  "'k Syscalls \<Rightarrow> BufferViewList \<Rightarrow> bool \<Rightarrow> FDWrapper \<Rightarrow> 'k \<Rightarrow> size_t res \<times> FDWrapper \<times> 'k" where
  "FileDescriptor_write sys buffer write_all w k = write_loop_fd sys write_all buffer 0 w k"

definition O_NONBLOCK :: "32 word" where
  "O_NONBLOCK = 0x800"

definition FileDescriptor_set_blocking :: "'k Syscalls \<Rightarrow> bool \<Rightarrow> FDWrapper \<Rightarrow> 'k \<Rightarrow> unit res \<times> 'k" where
  "FileDescriptor_set_blocking sys blocking_state w k =
     (let ((ret, errno), k') = sys_getfl sys (fd_fd w) k
      in case SystemCall ''fcntl'' ret errno 0 of
           Inl e \<Rightarrow> (Inl e, k')
         | Inr v \<Rightarrow>
             let flags = word_of_int v :: 32 word;
                 flags' = (if blocking_state then flags XOR (flags AND O_NONBLOCK) else flags OR O_NONBLOCK);
                 ((ret', errno'), k'') = sys_setfl sys (fd_fd w) (sint flags') k'
             in (map_sum id (\<lambda>_. ()) (SystemCall ''fcntl'' ret' errno' 0), k''))"

section \<open>Sockets\<close>

definition SHUT_RD :: int where
  "SHUT_RD = 0"

definition SHUT_WR :: int where
  "SHUT_WR = 1"

definition SHUT_RDWR :: int where
  "SHUT_RDWR = 2"

definition Socket_shutdown :: "'k Syscalls \<Rightarrow> int \<Rightarrow> FDWrapper \<Rightarrow> 'k \<Rightarrow> unit res \<times> FDWrapper \<times> 'k" where
  "Socket_shutdown sys how w k =
     (let ((ret, errno), k') = sys_shutdown sys (fd_fd w) how k
      in case SystemCall ''shutdown'' ret errno 0 of
           Inl e \<Rightarrow> (Inl e, w, k')
         | Inr _ \<Rightarrow>
             if how = SHUT_RD then (Inr (), register_read w, k')
             else if how = SHUT_WR then (Inr (), register_write w, k')
             else if how = SHUT_RDWR then (Inr (), register_write (register_read w), k')
             else (Inl (Runtime_error ''Socket::shutdown() called with invalid `how`''), w, k'))"

record received_datagram =
  rd_source_address :: Address
  rd_payload :: bytes

definition UDPSocket_recv :: "'k Syscalls \<Rightarrow> size_t \<Rightarrow> FDWrapper \<Rightarrow> 'k \<Rightarrow> received_datagram res \<times> FDWrapper \<times> 'k" where
  "UDPSocket_recv sys mtu w k =
     (let ((ret, errno, data, source), k') = sys_recvfrom sys (fd_fd w) mtu k;
          payload = take (unat mtu) (data @ replicate (unat mtu) 0)
      in case SystemCall ''recvfrom'' ret errno 0 of
           Inl e \<Rightarrow> (Inl e, w, k')
         | Inr recv_len \<Rightarrow>
             if recv_len > int (unat mtu) then (Inl (Runtime_error ''recvfrom (oversized datagram)''), w, k')
             else if recv_len < 0 then (Inl (Runtime_error ''length_error''), register_read w, k')
             else (Inr \<lparr>rd_source_address = source, rd_payload = str_resize (nat recv_len) payload\<rparr>, register_read w, k'))"

definition sendmsg_helper :: "'k Syscalls \<Rightarrow> int \<Rightarrow> Address option \<Rightarrow> BufferViewList \<Rightarrow> 'k \<Rightarrow> unit res \<times> 'k" where
  "sendmsg_helper sys fd_num destination_address payload k =
     (let iovecs = as_iovecs payload;
          ((ret, errno), k') = sys_sendmsg sys fd_num destination_address iovecs k
      in case SystemCall ''sendmsg'' ret errno 0 of
           Inl e \<Rightarrow> (Inl e, k')
         | Inr bytes_sent \<Rightarrow>
             if word_of_int bytes_sent \<noteq> BufferViewList_size payload
             then (Inl (Runtime_error ''datagram payload too big for sendmsg()''), k')
             else (Inr (), k'))"

definition UDPSocket_sendto ::
  "'k Syscalls \<Rightarrow> Address \<Rightarrow> BufferViewList \<Rightarrow> FDWrapper \<Rightarrow> 'k \<Rightarrow> unit res \<times> FDWrapper \<times> 'k" where
  "UDPSocket_sendto sys destination payload w k =
     (case sendmsg_helper sys (fd_fd w) (Some destination) payload k of
        (Inl e, k') \<Rightarrow> (Inl e, w, k')
      | (Inr u, k') \<Rightarrow> (Inr u, register_write w, k'))"

definition UDPSocket_send :: "'k Syscalls \<Rightarrow> BufferViewList \<Rightarrow> FDWrapper \<Rightarrow> 'k \<Rightarrow> unit res \<times> FDWrapper \<times> 'k" where
  "UDPSocket_send sys payload w k =
     (case sendmsg_helper sys (fd_fd w) None payload k of
        (Inl e, k') \<Rightarrow> (Inl e, w, k')
      | (Inr u, k') \<Rightarrow> (Inr u, register_write w, k'))"

section \<open>Writing to a stream\<close>

text \<open>
  What \<open>writev(2)\<close> documents: it fails with \<open>-1\<close> and an error number, or it appends the first
  bytes of its data, at most \<open>0x7ffff000\<close> of them, to what was written to the descriptor.
\<close>

definition writev_appends :: "'k Syscalls \<Rightarrow> ('k \<Rightarrow> int \<Rightarrow> bytes) \<Rightarrow> bool" where
  "writev_appends sys sent \<longleftrightarrow>
     (\<forall>fd iov k ret errno k'. sys_writev sys fd iov k = ((ret, errno), k') \<longrightarrow>
        (ret = -1 \<and> errno \<noteq> 0 \<and> sent k' = sent k) \<or>
        (0 \<le> ret \<and> ret \<le> 0x7ffff000 \<and> nat ret \<le> length (concat (map fst iov)) \<and>
           sent k' = (sent k)(fd := sent k fd @ take (nat ret) (concat (map fst iov)))))"

definition views_ok :: "BufferViewList \<Rightarrow> bool" where
  "views_ok vs \<longleftrightarrow> length (concat vs) < 2 ^ 63"

lemma to_int_small: "- (2 ^ 31) \<le> v \<Longrightarrow> v < 2 ^ 31 \<Longrightarrow> to_int v = v"
  unfolding to_int_def by (simp add: sint_sbintrunc' signed_take_bit_int_eq_self)

lemma unat_word_of_int_64: "n < 2 ^ 64 \<Longrightarrow> unat (word_of_int (int n) :: 64 word) = n"
  by (simp add: unat_of_nat_64)

lemma concat_fst_iovecs [simp]: "concat (map fst (as_iovecs vs)) = concat vs"
  by (simp add: as_iovecs_def comp_def)

lemma views_bound: "v \<in> set vs \<Longrightarrow> length v \<le> length (concat vs)"
  by (induction vs) auto

lemma unat_views_size: "views_ok vs \<Longrightarrow> unat (BufferViewList_size vs) = length (concat vs)"
proof (induction vs)
  case (Cons v vs)
  then have "unat (BufferViewList_size vs) = length (concat vs)" "unat (str_size v) = length v"
    by (simp_all add: views_ok_def unat_str_size)
  with Cons.prems show ?case by (simp add: views_ok_def unat_add_small)
qed simp

lemma sint_views_size: "views_ok vs \<Longrightarrow> sint (BufferViewList_size vs) = int (length (concat vs))"
  using unat_views_size [of vs] by (simp add: views_ok_def sint_uint uint_nat signed_take_bit_int_eq_self)

section \<open>What holds for every kernel\<close>

text \<open>
  \<open>read\<close> returns at most what was asked for and \<open>write\<close> a count inside its data, or they throw,
  whatever the system calls do.
\<close>

lemma length_str_resize: "length (str_resize n s) = n"
  by (simp add: str_resize_def)

definition fd_throws :: "exn \<Rightarrow> bool" where
  "fd_throws e \<longleftrightarrow> (\<exists>a n. e = Unix_error a n) \<or> e = Out_of_range \<or>
     e \<in> Runtime_error ` {''read() read more than requested'', ''length_error'',
       ''write returned 0 given non-empty input buffer'', ''write wrote more than length of input buffer'',
       ''Socket::shutdown() called with invalid `how`''}"

lemma SystemCall_throws: "SystemCall a v n m = Inl e \<Longrightarrow> fd_throws e"
  by (auto simp: SystemCall_def fd_throws_def Let_def split: if_splits)

lemma fd_throws_simps [simp]:
  "fd_throws Out_of_range" "fd_throws (Unix_error a n)" "\<not> fd_throws Undefined"
  "fd_throws (Runtime_error ''read() read more than requested'')" "fd_throws (Runtime_error ''length_error'')"
  "fd_throws (Runtime_error ''write returned 0 given non-empty input buffer'')"
  "fd_throws (Runtime_error ''write wrote more than length of input buffer'')"
  "fd_throws (Runtime_error ''Socket::shutdown() called with invalid `how`'')"
  by (auto simp: fd_throws_def)

lemma read_throws: "FileDescriptor_read sys limit w k = (Inl e, w', k') \<Longrightarrow> fd_throws e"
  by (auto simp: FileDescriptor_read_def Let_def SystemCall_throws split: prod.splits sum.splits if_splits)

lemma close_throws: "FDWrapper_close sys w k = (Inl e, w', k') \<Longrightarrow> fd_throws e"
  by (auto simp: FDWrapper_close_def Let_def SystemCall_throws split: prod.splits sum.splits)

lemma shutdown_throws: "Socket_shutdown sys how w k = (Inl e, w', k') \<Longrightarrow> fd_throws e"
  by (auto simp: Socket_shutdown_def Let_def SystemCall_throws split: prod.splits sum.splits if_splits)

lemma close_result: "FDWrapper_close sys w k = (Inr u, w', k') \<Longrightarrow> w' = w\<lparr>fd_eof := True, fd_closed := True\<rparr>"
  by (auto simp: FDWrapper_close_def Let_def split: prod.splits sum.splits)

lemma shutdown_wr_result: "Socket_shutdown sys SHUT_WR w k = (Inr u, w', k') \<Longrightarrow> w' = register_write w"
  by (auto simp: Socket_shutdown_def SHUT_RD_def SHUT_WR_def Let_def split: prod.splits sum.splits)

lemma read_result:
  assumes "FileDescriptor_read sys limit w k = (Inr s, w', k')"
  shows "length s \<le> unat limit \<and> fd_fd w' = fd_fd w \<and> fd_closed w' = fd_closed w \<and>
    fd_read_count w' = fd_read_count w + 1 \<and> fd_write_count w' = fd_write_count w \<and>
    (fd_eof w' \<longleftrightarrow> fd_eof w \<or> limit > 0 \<and> s = [])"
proof -
  obtain ret errno data k1 where c: "sys_read sys (fd_fd w) (min BUFFER_SIZE limit) k = ((ret, errno, data), k1)"
    by (metis prod_cases4 prod.collapse)
  obtain n where n: "SystemCall ''read'' ret errno 0 = Inr n" "\<not> n > int (unat (min BUFFER_SIZE limit))" "\<not> n < 0"
    "s = str_resize (nat n) (take (unat (min BUFFER_SIZE limit)) (data @ replicate (unat (min BUFFER_SIZE limit)) 0))"
    "w' = register_read (if limit > 0 \<and> n = 0 then w\<lparr>fd_eof := True\<rparr> else w)"
    using assms by (auto simp: FileDescriptor_read_def c Let_def split: sum.splits if_splits)
  have l: "length s = nat n" unfolding n(4) by (rule length_str_resize)
  moreover have "nat n \<le> unat limit" using n(2) by (simp add: unat_min)
  moreover have "s = [] \<longleftrightarrow> n = 0" using n(3) l by auto
  ultimately show ?thesis using n(5) by (auto simp: register_read_def)
qed

lemma write_one_view:
  assumes "sys_writev sys (fd_fd w) (as_iovecs [d]) k = ((ret, errno), k1)"
  shows "FileDescriptor_write sys [d] False w k =
    (case SystemCall ''writev'' ret errno 0 of
       Inl e \<Rightarrow> (Inl e, w, k1)
     | Inr n \<Rightarrow>
         if n = 0 \<and> str_size d \<noteq> 0 then (Inl (Runtime_error ''write returned 0 given non-empty input buffer''), w, k1)
         else if n > sint (str_size d) then (Inl (Runtime_error ''write wrote more than length of input buffer''), w, k1)
         else (case BufferViewList_remove_prefix (word_of_int n) [d] of
                 Inl e \<Rightarrow> (Inl e, register_write w, k1)
               | Inr _ \<Rightarrow> (Inr (word_of_int n), register_write w, k1)))"
  unfolding FileDescriptor_write_def
  by (subst write_loop_fd.simps)
     (simp add: assms del: BufferViewList_remove_prefix.simps cong: sum.case_cong if_cong)

lemma remove_one_view:
  assumes "length d < 2 ^ 64"
  shows "case BufferViewList_remove_prefix n [d] of Inl e \<Rightarrow> e = Out_of_range | Inr _ \<Rightarrow> unat n \<le> length d"
proof -
  have "\<forall>v\<in>set [d]. length v < 2 ^ 64" using assms by simp
  then show ?thesis by (cases rule: view_list.remove_cases [where n = n]) simp_all
qed

lemma write_once:
  assumes "FileDescriptor_write sys [d] False w k = (r, w', k')" and "length d < 2 ^ 64"
  shows "case r of Inl e \<Rightarrow> fd_throws e | Inr c \<Rightarrow> w' = register_write w \<and> unat c \<le> length d"
proof -
  obtain ret errno k1 where c: "sys_writev sys (fd_fd w) (as_iovecs [d]) k = ((ret, errno), k1)" by (metis surj_pair)
  show ?thesis
  proof (cases "SystemCall ''writev'' ret errno 0")
    case (Inl e)
    then have "fd_throws e" by (rule SystemCall_throws)
    then show ?thesis using assms(1) Inl by (auto simp: write_one_view [OF c])
  next
    case (Inr n)
    then show ?thesis using assms(1) remove_one_view [OF assms(2), of "word_of_int n"]
      by (auto simp: write_one_view [OF c] simp del: BufferViewList_remove_prefix.simps split: if_splits sum.splits)
  qed
qed

lemma remove_prefix_throws: "BufferViewList_remove_prefix n vs = Inl e \<Longrightarrow> e = Out_of_range"
  by (induction n vs rule: BufferViewList_remove_prefix.induct) (auto split: if_splits)

lemma write_loop_result:
  assumes "write_loop_fd sys write_all buffer written w k = (r, w', k')"
  shows "(case r of Inl e \<Rightarrow> fd_throws e | Inr _ \<Rightarrow> True) \<and> fd_read_count w' = fd_read_count w"
  using assms
proof (induction sys write_all buffer written w k rule: write_loop_fd.induct)
  case (1 sys write_all buffer written w k)
  obtain ret errno k1 where c: "sys_writev sys (fd_fd w) (as_iovecs buffer) k = ((ret, errno), k1)" by (metis surj_pair)
  have w: "fd_read_count (register_write w) = fd_read_count w" by (simp add: register_write_def)
  note step = write_loop_fd.simps [of sys write_all buffer written w k, unfolded Let_def c prod.case]
  show ?case
  proof (cases "SystemCall ''writev'' ret errno 0")
    case (Inl e)
    then have "fd_throws e" by (rule SystemCall_throws)
    with Inl "1.prems" show ?thesis unfolding step by auto
  next
    case (Inr n)
    let ?throws = "n = 0 \<and> BufferViewList_size buffer \<noteq> 0 \<or> n > sint (BufferViewList_size buffer)"
    show ?thesis
    proof (cases ?throws)
      case True
      with Inr "1.prems" show ?thesis unfolding step by (auto split: if_splits)
    next
      case False
      show ?thesis
      proof (cases "BufferViewList_remove_prefix (word_of_int n) buffer")
        case (Inl e)
        with Inr False "1.prems" remove_prefix_throws [OF Inl] w show ?thesis unfolding step by (auto split: if_splits)
      next
        case (Inr buffer')
        show ?thesis
        proof (cases "write_all \<and> BufferViewList_size buffer' \<noteq> 0")
          case True
          then have "write_loop_fd sys write_all buffer' (written + word_of_int n) (register_write w) k1 = (r, w', k')"
            using \<open>SystemCall _ _ _ _ = Inr n\<close> False Inr "1.prems" unfolding step by (simp split: if_splits)
          then show ?thesis
            using "1.IH" [OF refl refl c [symmetric] refl \<open>SystemCall _ _ _ _ = Inr n\<close> _ _ Inr True] False w by auto
        next
          case F: False
          then show ?thesis using \<open>SystemCall _ _ _ _ = Inr n\<close> False Inr "1.prems" w unfolding step by (auto split: if_splits)
        qed
      qed
    qed
  qed
qed

section \<open>What went through the descriptors\<close>

text \<open>
  Any kernel with a record of the bytes that its \<open>read\<close> calls delivered from each descriptor and
  its \<open>writev\<close> calls took for it. The program cannot see the record.
\<close>

record history =
  hi_read :: "int \<Rightarrow> bytes"
  hi_written :: "int \<Rightarrow> bytes"

definition lifted :: "('k \<Rightarrow> 'x \<times> 'k) \<Rightarrow> 'k \<times> history \<Rightarrow> 'x \<times> 'k \<times> history" where
  "lifted f s = (case f (fst s) of (x, k) \<Rightarrow> (x, k, snd s))"

definition traced_read ::
  "'k Syscalls \<Rightarrow> int \<Rightarrow> size_t \<Rightarrow> 'k \<times> history \<Rightarrow> (int \<times> int \<times> bytes) \<times> 'k \<times> history" where
  "traced_read sys fd n s =
     (case sys_read sys fd n (fst s) of
        ((ret, errno, data), k) \<Rightarrow>
          ((ret, errno, data), k, (snd s)\<lparr>hi_read := (hi_read (snd s))(fd := hi_read (snd s) fd @
             take (nat (to_int ret)) (take (unat n) (data @ replicate (unat n) 0)))\<rparr>))"

definition traced_writev ::
  "'k Syscalls \<Rightarrow> int \<Rightarrow> (bytes \<times> size_t) list \<Rightarrow> 'k \<times> history \<Rightarrow> (int \<times> int) \<times> 'k \<times> history" where
  "traced_writev sys fd iov s =
     (case sys_writev sys fd iov (fst s) of
        ((ret, errno), k) \<Rightarrow>
          ((ret, errno), k, (snd s)\<lparr>hi_written := (hi_written (snd s))(fd := hi_written (snd s) fd @
             take (nat (to_int ret)) (concat (map fst iov)))\<rparr>))"

definition traced :: "'k Syscalls \<Rightarrow> ('k \<times> history) Syscalls" where
  "traced sys =
     \<lparr>sys_close = \<lambda>fd. lifted (sys_close sys fd), sys_read = traced_read sys, sys_writev = traced_writev sys,
      sys_getfl = \<lambda>fd. lifted (sys_getfl sys fd), sys_setfl = \<lambda>fd fl. lifted (sys_setfl sys fd fl),
      sys_shutdown = \<lambda>fd how. lifted (sys_shutdown sys fd how), sys_recvfrom = \<lambda>fd n. lifted (sys_recvfrom sys fd n),
      sys_sendmsg = \<lambda>fd a iov. lifted (sys_sendmsg sys fd a iov), sys_poll = \<lambda>pfds t. lifted (sys_poll sys pfds t),
      sys_clock = lifted (sys_clock sys)\<rparr>"

lemma lifted_history: "lifted f s = (x, s') \<Longrightarrow> snd s' = snd s"
  by (auto simp: lifted_def split: prod.splits)

lemma close_history: "FDWrapper_close (traced sys) w s = (r, w', s') \<Longrightarrow> snd s' = snd s"
  by (auto simp: FDWrapper_close_def traced_def Let_def split: prod.splits sum.splits dest: lifted_history)

lemma shutdown_history: "Socket_shutdown (traced sys) how w s = (r, w', s') \<Longrightarrow> snd s' = snd s"
  by (auto simp: Socket_shutdown_def traced_def Let_def split: prod.splits sum.splits if_splits dest: lifted_history)

lemma read_history:
  assumes "FileDescriptor_read (traced sys) limit w s = (Inr d, w', s')"
  shows "snd s' = (snd s)\<lparr>hi_read := (hi_read (snd s))(fd_fd w := hi_read (snd s) (fd_fd w) @ d)\<rparr>"
proof -
  let ?n = "min BUFFER_SIZE limit"
  obtain ret errno data k1 where c: "sys_read sys (fd_fd w) ?n (fst s) = ((ret, errno, data), k1)"
    by (metis prod_cases4 prod.collapse)
  let ?str = "take (unat ?n) (data @ replicate (unat ?n) 0)"
  have "\<not> to_int ret > int (unat ?n) \<and> d = str_resize (nat (to_int ret)) ?str \<and>
      snd s' = (snd s)\<lparr>hi_read := (hi_read (snd s))(fd_fd w := hi_read (snd s) (fd_fd w) @ take (nat (to_int ret)) ?str)\<rparr>"
    using assms by (auto simp: FileDescriptor_read_def traced_def traced_read_def c Let_def SystemCall_def split: sum.splits if_splits)
  moreover have "length ?str = unat ?n" by simp
  ultimately have "d = take (nat (to_int ret)) ?str"
    by (metis diff_is_0_eq' append_Nil2 replicate_0 str_resize_def nat_le_iff not_less)
  with \<open>_ \<and> _ \<and> _\<close> show ?thesis by simp
qed

lemma unat_word_of_int_range:
  assumes "- (2 ^ 31) \<le> t \<and> t < 2 ^ 31"
  shows "if t < 0 then 2 ^ 63 \<le> unat (word_of_int t :: 64 word) else unat (word_of_int t :: 64 word) = nat t"
proof (cases "t < 0")
  case True
  then have "t mod 2 ^ 64 = t + 2 ^ 64" using assms mod_pos_pos_trivial [of "t + 2 ^ 64" "2 ^ 64"] by auto
  then have "uint (word_of_int t :: 64 word) = t + 2 ^ 64" by (simp add: uint_word_of_int)
  then show ?thesis using True assms by (simp add: unat_eq_nat_uint nat_le_iff le_nat_iff)
next
  case False
  then have "t mod 2 ^ 64 = t" using assms by (intro mod_pos_pos_trivial) auto
  then show ?thesis using False by (simp add: unat_eq_nat_uint uint_word_of_int)
qed

lemma write_history:
  assumes "FileDescriptor_write (traced sys) [d] False w s = (Inr c, w', s')" and "length d < 2 ^ 63"
  shows "snd s' = (snd s)\<lparr>hi_written := (hi_written (snd s))(fd_fd w := hi_written (snd s) (fd_fd w) @ take (unat c) d)\<rparr>"
proof -
  obtain ret errno k1 where c: "sys_writev sys (fd_fd w) (as_iovecs [d]) (fst s) = ((ret, errno), k1)" by (metis surj_pair)
  let ?h = "(snd s)\<lparr>hi_written := (hi_written (snd s))(fd_fd w := hi_written (snd s) (fd_fd w) @ take (nat (to_int ret)) d)\<rparr>"
  have t: "sys_writev (traced sys) (fd_fd w) (as_iovecs [d]) s = ((ret, errno), k1, ?h)"
    by (simp add: traced_def traced_writev_def c)
  have "s' = (k1, ?h) \<and> c = word_of_int (to_int ret) \<and> to_int ret \<le> sint (str_size d) \<and> unat (word_of_int (to_int ret) :: size_t) \<le> length d"
    using assms(1) remove_one_view [of d "word_of_int (to_int ret)"] assms(2)
    by (auto simp: write_one_view [OF t] SystemCall_def Let_def simp del: BufferViewList_remove_prefix.simps split: if_splits sum.splits)
  moreover from this have "unat c = nat (to_int ret)"
    using assms(2) unat_word_of_int_range [of "to_int ret"] to_int_range [of ret] by (cases "to_int ret < 0") auto
  ultimately show ?thesis by simp
qed

text \<open>One call of \<open>writev\<close> in the loop: a prefix of the data goes out.\<close>

lemma writev_once:
  assumes sys: "writev_appends sys sent" and vs: "views_ok vs"
    and call: "sys_writev sys fd (as_iovecs vs) k = ((ret, errno), k')"
  obtains (fails) "errno \<noteq> 0" "SystemCall ''writev'' ret errno 0 = Inl (Unix_error ''writev'' errno)" "sent k' = sent k"
  | (writes) n vs' where "SystemCall ''writev'' ret errno 0 = Inr (int n)" "n \<le> length (concat vs)"
      "BufferViewList_remove_prefix (word_of_int (int n)) vs = Inr vs'" "concat vs' = drop n (concat vs)" "views_ok vs'"
      "unat (word_of_int (int n) :: size_t) = n" "sent k' = (sent k)(fd := sent k fd @ take n (concat vs))"
proof -
  have "(ret = -1 \<and> errno \<noteq> 0 \<and> sent k' = sent k) \<or>
      (0 \<le> ret \<and> ret \<le> 0x7ffff000 \<and> nat ret \<le> length (concat vs) \<and>
        sent k' = (sent k)(fd := sent k fd @ take (nat ret) (concat vs)))"
    using sys call unfolding writev_appends_def by (metis concat_fst_iovecs)
  then show thesis
  proof (elim disjE conjE)
    assume "ret = -1" "errno \<noteq> 0" "sent k' = sent k"
    then show thesis by (intro fails) (simp_all add: SystemCall_def to_int_small)
  next
    assume r: "0 \<le> ret" "ret \<le> 0x7ffff000" "nat ret \<le> length (concat vs)"
      "sent k' = (sent k)(fd := sent k fd @ take (nat ret) (concat vs))"
    have u: "unat (word_of_int (int (nat ret)) :: size_t) = nat ret"
      using r(2) by (intro unat_word_of_int_64) simp
    have ok: "\<forall>v\<in>set vs. length v < 2 ^ 64"
      using vs views_bound by (fastforce simp: views_ok_def)
    have l: "unat (word_of_int (int (nat ret)) :: size_t) \<le> length (concat vs)" unfolding u by (rule r(3))
    obtain vs' where v: "BufferViewList_remove_prefix (word_of_int (int (nat ret))) vs = Inr vs'"
      "concat vs' = drop (nat ret) (concat vs)"
      using view_list.remove_law [OF ok l] unfolding u by blast
    show thesis
    proof (rule writes [OF _ r(3) v _ u r(4)])
      show "SystemCall ''writev'' ret errno 0 = Inr (int (nat ret))" using r(1,2) by (simp add: SystemCall_def to_int_small)
      show "views_ok vs'" using vs v(2) by (simp add: views_ok_def)
    qed
  qed
qed

text \<open>
  The result of the loop on \<open>data\<close> when \<open>written\<close> bytes have been counted before: \<open>n\<close> bytes of it
  went out.
\<close>

definition wrote_n ::
  "('k \<Rightarrow> int \<Rightarrow> bytes) \<Rightarrow> bytes \<Rightarrow> bool \<Rightarrow> nat \<Rightarrow> FDWrapper \<Rightarrow> 'k \<Rightarrow> size_t res \<times> FDWrapper \<times> 'k \<Rightarrow> nat \<Rightarrow> bool" where
  "wrote_n sent data write_all written w k res n \<longleftrightarrow>
     n \<le> length data \<and> sent (snd (snd res)) = (sent k)(fd_fd w := sent k (fd_fd w) @ take n data) \<and>
     (case fst res of
        Inl e \<Rightarrow> e = Runtime_error ''write returned 0 given non-empty input buffer'' \<or> (\<exists>errno. e = Unix_error ''writev'' errno)
      | Inr r \<Rightarrow> unat r = written + n \<and> (write_all \<longrightarrow> n = length data))"

definition write_counted :: "bool \<Rightarrow> FDWrapper \<Rightarrow> size_t res \<times> FDWrapper \<times> 'k \<Rightarrow> bool" where
  "write_counted write_all w res \<longleftrightarrow>
     (\<exists>c. fst (snd res) = w\<lparr>fd_write_count := c\<rparr> \<and> (\<not> write_all \<and> \<not> isl (fst res) \<longrightarrow> c = fd_write_count w + 1))"

definition wrote ::
  "('k \<Rightarrow> int \<Rightarrow> bytes) \<Rightarrow> bytes \<Rightarrow> bool \<Rightarrow> nat \<Rightarrow> FDWrapper \<Rightarrow> 'k \<Rightarrow> size_t res \<times> FDWrapper \<times> 'k \<Rightarrow> bool" where
  "wrote sent data write_all written w k res \<longleftrightarrow>
     (\<exists>n. wrote_n sent data write_all written w k res n) \<and> write_counted write_all w res"

lemma wrote_n_more:
  assumes "wrote_n sent (drop n data) True (written + n) (register_write w) k1 res m"
    and "sent k1 = (sent k)(fd_fd w := sent k (fd_fd w) @ take n data)" and "n \<le> length data"
  shows "wrote_n sent data True written w k res (n + m)"
proof -
  have "sent (snd (snd res)) = (sent k1)(fd_fd w := sent k1 (fd_fd w) @ take m (drop n data))"
    using assms(1) by (simp add: wrote_n_def register_write_def)
  then have "sent (snd (snd res)) = (sent k)(fd_fd w := sent k (fd_fd w) @ take (n + m) data)"
    unfolding assms(2) by (simp add: take_add)
  then show ?thesis using assms(1,3) by (cases "fst res") (auto simp: wrote_n_def)
qed

lemma wrote_more:
  assumes "wrote sent (drop n data) True (written + n) (register_write w) k1 res"
    and "sent k1 = (sent k)(fd_fd w := sent k (fd_fd w) @ take n data)" and "n \<le> length data"
  shows "wrote sent data True written w k res"
proof -
  obtain m where "wrote_n sent (drop n data) True (written + n) (register_write w) k1 res m"
    using assms(1) by (auto simp: wrote_def)
  from wrote_n_more [OF this assms(2,3)] show ?thesis
    using assms(1) by (auto simp: wrote_def write_counted_def register_write_def)
qed

lemma write_loop_appends:
  assumes "writev_appends sys sent" and "views_ok buffer" and "unat written + length (concat buffer) < 2 ^ 64"
  shows "wrote sent (concat buffer) write_all (unat written) w k (write_loop_fd sys write_all buffer written w k)"
  using assms
proof (induction sys write_all buffer written w k rule: write_loop_fd.induct)
  case (1 sys write_all buffer written w k)
  obtain ret errno k1 where call: "sys_writev sys (fd_fd w) (as_iovecs buffer) k = ((ret, errno), k1)"
    by (metis surj_pair)
  show ?case
  proof (cases rule: writev_once [OF "1.prems"(1,2) call])
    case 1
    then show ?thesis by (auto simp: write_loop_fd.simps [of sys write_all buffer] call wrote_def wrote_n_def write_counted_def intro!: exI [of _ "0 :: nat"] exI [of _ "fd_write_count w"])
  next
    case (2 n vs')
    have sizes: "BufferViewList_size buffer = 0 \<longleftrightarrow> concat buffer = []" "BufferViewList_size vs' = 0 \<longleftrightarrow> concat vs' = []"
      using unat_views_size [OF "1.prems"(2)] unat_views_size [OF 2(5)] by (auto simp: unat_eq_0 [symmetric] simp del: unat_eq_0)
    have sum: "unat (written + word_of_int (int n)) = unat written + n"
      using 2(2,6) "1.prems"(3) by (subst unat_add_small) simp_all
    show ?thesis
    proof (cases "n = 0 \<and> BufferViewList_size buffer \<noteq> 0")
      case True
      then show ?thesis using 2
        by (auto simp: write_loop_fd.simps [of sys write_all buffer] call wrote_def wrote_n_def write_counted_def intro!: exI [of _ "0 :: nat"] exI [of _ "fd_write_count w"])
    next
      case False
      let ?w = "register_write w" and ?r = "written + word_of_int (int n)"
      have step: "write_loop_fd sys write_all buffer written w k =
          (if write_all \<and> BufferViewList_size vs' \<noteq> 0 then write_loop_fd sys write_all vs' ?r ?w k1 else (Inr ?r, ?w, k1))"
        using False 2(1,2,3) sint_views_size [OF "1.prems"(2)] by (subst write_loop_fd.simps) (auto simp: call)
      show ?thesis
      proof (cases "write_all \<and> BufferViewList_size vs' \<noteq> 0")
        case True
        have "unat ?r + length (concat vs') < 2 ^ 64" using sum 2(2,4) "1.prems"(3) by simp
        moreover have "\<not> sint (BufferViewList_size buffer) < int n" using 2(2) sint_views_size [OF "1.prems"(2)] by simp
        ultimately have "wrote sent (concat vs') write_all (unat ?r) ?w k1 (write_loop_fd sys write_all vs' ?r ?w k1)"
          using False by (intro "1.IH" [OF refl refl call [symmetric] refl 2(1) _ _ 2(3) True "1.prems"(1) 2(5)]) simp_all
        then show ?thesis unfolding step 2(4) sum using True wrote_more [OF _ 2(7,2), of "unat written"] by simp
      next
        case False
        then show ?thesis unfolding step using 2(2,4,7) sizes sum
          by (auto simp: wrote_def wrote_n_def write_counted_def register_write_def intro!: exI [of _ n])
      qed
    qed
  qed
qed

text \<open>
  C35: \<open>FileDescriptor::write\<close> ends for every kernel, and for a kernel whose \<open>writev\<close> accepts any
  prefix of what it is given the bytes of the buffer reach the descriptor once and in order:
  when it returns, the count it returns is the number of bytes that went out, all of them if
  \<open>write_all\<close> is set; when it throws, a prefix went out, and \<open>writev\<close> failed or accepted nothing.
  A write that returns is registered in the write count.
\<close>
theorem FileDescriptor_write_spec:
  assumes "writev_appends sys sent" and "length (concat buffer) < 2 ^ 63"
    and "FileDescriptor_write sys buffer write_all w k = (r, w', k')"
  shows "\<exists>n\<le>length (concat buffer).
      sent k' = (sent k)(fd_fd w := sent k (fd_fd w) @ take n (concat buffer)) \<and>
      (case r of
         Inl e \<Rightarrow> e = Runtime_error ''write returned 0 given non-empty input buffer'' \<or> (\<exists>errno. e = Unix_error ''writev'' errno)
       | Inr c \<Rightarrow> unat c = n \<and> (write_all \<longrightarrow> n = length (concat buffer)) \<and>
           (\<not> write_all \<longrightarrow> w' = register_write w))"
proof -
  have "wrote sent (concat buffer) write_all (unat (0 :: size_t)) w k (r, w', k')"
    unfolding assms(3) [symmetric] FileDescriptor_write_def
    by (rule write_loop_appends) (use assms(1,2) in \<open>simp_all add: views_ok_def\<close>)
  then show ?thesis
    by (cases r) (auto simp: wrote_def wrote_n_def write_counted_def register_write_def)
qed

text \<open>A kernel that takes two bytes at a time; its state is what was written to each descriptor.\<close>

definition two_bytes :: "(int \<Rightarrow> bytes) Syscalls" where
  "two_bytes =
     \<lparr>sys_close = \<lambda>fd k. ((0, 0), k), sys_read = \<lambda>fd n k. ((0, 0, []), k),
      sys_writev = \<lambda>fd iov k. let d = take 2 (concat (map fst iov)) in ((int (length d), 0), k(fd := k fd @ d)),
      sys_getfl = \<lambda>fd k. ((0, 0), k), sys_setfl = \<lambda>fd fl k. ((0, 0), k), sys_shutdown = \<lambda>fd how k. ((0, 0), k),
      sys_recvfrom = \<lambda>fd n k. ((0, 0, [], \<lparr>ad_ip = 0, ad_port = 0\<rparr>), k),
      sys_sendmsg = \<lambda>fd a iov k. ((int (length (concat (map fst iov))), 0), k),
      sys_poll = \<lambda>pfds t k. ((0, 0, []), k), sys_clock = \<lambda>k. (0, k)\<rparr>"

lemma two_bytes_appends: "writev_appends two_bytes id"
  by (auto simp: writev_appends_def two_bytes_def Let_def min_def)

theorem FileDescriptor_write_spec_witness:
  "snd (snd (FileDescriptor_write two_bytes [[1, 2, 3], [], [4, 5]] True
      \<lparr>fd_fd = 7, fd_eof = False, fd_closed = False, fd_read_count = 0, fd_write_count = 0\<rparr> (\<lambda>_. []))) 7 = [1, 2, 3, 4, 5] \<and>
   fst (FileDescriptor_write two_bytes [[1, 2, 3], [], [4, 5]] True
      \<lparr>fd_fd = 7, fd_eof = False, fd_closed = False, fd_read_count = 0, fd_write_count = 0\<rparr> (\<lambda>_. [])) = Inr 5"
proof -
  let ?w = "\<lparr>fd_fd = 7, fd_eof = False, fd_closed = False, fd_read_count = 0, fd_write_count = 0\<rparr>"
  let ?b = "[[1, 2, 3], [], [4, 5]] :: bytes list"
  obtain r w' k' where run: "FileDescriptor_write two_bytes ?b True ?w (\<lambda>_. []) = (r, w', k')" by (metis surj_pair)
  have r: "r = Inr 5" using arg_cong [OF run, of fst] unfolding fst_conv by (rule trans [OF sym]) code_simp
  show ?thesis using FileDescriptor_write_spec [OF two_bytes_appends _ run] unfolding run r by (auto simp: fun_upd_def)
qed

end
