(* ===== verification/Event_Loop.thy ===== *)
theory Event_Loop
  imports File_Descriptor "HOL-Library.Sublist"
begin

text \<open>
  \<open>libsponge/util/eventloop.hh\<close> and \<open>.cc\<close>. A rule refers to the descriptor it shares with its
  owner and to the owner's variables through its callbacks, so it is a record of functions on
  the state \<open>'w\<close> of the program around the loop; \<open>ru_fd\<close> reads the shared descriptor in it.
  \<open>poll(2)\<close> is a parameter: it returns its value, the error number and the returned events.
\<close>

section \<open>Model\<close>

datatype Direction = In | Out

datatype Result = Success | Timeout | Exit

record 'w Rule =
  ru_fd :: "'w \<Rightarrow> FDWrapper"
  ru_direction :: Direction
  ru_callback :: "'w \<Rightarrow> unit res \<times> 'w"
  ru_interest :: "'w \<Rightarrow> bool"
  ru_cancel :: "'w \<Rightarrow> unit res \<times> 'w"

type_synonym 'w poll = "(int \<times> u16) list \<Rightarrow> int \<Rightarrow> 'w \<Rightarrow> (int \<times> int \<times> u16 list) \<times> 'w"

definition POLLIN :: u16 where
  "POLLIN = 0x001"

definition POLLOUT :: u16 where
  "POLLOUT = 0x004"

definition POLLERR :: u16 where
  "POLLERR = 0x008"

definition POLLHUP :: u16 where
  "POLLHUP = 0x010"

definition POLLNVAL :: u16 where
  "POLLNVAL = 0x020"

definition EINTR :: int where
  "EINTR = 4"

definition direction_events :: "Direction \<Rightarrow> u16" where
  "direction_events d = (case d of In \<Rightarrow> POLLIN | Out \<Rightarrow> POLLOUT)"

definition service_count :: "'w Rule \<Rightarrow> 'w \<Rightarrow> u32" where
  "service_count r w = (if ru_direction r = In then fd_read_count (ru_fd r w) else fd_write_count (ru_fd r w))"

definition EventLoop_add_rule :: "'w Rule \<Rightarrow> 'w Rule list \<Rightarrow> 'w Rule list" where
  "EventLoop_add_rule r rules = rules @ [r]"

text \<open>
  The first loop of \<open>wait_next_event\<close>: rules whose descriptor is at its end or closed are
  cancelled and erased; for the others it makes an entry of the poll set. The result holds the
  rules that are left, their entries and whether one of them asks for an event. An exception
  leaves the rules as they are.
\<close>

fun setup_pollfds :: "'w Rule list \<Rightarrow> 'w \<Rightarrow> unit res \<times> 'w Rule list \<times> (int \<times> u16) list \<times> bool \<times> 'w" where
  "setup_pollfds [] w = (Inr (), [], [], False, w)"
| "setup_pollfds (r # rs) w =
     (if ru_direction r = In \<and> fd_eof (ru_fd r w) \<or> fd_closed (ru_fd r w)
      then
        (case ru_cancel r w of
           (Inl e, w') \<Rightarrow> (Inl e, r # rs, [], False, w')
         | (Inr _, w') \<Rightarrow> setup_pollfds rs w')
      else
        let interested = ru_interest r w;
            entry = (fd_fd (ru_fd r w), if interested then direction_events (ru_direction r) else 0)
        in (case setup_pollfds rs w of
              (res, rs', pfds, something, w') \<Rightarrow> (res, r # rs', entry # pfds, interested \<or> something, w')))"

definition poll_error :: exn where
  "poll_error = Runtime_error ''EventLoop: error on polled file descriptor''"

definition busy_wait :: exn where
  "busy_wait =
     Runtime_error ''EventLoop: busy wait detected: callback did not read/write fd and is still interested''"

text \<open>The second loop: one rule at a time, with its requested and returned events.\<close>

definition serve_rule :: "u16 \<Rightarrow> u16 \<Rightarrow> 'w Rule \<Rightarrow> 'w \<Rightarrow> unit res \<times> bool \<times> 'w" where
  "serve_rule events revents r w =
     (if revents AND (POLLERR OR POLLNVAL) \<noteq> 0
      then (Inl poll_error, True, w)
      else
        let poll_ready = (revents AND events \<noteq> 0);
            poll_hup = (revents AND POLLHUP \<noteq> 0)
        in if poll_hup \<and> events \<noteq> 0 \<and> \<not> poll_ready
           then (case ru_cancel r w of (Inl e, w') \<Rightarrow> (Inl e, True, w') | (Inr _, w') \<Rightarrow> (Inr (), False, w'))
           else if poll_ready
           then
             let count_before = service_count r w
             in (case ru_callback r w of
                   (Inl e, w') \<Rightarrow> (Inl e, True, w')
                 | (Inr _, w') \<Rightarrow>
                     if count_before = service_count r w' \<and> ru_interest r w'
                     then (Inl busy_wait, True, w')
                     else (Inr (), True, w'))
           else (Inr (), True, w))"

fun poll_results :: "'w Rule list \<Rightarrow> (u16 \<times> u16) list \<Rightarrow> 'w \<Rightarrow> unit res \<times> 'w Rule list \<times> 'w" where
  "poll_results [] pfds w = (Inr (), [], w)"
| "poll_results (r # rs) [] w = (Inl Undefined, r # rs, w)"
| "poll_results (r # rs) (p # pfds) w =
     (case serve_rule (fst p) (snd p) r w of
        (Inl e, keep, w') \<Rightarrow> (Inl e, if keep then r # rs else rs, w')
      | (Inr _, keep, w') \<Rightarrow>
          (case poll_results rs pfds w' of (res, rs', w'') \<Rightarrow> (res, if keep then r # rs' else rs', w'')))"

text \<open>
  \<open>poll\<close> fills in the returned events of an array of fixed length. A failure other than an
  interrupt is caught and ignored, and the results are looked at all the same.
\<close>

definition wait_next_event ::
  "'w poll \<Rightarrow> int \<Rightarrow> 'w Rule list \<Rightarrow> 'w \<Rightarrow> Result res \<times> 'w Rule list \<times> 'w" where
  "wait_next_event poll timeout_ms rules w =
     (case setup_pollfds rules w of
        (Inl e, rules', _, _, w') \<Rightarrow> (Inl e, rules', w')
      | (Inr _, rules', pollfds, something_to_poll, w') \<Rightarrow>
          if \<not> something_to_poll then (Inr Exit, rules', w')
          else
            let ((ret, errno, revents), w'') = poll pollfds timeout_ms w';
                results = take (length pollfds) (revents @ replicate (length pollfds) 0);
                call = SystemCall ''poll'' ret errno 0
            in if call = Inr 0 then (Inr Timeout, rules', w'')
               else if call = Inl (Unix_error ''poll'' EINTR) then (Inr Exit, rules', w'')
               else
                 (case poll_results rules' (zip (map snd pollfds) results) w'' of
                    (Inl e, rules'', w3) \<Rightarrow> (Inl e, rules'', w3)
                  | (Inr _, rules'', w3) \<Rightarrow> (Inr Success, rules'', w3)))"

section \<open>What rules promise the loop\<close>

text \<open>The exceptions that would show a fault of the program.\<close>

definition no_bug :: "exn \<Rightarrow> bool" where
  "no_bug e \<longleftrightarrow> e \<noteq> Undefined \<and> e \<noteq> busy_wait"

lemma fd_throws_no_bug: "fd_throws e \<Longrightarrow> no_bug e"
  by (auto simp: fd_throws_def no_bug_def busy_wait_def)


text \<open>
  An invariant of the program that callbacks, cancellations and \<open>poll\<close> keep, and the exceptions
  that they may throw. Interest is asked for when the poll set is made, and the callback comes
  later, after those of other rules: \<open>armed\<close> is what a rule knows since it was interested, and
  the others must not break it. A callback that returns has used its descriptor or is not
  interested any more.
\<close>

lemma subseq_set: "subseq xs ys \<Longrightarrow> set xs \<subseteq> set ys"
  by (induction rule: list_emb.induct) auto

lemma subseq_distinct: "subseq xs ys \<Longrightarrow> distinct ys \<Longrightarrow> distinct xs"
  by (induction rule: list_emb.induct) (auto dest: subseq_set)

definition valid_indices :: "nat \<Rightarrow> nat list \<Rightarrow> bool" where
  "valid_indices n ns \<longleftrightarrow> distinct ns \<and> set ns \<subseteq> {..<n}"

lemma valid_Cons: "valid_indices k (n # ns) \<longleftrightarrow> n < k \<and> n \<notin> set ns \<and> valid_indices k ns"
  by (auto simp: valid_indices_def)

lemma valid_subseq: "subseq ms ns \<Longrightarrow> valid_indices k ns \<Longrightarrow> valid_indices k ms"
  using subseq_set [of ms ns] subseq_distinct [of ms ns] by (auto simp: valid_indices_def)

lemma valid_all: "valid_indices (length xs) [0..<length xs]" "map ((!) xs) [0..<length xs] = xs"
  by (auto simp: valid_indices_def map_nth)

locale event_rules =
  fixes rules :: "'w Rule list"
    and poll :: "'w poll"
    and inv :: "'w \<Rightarrow> bool"
    and armed :: "nat \<Rightarrow> 'w \<Rightarrow> bool"
    and throws :: "exn \<Rightarrow> bool"
  assumes interest_law: "i < length rules \<Longrightarrow> inv w \<Longrightarrow> ru_interest (rules ! i) w \<Longrightarrow> armed i w"
    and callback_law: "i < length rules \<Longrightarrow> inv w \<Longrightarrow> armed i w \<Longrightarrow> ru_callback (rules ! i) w = (res, w') \<Longrightarrow>
      (case res of Inl e \<Rightarrow> throws e
       | Inr _ \<Rightarrow> inv w' \<and> (\<forall>j. j \<noteq> i \<longrightarrow> armed j w \<longrightarrow> armed j w') \<and>
           (service_count (rules ! i) w' \<noteq> service_count (rules ! i) w \<or> \<not> ru_interest (rules ! i) w'))"
    and cancel_law: "i < length rules \<Longrightarrow> inv w \<Longrightarrow> ru_cancel (rules ! i) w = (res, w') \<Longrightarrow>
      (case res of Inl e \<Rightarrow> throws e | Inr _ \<Rightarrow> inv w' \<and> (\<forall>j. j \<noteq> i \<longrightarrow> armed j w \<longrightarrow> armed j w'))"
    and poll_law: "inv w \<Longrightarrow> poll pfds t w = (x, w') \<Longrightarrow> inv w' \<and> (\<forall>j. armed j w \<longrightarrow> armed j w')"
begin

text \<open>The rules that are left, as indices into the rules that were added.\<close>

abbreviation at :: "nat list \<Rightarrow> 'w Rule list" where
  "at ns \<equiv> map ((!) rules) ns"

definition setup_ok :: "nat list \<Rightarrow> 'w \<Rightarrow> unit res \<Rightarrow> 'w Rule list \<Rightarrow> (int \<times> u16) list \<Rightarrow> 'w \<Rightarrow> bool" where
  "setup_ok ns w res rs pfds w' \<longleftrightarrow>
     (case res of
        Inl e \<Rightarrow> throws e
      | Inr _ \<Rightarrow> inv w' \<and> (\<forall>j. j \<notin> set ns \<longrightarrow> armed j w \<longrightarrow> armed j w') \<and>
          (\<exists>ms. rs = at ms \<and> subseq ms ns \<and> length pfds = length ms \<and>
             (\<forall>i<length ms. snd (pfds ! i) \<noteq> 0 \<longrightarrow> armed (ms ! i) w')))"

lemma setup_keeps:
  assumes "valid_indices (length rules) ns" and "inv w" and "setup_pollfds (at ns) w = (res, rs, pfds, b, w')"
  shows "setup_ok ns w res rs pfds w'"
  using assms
proof (induction ns arbitrary: w res rs pfds b w')
  case (Cons n ns)
  let ?r = "rules ! n"
  have n: "n < length rules" "n \<notin> set ns" "valid_indices (length rules) ns" using Cons.prems(1) by (auto simp: valid_Cons)
  show ?case
  proof (cases "ru_direction ?r = In \<and> fd_eof (ru_fd ?r w) \<or> fd_closed (ru_fd ?r w)")
    case True
    obtain c w1 where c: "ru_cancel ?r w = (c, w1)" by fastforce
    note C = cancel_law [OF n(1) Cons.prems(2) c]
    show ?thesis
    proof (cases c)
      case (Inl e)
      then show ?thesis using C Cons.prems(3) True c by (auto simp: setup_ok_def)
    next
      case (Inr u)
      then have "setup_pollfds (at ns) w1 = (res, rs, pfds, b, w')" using Cons.prems(3) True c by auto
      from Cons.IH [OF n(3) _ this] show ?thesis
        using C Inr by (auto simp: setup_ok_def split: sum.splits)
    qed
  next
    case False
    obtain res1 rs1 pfds1 b1 w1 where s: "setup_pollfds (at ns) w = (res1, rs1, pfds1, b1, w1)" by (metis prod_cases5)
    let ?entry = "(fd_fd (ru_fd ?r w), if ru_interest ?r w then direction_events (ru_direction ?r) else 0)"
    have eqs: "res = res1" "rs = ?r # rs1" "pfds = ?entry # pfds1" "w' = w1"
      using Cons.prems(3) False s by (auto simp: Let_def)
    have I: "setup_ok ns w res1 rs1 pfds1 w1" by (rule Cons.IH [OF n(3) Cons.prems(2) s])
    show ?thesis
    proof (cases res)
      case (Inl e)
      then show ?thesis using I eqs by (simp add: setup_ok_def)
    next
      case (Inr u)
      with I eqs obtain ms where ms: "rs1 = at ms" "subseq ms ns" "length pfds1 = length ms"
        "\<forall>i<length ms. snd (pfds1 ! i) \<noteq> 0 \<longrightarrow> armed (ms ! i) w1" "inv w1" "\<forall>j. j \<notin> set ns \<longrightarrow> armed j w \<longrightarrow> armed j w1"
        by (auto simp: setup_ok_def)
      have "snd ?entry \<noteq> 0 \<longrightarrow> armed n w1" using ms(6) n interest_law [OF n(1) Cons.prems(2)] by auto
      then have "\<forall>i<length (n # ms). snd ((?entry # pfds1) ! i) \<noteq> 0 \<longrightarrow> armed ((n # ms) ! i) w1"
        using ms(4) by (simp add: nth_Cons split: nat.split)
      then show ?thesis using Inr eqs ms by (auto simp: setup_ok_def intro!: exI [of _ "n # ms"])
    qed
  qed
qed (auto simp: setup_ok_def)

lemma serve_keeps:
  assumes "i < length rules" and "inv w" and "ev \<noteq> 0 \<longrightarrow> armed i w" and "serve_rule ev rv (rules ! i) w = (res, keep, w')"
  shows "case res of Inl e \<Rightarrow> throws e \<or> e = poll_error
    | Inr _ \<Rightarrow> inv w' \<and> (\<forall>j. j \<noteq> i \<longrightarrow> armed j w \<longrightarrow> armed j w')"
proof -
  obtain c w1 where c: "ru_cancel (rules ! i) w = (c, w1)" by fastforce
  obtain d w2 where d: "ru_callback (rules ! i) w = (d, w2)" by fastforce
  note C = cancel_law [OF assms(1,2) c] and D = callback_law [OF assms(1,2) _ d]
  show ?thesis
  proof (cases "rv AND ev \<noteq> 0")
    case True
    then have "ev \<noteq> 0" by auto
    with D assms(3) have "case d of Inl e \<Rightarrow> throws e | Inr _ \<Rightarrow> inv w2 \<and> (\<forall>j. j \<noteq> i \<longrightarrow> armed j w \<longrightarrow> armed j w2) \<and>
        (service_count (rules ! i) w2 \<noteq> service_count (rules ! i) w \<or> \<not> ru_interest (rules ! i) w2)" by blast
    then show ?thesis using assms(4) True by (auto simp: serve_rule_def Let_def d split: if_splits sum.splits)
  next
    case False
    then show ?thesis using assms(2,4) C by (auto simp: serve_rule_def Let_def c split: if_splits sum.splits)
  qed
qed

lemma results_keep:
  assumes "valid_indices (length rules) ns" and "inv w" and "length ps = length ns"
    and "\<forall>i<length ns. fst (ps ! i) \<noteq> 0 \<longrightarrow> armed (ns ! i) w" and "poll_results (at ns) ps w = (res, rs, w')"
  shows "case res of Inl e \<Rightarrow> throws e \<or> e = poll_error | Inr _ \<Rightarrow> inv w' \<and> (\<exists>ms. rs = at ms \<and> subseq ms ns)"
  using assms
proof (induction ns arbitrary: w ps res rs w')
  case (Cons n ns)
  obtain p qs where ps: "ps = p # qs" using Cons.prems(3) by (cases ps) auto
  obtain a keep w1 where s: "serve_rule (fst p) (snd p) (rules ! n) w = (a, keep, w1)" by (metis prod_cases3)
  obtain b rs1 w2 where t: "poll_results (at ns) qs w1 = (b, rs1, w2)" by (metis prod_cases3)
  have n: "n < length rules" "n \<notin> set ns" "valid_indices (length rules) ns" using Cons.prems(1) by (auto simp: valid_Cons)
  have armed: "fst p \<noteq> 0 \<longrightarrow> armed n w" "\<forall>i<length ns. fst (qs ! i) \<noteq> 0 \<longrightarrow> armed (ns ! i) w"
    using Cons.prems(4) unfolding ps by (force, metis Suc_mono length_Cons nth_Cons_Suc)
  note S = serve_keeps [OF n(1) Cons.prems(2) armed(1) s]
  show ?case
  proof (cases a)
    case (Inl e)
    then show ?thesis using S Cons.prems(5) ps s by auto
  next
    case (Inr u)
    then have S': "inv w1" "\<And>j. j \<noteq> n \<Longrightarrow> armed j w \<Longrightarrow> armed j w1" using S by auto
    moreover have "\<forall>i<length ns. fst (qs ! i) \<noteq> 0 \<longrightarrow> armed (ns ! i) w1"
      using armed(2) S'(2) n(2) by (metis nth_mem)
    ultimately have T: "case b of Inl e \<Rightarrow> throws e \<or> e = poll_error | Inr _ \<Rightarrow> inv w2 \<and> (\<exists>ms. rs1 = at ms \<and> subseq ms ns)"
      using Cons.prems(3) ps by (intro Cons.IH [OF n(3) _ _ _ t]) auto
    have eqs: "res = b" "rs = (if keep then rules ! n # rs1 else rs1)" "w' = w2"
      using Cons.prems(5) ps s t Inr by (auto split: if_splits)
    show ?thesis
    proof (cases b)
      case (Inl e)
      then show ?thesis using T eqs by simp
    next
      case (Inr v)
      then obtain ms where "rs1 = at ms" "subseq ms ns" "inv w2" using T by auto
      then show ?thesis using Inr eqs
        by (auto intro: exI [of _ "n # ms"] exI [of _ ms])
    qed
  qed
qed auto

text \<open>A turn of the loop keeps the invariant, only ever drops rules, and never reports a busy wait.\<close>

lemma wait_keeps:
  assumes "valid_indices (length rules) ns" and "inv w" and "wait_next_event poll t (at ns) w = (res, rs', w')"
  shows "case res of Inl e \<Rightarrow> throws e \<or> e = poll_error | Inr _ \<Rightarrow> inv w' \<and> (\<exists>ms. rs' = at ms \<and> valid_indices (length rules) ms)"
proof -
  obtain a rs1 pfds b w1 where s: "setup_pollfds (at ns) w = (a, rs1, pfds, b, w1)" by (metis prod_cases5)
  note S = setup_keeps [OF assms(1,2) s]
  obtain ret errno revents w2 where p: "poll pfds t w1 = ((ret, errno, revents), w2)" by (metis prod_cases4 prod.collapse)
  let ?ps = "zip (map snd pfds) (take (length pfds) (revents @ replicate (length pfds) 0))"
  obtain c rs2 w3 where r: "poll_results rs1 ?ps w2 = (c, rs2, w3)" by (metis prod_cases3)
  show ?thesis
  proof (cases a)
    case (Inl e)
    then show ?thesis using S assms(3) by (auto simp: wait_next_event_def s setup_ok_def)
  next
    case (Inr u)
    with S obtain ms where ms: "rs1 = at ms" "subseq ms ns" "length pfds = length ms"
      "\<forall>i<length ms. snd (pfds ! i) \<noteq> 0 \<longrightarrow> armed (ms ! i) w1" "inv w1" by (auto simp: setup_ok_def)
    have w2: "inv w2" "\<And>j. armed j w1 \<Longrightarrow> armed j w2" using poll_law [OF ms(5) p] by auto
    have "\<forall>i<length ms. fst (?ps ! i) \<noteq> 0 \<longrightarrow> armed (ms ! i) w2" using ms(3,4) w2(2) by simp
    from results_keep [OF valid_subseq [OF ms(2) assms(1)] w2(1) _ this r [unfolded ms(1)]] ms(3)
    have R: "case c of Inl e \<Rightarrow> throws e \<or> e = poll_error | Inr _ \<Rightarrow> inv w3 \<and> (\<exists>ks. rs2 = at ks \<and> valid_indices (length rules) ks)"
      using valid_subseq [OF _ valid_subseq [OF ms(2) assms(1)]] by (auto split: sum.splits)
    have step: "wait_next_event poll t (at ns) w =
        (if \<not> b then (Inr Exit, rs1, w1)
         else if SystemCall ''poll'' ret errno 0 = Inr 0 then (Inr Timeout, rs1, w2)
         else if SystemCall ''poll'' ret errno 0 = Inl (Unix_error ''poll'' EINTR) then (Inr Exit, rs1, w2)
         else (map_sum id (\<lambda>_. Success) c, rs2, w3))"
      by (cases c) (simp_all add: wait_next_event_def s Inr p r del: take_append)
    have v: "valid_indices (length rules) ms" by (rule valid_subseq [OF ms(2) assms(1)])
    show ?thesis using assms(3) R w2(1) ms(1,5) v unfolding step
      by (cases c) (auto split: if_splits intro: valid_subseq)
  qed
qed

end

section \<open>Failures of \<open>poll\<close>\<close>

text \<open>
  The comment of \<open>wait_next_event\<close> promises an exception when polling fails. The handler returns
  for an interrupt and drops every other failure: with no events returned, the call reports
  success without having served a rule.
\<close>

lemma poll_results_idle:
  "\<forall>p\<in>set ps. snd p = 0 \<Longrightarrow> length ps = length rs \<Longrightarrow> poll_results rs ps w = (Inr (), rs, w)"
proof (induction rs arbitrary: ps)
  case (Cons r rs)
  then show ?case by (cases ps) (auto simp: serve_rule_def)
qed simp

lemma setup_length: "setup_pollfds rs w = (Inr u, rs', pfds, b, w') \<Longrightarrow> length pfds = length rs'"
  by (induction rs arbitrary: w rs' pfds b) (auto simp: Let_def split: if_splits sum.splits prod.splits)

lemma wait_next_event_poll_failure:
  assumes "setup_pollfds rules w = (Inr u, rules', pfds, True, w1)"
    and "poll pfds t w1 = ((-1, errno, []), w2)" and "errno \<noteq> 0" and "errno \<noteq> EINTR"
  shows "wait_next_event poll t rules w = (Inr Success, rules', w2)"
proof -
  have "SystemCall ''poll'' (-1) errno 0 = Inl (Unix_error ''poll'' errno)"
    using assms(3) by (simp add: SystemCall_def to_int_small)
  moreover have "poll_results rules' (zip (map snd pfds) (replicate (length pfds) 0)) w2 = (Inr (), rules', w2)"
    using setup_length [OF assms(1)] by (intro poll_results_idle) (auto simp: set_zip)
  ultimately show ?thesis using assms by (simp add: wait_next_event_def)
qed

end
