(* ===== verification/Stream_Copy.thy ===== *)
theory Stream_Copy
  imports Event_Loop Byte_Stream
begin

text \<open>
  \<open>apps/bidirectional_stream_copy.cc\<close>: two byte streams between standard input, a socket and
  standard output, moved by four rules of an event loop. The state holds the variables of the
  function, which the rules capture by reference, and the kernel. For every kernel, what has
  been written is a prefix of what has been read, in both directions.
\<close>

section \<open>Model\<close>

record 'k copy_state =
  cp_input :: FDWrapper
  cp_output :: FDWrapper
  cp_socket :: FDWrapper
  cp_outbound :: ByteStream
  cp_inbound :: ByteStream
  cp_outbound_shutdown :: bool
  cp_inbound_shutdown :: bool
  cp_kernel :: 'k

definition max_copy_length :: size_t where
  "max_copy_length = 65536"

definition copy_buffer_size :: size_t where
  "copy_buffer_size = 1048576"

text \<open>The body that rules 1 and 3 share: read what fits into the stream.\<close>

definition read_into ::
  "'k Syscalls \<Rightarrow> FDWrapper \<Rightarrow> ByteStream \<Rightarrow> 'k \<Rightarrow> unit res \<times> FDWrapper \<times> ByteStream \<times> 'k" where
  "read_into sys fd bs k =
     (case FileDescriptor_read sys (ByteStream_remaining_capacity bs) fd k of
        (Inl e, fd', k') \<Rightarrow> (Inl e, fd', bs, k')
      | (Inr s, fd', k') \<Rightarrow>
          let bs' = snd (ByteStream_write s bs)
          in (Inr (), fd', if fd_eof fd' then ByteStream_end_input bs' else bs', k'))"

text \<open>The body that rules 2 and 4 share: write from the stream, and pop what was written.\<close>

definition write_from ::
  "'k Syscalls \<Rightarrow> FDWrapper \<Rightarrow> ByteStream \<Rightarrow> 'k \<Rightarrow> unit res \<times> FDWrapper \<times> ByteStream \<times> 'k" where
  "write_from sys fd bs k =
     (let bytes_to_write = min max_copy_length (ByteStream_buffer_size bs)
      in case FileDescriptor_write sys [ByteStream_peek_output bytes_to_write bs] False fd k of
           (Inl e, fd', k') \<Rightarrow> (Inl e, fd', bs, k')
         | (Inr bytes_written, fd', k') \<Rightarrow>
             (case ByteStream_pop_output bytes_written bs of
                None \<Rightarrow> (Inl Undefined, fd', bs, k')
              | Some bs' \<Rightarrow> (Inr (), fd', bs', k')))"

definition copy_rule1 :: "'k Syscalls \<Rightarrow> 'k copy_state Rule" where
  "copy_rule1 sys =
     \<lparr>ru_fd = cp_input, ru_direction = In,
      ru_callback = (\<lambda>w. case read_into sys (cp_input w) (cp_outbound w) (cp_kernel w) of
         (r, fd, bs, k) \<Rightarrow> (r, w\<lparr>cp_input := fd, cp_outbound := bs, cp_kernel := k\<rparr>)),
      ru_interest = (\<lambda>w. \<not> bs_error (cp_outbound w) \<and> ByteStream_remaining_capacity (cp_outbound w) > 0 \<and>
         \<not> bs_error (cp_inbound w)),
      ru_cancel = (\<lambda>w. (Inr (), w\<lparr>cp_outbound := ByteStream_end_input (cp_outbound w)\<rparr>))\<rparr>"

definition copy_rule2 :: "'k Syscalls \<Rightarrow> 'k copy_state Rule" where
  "copy_rule2 sys =
     \<lparr>ru_fd = cp_socket, ru_direction = Out,
      ru_callback = (\<lambda>w. case write_from sys (cp_socket w) (cp_outbound w) (cp_kernel w) of
         (Inl e, fd, bs, k) \<Rightarrow> (Inl e, w\<lparr>cp_socket := fd, cp_outbound := bs, cp_kernel := k\<rparr>)
       | (Inr _, fd, bs, k) \<Rightarrow>
           if ByteStream_eof bs
           then (case Socket_shutdown sys SHUT_WR fd k of
                   (Inl e, fd', k') \<Rightarrow> (Inl e, w\<lparr>cp_socket := fd', cp_outbound := bs, cp_kernel := k'\<rparr>)
                 | (Inr _, fd', k') \<Rightarrow>
                     (Inr (), w\<lparr>cp_socket := fd', cp_outbound := bs, cp_kernel := k', cp_outbound_shutdown := True\<rparr>))
           else (Inr (), w\<lparr>cp_socket := fd, cp_outbound := bs, cp_kernel := k\<rparr>)),
      ru_interest = (\<lambda>w. \<not> ByteStream_buffer_empty (cp_outbound w) \<or>
         ByteStream_eof (cp_outbound w) \<and> \<not> cp_outbound_shutdown w),
      ru_cancel = (\<lambda>w. (Inr (), w\<lparr>cp_outbound := ByteStream_end_input (cp_outbound w)\<rparr>))\<rparr>"

definition copy_rule3 :: "'k Syscalls \<Rightarrow> 'k copy_state Rule" where
  "copy_rule3 sys =
     \<lparr>ru_fd = cp_socket, ru_direction = In,
      ru_callback = (\<lambda>w. case read_into sys (cp_socket w) (cp_inbound w) (cp_kernel w) of
         (r, fd, bs, k) \<Rightarrow> (r, w\<lparr>cp_socket := fd, cp_inbound := bs, cp_kernel := k\<rparr>)),
      ru_interest = (\<lambda>w. \<not> bs_error (cp_inbound w) \<and> ByteStream_remaining_capacity (cp_inbound w) > 0 \<and>
         \<not> bs_error (cp_outbound w)),
      ru_cancel = (\<lambda>w. (Inr (), w\<lparr>cp_inbound := ByteStream_end_input (cp_inbound w)\<rparr>))\<rparr>"

definition copy_rule4 :: "'k Syscalls \<Rightarrow> 'k copy_state Rule" where
  "copy_rule4 sys =
     \<lparr>ru_fd = cp_output, ru_direction = Out,
      ru_callback = (\<lambda>w. case write_from sys (cp_output w) (cp_inbound w) (cp_kernel w) of
         (Inl e, fd, bs, k) \<Rightarrow> (Inl e, w\<lparr>cp_output := fd, cp_inbound := bs, cp_kernel := k\<rparr>)
       | (Inr _, fd, bs, k) \<Rightarrow>
           if ByteStream_eof bs
           then (case FDWrapper_close sys fd k of
                   (Inl e, fd', k') \<Rightarrow> (Inl e, w\<lparr>cp_output := fd', cp_inbound := bs, cp_kernel := k'\<rparr>)
                 | (Inr _, fd', k') \<Rightarrow>
                     (Inr (), w\<lparr>cp_output := fd', cp_inbound := bs, cp_kernel := k', cp_inbound_shutdown := True\<rparr>))
           else (Inr (), w\<lparr>cp_output := fd, cp_inbound := bs, cp_kernel := k\<rparr>)),
      ru_interest = (\<lambda>w. \<not> ByteStream_buffer_empty (cp_inbound w) \<or>
         ByteStream_eof (cp_inbound w) \<and> \<not> cp_inbound_shutdown w),
      ru_cancel = (\<lambda>w. (Inr (), w\<lparr>cp_inbound := ByteStream_end_input (cp_inbound w)\<rparr>))\<rparr>"

definition copy_rules :: "'k Syscalls \<Rightarrow> 'k copy_state Rule list" where
  "copy_rules sys =
     EventLoop_add_rule (copy_rule4 sys) (EventLoop_add_rule (copy_rule3 sys)
       (EventLoop_add_rule (copy_rule2 sys) (EventLoop_add_rule (copy_rule1 sys) [])))"

definition copy_poll :: "'k Syscalls \<Rightarrow> 'k copy_state poll" where
  "copy_poll sys pfds t w = (case sys_poll sys pfds t (cp_kernel w) of (x, k) \<Rightarrow> (x, w\<lparr>cp_kernel := k\<rparr>))"

text \<open>The variables at their declaration: standard input is descriptor 0, standard output 1.\<close>

definition copy_start :: "FDWrapper \<Rightarrow> 'k \<Rightarrow> 'k copy_state" where
  "copy_start socket k =
     \<lparr>cp_input = projr (FDWrapper_new 0), cp_output = projr (FDWrapper_new 1), cp_socket = socket,
      cp_outbound = ByteStream_new copy_buffer_size, cp_inbound = ByteStream_new copy_buffer_size,
      cp_outbound_shutdown = False, cp_inbound_shutdown = False, cp_kernel = k\<rparr>"

definition copy_set_blocking :: "'k Syscalls \<Rightarrow> 'k copy_state \<Rightarrow> unit res \<times> 'k copy_state" where
  "copy_set_blocking sys w =
     (case FileDescriptor_set_blocking sys False (cp_socket w) (cp_kernel w) of
        (Inl e, k) \<Rightarrow> (Inl e, w\<lparr>cp_kernel := k\<rparr>)
      | (Inr _, k) \<Rightarrow>
          (case FileDescriptor_set_blocking sys False (cp_input w) k of
             (Inl e, k') \<Rightarrow> (Inl e, w\<lparr>cp_kernel := k'\<rparr>)
           | (Inr _, k') \<Rightarrow>
               (case FileDescriptor_set_blocking sys False (cp_output w) k' of
                  (r, k'') \<Rightarrow> (r, w\<lparr>cp_kernel := k''\<rparr>))))"

text \<open>The loop ends when \<open>wait_next_event\<close> returns \<open>Exit\<close>; it may never do so.\<close>

partial_function (option) copy_loop ::
  "'k Syscalls \<Rightarrow> 'k copy_state Rule list \<Rightarrow> 'k copy_state \<Rightarrow> (unit res \<times> 'k copy_state) option" where
  "copy_loop sys rules w =
     (case wait_next_event (copy_poll sys) (-1) rules w of
        (Inl e, rules', w') \<Rightarrow> Some (Inl e, w')
      | (Inr r, rules', w') \<Rightarrow> if r = Exit then Some (Inr (), w') else copy_loop sys rules' w')"

definition bidirectional_stream_copy :: "'k Syscalls \<Rightarrow> FDWrapper \<Rightarrow> 'k \<Rightarrow> (unit res \<times> 'k copy_state) option" where
  "bidirectional_stream_copy sys socket k =
     (case copy_set_blocking sys (copy_start socket k) of
        (Inl e, w) \<Rightarrow> Some (Inl e, w)
      | (Inr _, w) \<Rightarrow> copy_loop sys (copy_rules sys) w)"

section \<open>Bytes are neither lost nor reordered\<close>

text \<open>
  A stream between two descriptors: what was written out and what is buffered is a prefix of
  what was read, all of it until the stream is ended.
\<close>

definition pumped :: "int \<Rightarrow> int \<Rightarrow> ByteStream \<Rightarrow> history \<Rightarrow> bool" where
  "pumped i out bs h \<longleftrightarrow>
     bs_inv bs \<and> prefix (hi_written h out @ bs_contents bs) (hi_read h i) \<and>
     (\<not> bs_input_ended bs \<longrightarrow> hi_written h out @ bs_contents bs = hi_read h i)"

lemma pumpedI: "bs_inv bs \<Longrightarrow> hi_written h out @ bs_contents bs = hi_read h i \<Longrightarrow> pumped i out bs h"
  by (simp add: pumped_def)

lemma bs_end_input [simp]:
  "bs_inv (ByteStream_end_input bs) = bs_inv bs" "bs_contents (ByteStream_end_input bs) = bs_contents bs"
  "bs_input_ended (ByteStream_end_input bs)"
  by (simp_all add: ByteStream_end_input_def bs_inv_def bs_contents_def)

lemma pumped_end: "pumped i out bs h \<Longrightarrow> pumped i out (ByteStream_end_input bs) h"
  by (simp add: pumped_def)

lemma read_into_pumps:
  assumes p: "pumped (fd_fd fd) out bs (snd s)" and r: "read_into (traced sys) fd bs s = (Inr u, fd', bs', s')"
  shows "pumped (fd_fd fd) out bs' (snd s') \<and> fd_fd fd' = fd_fd fd \<and> fd_read_count fd' = fd_read_count fd + 1 \<and>
    (\<exists>d. snd s' = (snd s)\<lparr>hi_read := (hi_read (snd s))(fd_fd fd := hi_read (snd s) (fd_fd fd) @ d)\<rparr>)"
proof -
  have inv: "bs_inv bs" using p by (simp add: pumped_def)
  obtain d where d: "FileDescriptor_read (traced sys) (ByteStream_remaining_capacity bs) fd s = (Inr d, fd', s')"
    "bs' = (if fd_eof fd' then ByteStream_end_input (snd (ByteStream_write d bs)) else snd (ByteStream_write d bs))"
    using r by (auto simp: read_into_def Let_def split: prod.splits sum.splits)
  note h = read_history [OF d(1)] and f = read_result [OF d(1)]
  have room: "length d \<le> bs_room bs" using f unat_remaining_capacity [OF inv] by simp
  then have len: "length d < 2 ^ 64" using unat_lt_64 [of "ByteStream_remaining_capacity bs"] f by simp
  obtain n bs1 where w: "ByteStream_write d bs = (n, bs1)" by fastforce
  note W = write_spec [OF inv len w]
  have "pumped (fd_fd fd) out bs1 (snd s')"
  proof (cases "bs_input_ended bs")
    case True
    then have "bs_contents bs1 = bs_contents bs" using W(1,3) by (simp add: accepted_def)
    then show ?thesis using p W(2,7) True h by (auto simp: pumped_def)
  next
    case False
    then have "bs_contents bs1 = bs_contents bs @ d" using W(1,3) room by (simp add: accepted_def)
    moreover have "hi_written (snd s) out @ bs_contents bs @ d = hi_read (snd s) (fd_fd fd) @ d"
      using p False unfolding pumped_def by (metis append_assoc)
    ultimately show ?thesis using W(2) h by (intro pumpedI) simp_all
  qed
  then have "pumped (fd_fd fd) out bs' (snd s')" using d(2) w by (simp add: pumped_end)
  then show ?thesis using f h by blast
qed

lemma write_from_pumps:
  assumes p: "pumped i (fd_fd fd) bs (snd s)" and r: "write_from (traced sys) fd bs s = (res, fd', bs', s')"
  shows "case res of Inl e \<Rightarrow> fd_throws e | Inr _ \<Rightarrow>
    pumped i (fd_fd fd) bs' (snd s') \<and> fd' = register_write fd \<and>
    (\<exists>d. snd s' = (snd s)\<lparr>hi_written := (hi_written (snd s))(fd_fd fd := hi_written (snd s) (fd_fd fd) @ d)\<rparr>)"
proof -
  have inv: "bs_inv bs" using p by (simp add: pumped_def)
  let ?n = "min max_copy_length (ByteStream_buffer_size bs)"
  let ?d = "ByteStream_peek_output ?n bs"
  have peek: "?d = take (unat ?n) (bs_contents bs)" by (rule peek_spec [OF inv])
  have len: "length ?d < 2 ^ 63" using bs_inv_length [OF inv] bs_invD [OF inv] unfolding peek by simp
  obtain q fd1 s1 where w: "FileDescriptor_write (traced sys) [?d] False fd s = (q, fd1, s1)" by (metis prod_cases3)
  have W: "case q of Inl e \<Rightarrow> fd_throws e | Inr c \<Rightarrow> fd1 = register_write fd \<and> unat c \<le> length ?d"
    using len by (intro write_once [OF w]) simp
  show ?thesis
  proof (cases q)
    case (Inl e)
    then show ?thesis using r W w by (auto simp: write_from_def Let_def)
  next
    case (Inr c)
    obtain bs1 where b: "ByteStream_pop_output c bs = Some bs1" "bs_inv bs1" "bs_contents bs1 = drop (unat c) (bs_contents bs)"
      "bs_input_ended bs1 = bs_input_ended bs" by (rule pop_spec [OF inv])
    have "take (unat c) ?d @ bs_contents bs1 = bs_contents bs"
      using W Inr b(3) by (simp add: peek min_absorb1)
    moreover note h = write_history [OF w [unfolded Inr] len]
    ultimately have "pumped i (fd_fd fd) bs1 (snd s1)"
      using p b(2,4) by (simp add: pumped_def)
    then show ?thesis using r w W h b(1) Inr by (auto simp: write_from_def Let_def)
  qed
qed

definition copy_inv :: "int \<Rightarrow> ('k \<times> history) copy_state \<Rightarrow> bool" where
  "copy_inv n w \<longleftrightarrow>
     n \<noteq> 0 \<and> n \<noteq> 1 \<and> fd_fd (cp_input w) = 0 \<and> fd_fd (cp_output w) = 1 \<and> fd_fd (cp_socket w) = n \<and>
     pumped 0 n (cp_outbound w) (snd (cp_kernel w)) \<and> pumped n 1 (cp_inbound w) (snd (cp_kernel w))"

text \<open>What happens on one pair of descriptors does not concern the stream between others.\<close>

lemma pumped_other:
  "i \<noteq> j \<Longrightarrow> pumped i out bs (h\<lparr>hi_read := (hi_read h)(j := d)\<rparr>) = pumped i out bs h"
  "out \<noteq> j \<Longrightarrow> pumped i out bs (h\<lparr>hi_written := (hi_written h)(j := d)\<rparr>) = pumped i out bs h"
  by (simp_all add: pumped_def)

lemma count_changes: "(c :: u32) + 1 \<noteq> c" "(c :: u32) + 2 \<noteq> c"
  by simp_all

lemma copy_rule1_law:
  assumes "copy_inv n w" and "ru_callback (copy_rule1 (traced sys)) w = (res, w')"
  shows "case res of Inl e \<Rightarrow> no_bug e | Inr _ \<Rightarrow> copy_inv n w' \<and>
    service_count (copy_rule1 (traced sys)) w' \<noteq> service_count (copy_rule1 (traced sys)) w"
proof -
  obtain fd bs s where r: "read_into (traced sys) (cp_input w) (cp_outbound w) (cp_kernel w) = (res, fd, bs, s)"
    "w' = w\<lparr>cp_input := fd, cp_outbound := bs, cp_kernel := s\<rparr>"
    using assms(2) by (auto simp: copy_rule1_def split: prod.splits)
  show ?thesis
  proof (cases res)
    case (Inl e)
    then have "fd_throws e" using r(1) by (auto simp: read_into_def Let_def split: prod.splits sum.splits dest: read_throws)
    then show ?thesis using Inl by (simp add: fd_throws_no_bug)
  next
    case (Inr u)
    have "pumped (fd_fd (cp_input w)) n (cp_outbound w) (snd (cp_kernel w))" using assms(1) by (simp add: copy_inv_def)
    from read_into_pumps [OF this r(1) [unfolded Inr]] show ?thesis
      using assms(1) r(2) Inr by (auto simp: copy_inv_def copy_rule1_def service_count_def pumped_other)
  qed
qed

lemma copy_rule3_law:
  assumes "copy_inv n w" and "ru_callback (copy_rule3 (traced sys)) w = (res, w')"
  shows "case res of Inl e \<Rightarrow> no_bug e | Inr _ \<Rightarrow> copy_inv n w' \<and>
    service_count (copy_rule3 (traced sys)) w' \<noteq> service_count (copy_rule3 (traced sys)) w"
proof -
  obtain fd bs s where r: "read_into (traced sys) (cp_socket w) (cp_inbound w) (cp_kernel w) = (res, fd, bs, s)"
    "w' = w\<lparr>cp_socket := fd, cp_inbound := bs, cp_kernel := s\<rparr>"
    using assms(2) by (auto simp: copy_rule3_def split: prod.splits)
  show ?thesis
  proof (cases res)
    case (Inl e)
    then have "fd_throws e" using r(1) by (auto simp: read_into_def Let_def split: prod.splits sum.splits dest: read_throws)
    then show ?thesis using Inl by (simp add: fd_throws_no_bug)
  next
    case (Inr u)
    have "pumped (fd_fd (cp_socket w)) 1 (cp_inbound w) (snd (cp_kernel w))" using assms(1) by (simp add: copy_inv_def)
    from read_into_pumps [OF this r(1) [unfolded Inr]] show ?thesis
      using assms(1) r(2) Inr by (auto simp: copy_inv_def copy_rule3_def service_count_def pumped_other)
  qed
qed

lemma copy_rule2_law:
  assumes "copy_inv n w" and "ru_callback (copy_rule2 (traced sys)) w = (res, w')"
  shows "case res of Inl e \<Rightarrow> no_bug e | Inr _ \<Rightarrow> copy_inv n w' \<and>
    service_count (copy_rule2 (traced sys)) w' \<noteq> service_count (copy_rule2 (traced sys)) w"
proof -
  obtain q fd bs s where r: "write_from (traced sys) (cp_socket w) (cp_outbound w) (cp_kernel w) = (q, fd, bs, s)"
    by (metis prod_cases4)
  have "pumped 0 (fd_fd (cp_socket w)) (cp_outbound w) (snd (cp_kernel w))" using assms(1) by (simp add: copy_inv_def)
  note W = write_from_pumps [OF this r]
  obtain p fd' s' where c: "Socket_shutdown (traced sys) SHUT_WR fd s = (p, fd', s')" by (metis prod_cases3)
  show ?thesis
  proof (cases q)
    case (Inl e)
    then show ?thesis using assms(2) W r by (auto simp: copy_rule2_def fd_throws_no_bug)
  next
    case (Inr u)
    show ?thesis
    proof (cases "ByteStream_eof bs")
      case False
      then show ?thesis using assms W r Inr
        by (auto simp: copy_rule2_def copy_inv_def service_count_def register_write_def pumped_other)
    next
      case True
      then show ?thesis using assms W r Inr c shutdown_history [OF c]
        by (cases p) (auto simp: copy_rule2_def copy_inv_def service_count_def register_write_def pumped_other
            fd_throws_no_bug shutdown_throws dest!: shutdown_wr_result)
    qed
  qed
qed

lemma copy_rule4_law:
  assumes "copy_inv n w" and "ru_callback (copy_rule4 (traced sys)) w = (res, w')"
  shows "case res of Inl e \<Rightarrow> no_bug e | Inr _ \<Rightarrow> copy_inv n w' \<and>
    service_count (copy_rule4 (traced sys)) w' \<noteq> service_count (copy_rule4 (traced sys)) w"
proof -
  obtain q fd bs s where r: "write_from (traced sys) (cp_output w) (cp_inbound w) (cp_kernel w) = (q, fd, bs, s)"
    by (metis prod_cases4)
  have "pumped n (fd_fd (cp_output w)) (cp_inbound w) (snd (cp_kernel w))" using assms(1) by (simp add: copy_inv_def)
  note W = write_from_pumps [OF this r]
  obtain p fd' s' where c: "FDWrapper_close (traced sys) fd s = (p, fd', s')" by (metis prod_cases3)
  show ?thesis
  proof (cases q)
    case (Inl e)
    then show ?thesis using assms(2) W r by (auto simp: copy_rule4_def fd_throws_no_bug)
  next
    case (Inr u)
    show ?thesis
    proof (cases "ByteStream_eof bs")
      case False
      then show ?thesis using assms W r Inr
        by (auto simp: copy_rule4_def copy_inv_def service_count_def register_write_def pumped_other)
    next
      case True
      then show ?thesis using assms W r Inr c close_history [OF c]
        by (cases p) (auto simp: copy_rule4_def copy_inv_def service_count_def register_write_def pumped_other
            fd_throws_no_bug close_throws dest!: close_result)
    qed
  qed
qed

lemma copy_cancel_law:
  assumes "r \<in> set (copy_rules (traced sys))" and "copy_inv n w" and "ru_cancel r w = (res, w')"
  shows "case res of Inl e \<Rightarrow> no_bug e | Inr _ \<Rightarrow> copy_inv n w'"
  using assms
  by (auto simp: copy_rules_def EventLoop_add_rule_def copy_rule1_def copy_rule2_def copy_rule3_def copy_rule4_def
      copy_inv_def pumped_end)

interpretation copy: event_rules "copy_rules (traced (sys :: 'k Syscalls))" "copy_poll (traced sys)" "copy_inv n" "\<lambda>_ _. True" no_bug
proof
  fix i and w w' :: "('k \<times> history) copy_state" and res
  assume i: "i < length (copy_rules (traced sys))" and w: "copy_inv n w"
  let ?r = "copy_rules (traced sys) ! i"
  show "case res of Inl e \<Rightarrow> no_bug e
      | Inr _ \<Rightarrow> copy_inv n w' \<and> (\<forall>j. j \<noteq> i \<longrightarrow> True \<longrightarrow> True) \<and> (service_count ?r w' \<noteq> service_count ?r w \<or> \<not> ru_interest ?r w')"
    if "ru_callback ?r w = (res, w')"
  proof -
    from i have "?r \<in> {copy_rule1 (traced sys), copy_rule2 (traced sys), copy_rule3 (traced sys), copy_rule4 (traced sys)}"
      using nth_mem [OF i] by (auto simp: copy_rules_def EventLoop_add_rule_def)
    then consider "?r = copy_rule1 (traced sys)" | "?r = copy_rule2 (traced sys)" | "?r = copy_rule3 (traced sys)"
      | "?r = copy_rule4 (traced sys)" by blast
    then show ?thesis
      by cases (use that copy_rule1_law [OF w] copy_rule2_law [OF w] copy_rule3_law [OF w] copy_rule4_law [OF w]
        in \<open>fastforce split: sum.splits\<close>)+
  qed
  show "case res of Inl e \<Rightarrow> no_bug e | Inr _ \<Rightarrow> copy_inv n w' \<and> (\<forall>j. j \<noteq> i \<longrightarrow> True \<longrightarrow> True)" if "ru_cancel ?r w = (res, w')"
    using copy_cancel_law [OF nth_mem [OF i] w that] by (simp split: sum.splits)
next
  show "copy_inv n w' \<and> (\<forall>j. True \<longrightarrow> True)" if "copy_inv n w" "copy_poll (traced sys) pfds t w = (x, w')" for w pfds t x w'
    using that by (auto simp: copy_poll_def copy_inv_def traced_def split: prod.splits dest!: lifted_history)
qed simp

section \<open>Runs of the copy\<close>

definition no_history :: history where
  "no_history = \<lparr>hi_read = \<lambda>_. [], hi_written = \<lambda>_. []\<rparr>"

definition copy_init :: "'k Syscalls \<Rightarrow> FDWrapper \<Rightarrow> ('k \<times> history) copy_state Rule list \<times> ('k \<times> history) copy_state \<Rightarrow> bool" where
  "copy_init sys socket st \<longleftrightarrow>
     fd_fd socket \<noteq> 0 \<and> fd_fd socket \<noteq> 1 \<and> fst st = copy_rules (traced sys) \<and>
     (\<exists>k. copy_set_blocking (traced sys) (copy_start socket (k, no_history)) = (Inr (), snd st))"

inductive copy_step ::
  "'k Syscalls \<Rightarrow> 'k copy_state Rule list \<times> 'k copy_state \<Rightarrow> 'k copy_state Rule list \<times> 'k copy_state \<Rightarrow> bool"
  for sys :: "'k Syscalls" where
  "wait_next_event (copy_poll sys) (-1) rules w = (Inr r, rules', w') \<Longrightarrow> r \<noteq> Exit \<Longrightarrow>
     copy_step sys (rules, w) (rules', w')"

inductive_cases copy_stepE: "copy_step sys st st'"

lemma blocking_history:
  "FileDescriptor_set_blocking (traced sys) b fd s = (r, s') \<Longrightarrow> snd s' = snd s"
  by (auto simp: FileDescriptor_set_blocking_def traced_def Let_def split: prod.splits sum.splits dest!: lifted_history)

lemma set_blocking_history:
  assumes "copy_set_blocking (traced sys) w = (r, w')"
  shows "\<exists>k. w' = w\<lparr>cp_kernel := k\<rparr> \<and> snd k = snd (cp_kernel w)"
  using assms
  by (auto simp: copy_set_blocking_def split: prod.splits sum.splits dest!: blocking_history)

lemma copy_start_inv:
  assumes "fd_fd socket \<noteq> 0" and "fd_fd socket \<noteq> 1"
  shows "copy_inv (fd_fd socket) (copy_start socket (k, no_history))"
  using assms
  by (simp add: copy_inv_def copy_start_def FDWrapper_new_def pumped_def bs_inv_new no_history_def copy_buffer_size_def)

definition copy_ok :: "'k Syscalls \<Rightarrow> int \<Rightarrow> ('k \<times> history) copy_state Rule list \<times> ('k \<times> history) copy_state \<Rightarrow> bool" where
  "copy_ok sys n st \<longleftrightarrow>
     (\<exists>ns. fst st = map ((!) (copy_rules (traced sys))) ns \<and> valid_indices 4 ns) \<and> copy_inv n (snd st)"

lemma length_copy_rules [simp]: "length (copy_rules sys) = 4"
  by (simp add: copy_rules_def EventLoop_add_rule_def)


interpretation cp: invariant_system "copy_init sys socket" "copy_step (traced sys)" "copy_ok sys (fd_fd socket)"
proof
  show "copy_ok sys (fd_fd socket) st" if init: "copy_init sys socket st" for st
  proof -
    obtain k where k: "copy_set_blocking (traced sys) (copy_start socket (k, no_history)) = (Inr (), snd st)"
      using init by (auto simp: copy_init_def)
    have "copy_inv (fd_fd socket) (copy_start socket (k, no_history))"
      using init by (intro copy_start_inv) (auto simp: copy_init_def)
    moreover have "\<exists>ns. fst st = map ((!) (copy_rules (traced sys))) ns \<and> valid_indices 4 ns"
      using init valid_all [of "copy_rules (traced sys)"] by (intro exI [of _ "[0..<4]"]) (auto simp: copy_init_def)
    ultimately show ?thesis using set_blocking_history [OF k] by (auto simp: copy_ok_def copy_inv_def)
  qed
  show "copy_ok sys (fd_fd socket) st'" if ok: "copy_ok sys (fd_fd socket) st" and step: "copy_step (traced sys) st st'" for st st'
    using step
  proof cases
    case (1 rules w r rules' w')
    obtain ns where ns: "rules = map ((!) (copy_rules (traced sys))) ns" "valid_indices 4 ns" "copy_inv (fd_fd socket) w"
      using ok 1 by (auto simp: copy_ok_def)
    from copy.wait_keeps [unfolded length_copy_rules, OF ns(2,3) 1(3) [unfolded ns(1)]] show ?thesis
      using 1 by (auto simp: copy_ok_def)
  qed
qed

text \<open>When both directions are done, the next call of \<open>wait_next_event\<close> ends the function.\<close>

definition copy_done :: "'k copy_state \<Rightarrow> bool" where
  "copy_done w \<longleftrightarrow> fd_eof (cp_input w) \<and> fd_eof (cp_socket w) \<and> fd_closed (cp_output w) \<and>
     ByteStream_eof (cp_outbound w) \<and> cp_outbound_shutdown w"

lemma copy_done_exits:
  assumes "set rules \<subseteq> set (copy_rules sys)" and "copy_done w"
  shows "\<exists>rules' w'. wait_next_event poll t rules w = (Inr Exit, rules', w')"
proof -
  have "\<exists>rules' pfds w'. setup_pollfds rules w = (Inr (), rules', pfds, False, w')"
    using assms
  proof (induction rules arbitrary: w)
    case (Cons r rules)
    have "\<exists>rules' pfds w'. setup_pollfds rules w = (Inr (), rules', pfds, False, w')" using Cons by simp
    moreover have "\<exists>rules' pfds w'. setup_pollfds rules (w\<lparr>cp_outbound := ByteStream_end_input (cp_outbound w)\<rparr>) = (Inr (), rules', pfds, False, w')"
      "\<exists>rules' pfds w'. setup_pollfds rules (w\<lparr>cp_inbound := ByteStream_end_input (cp_inbound w)\<rparr>) = (Inr (), rules', pfds, False, w')"
      by (rule Cons.IH; use Cons.prems in \<open>simp add: copy_done_def ByteStream_eof_def ByteStream_end_input_def ByteStream_buffer_empty_def\<close>)+
    ultimately show ?case using Cons.prems
      by (auto simp: copy_rules_def EventLoop_add_rule_def copy_rule1_def copy_rule2_def copy_rule3_def copy_rule4_def
          copy_done_def ByteStream_eof_def ByteStream_buffer_empty_def Let_def)
  qed simp
  then show ?thesis by (auto simp: wait_next_event_def)
qed

section \<open>Properties\<close>

text \<open>
  C37: for every kernel and in every turn of the loop of \<open>bidirectional_stream_copy\<close>, the bytes
  written to the socket are, in order, the first bytes read from standard input, and the bytes
  written to standard output the first bytes read from the socket; as long as a stream has not
  been ended, nothing is missing but what it still buffers. The next turn neither reports a busy
  wait nor traps, and when both directions are done it ends the function.
\<close>
theorem stream_copy_integrity:
  assumes "reachable (copy_init sys socket) (copy_step (traced sys)) (rules, w)"
    and "h = snd (cp_kernel w)" and "n = fd_fd socket"
  shows "prefix (hi_written h n) (hi_read h 0) \<and> prefix (hi_written h 1) (hi_read h n) \<and>
    (\<not> bs_input_ended (cp_outbound w) \<longrightarrow> hi_written h n @ bs_contents (cp_outbound w) = hi_read h 0) \<and>
    (\<not> bs_input_ended (cp_inbound w) \<longrightarrow> hi_written h 1 @ bs_contents (cp_inbound w) = hi_read h n) \<and>
    fst (wait_next_event (copy_poll (traced sys)) (-1) rules w) \<notin> {Inl Undefined, Inl busy_wait} \<and>
    (copy_done w \<longrightarrow> fst (wait_next_event (copy_poll (traced sys)) (-1) rules w) = Inr Exit)"
proof -
  obtain ns where ok: "rules = map ((!) (copy_rules (traced sys))) ns" "copy_inv n w" "valid_indices 4 ns"
    using cp.reachable_inv [OF assms(1)] assms(3) by (auto simp: copy_ok_def)
  then have sub: "set rules \<subseteq> set (copy_rules (traced sys))"
    by (auto simp: valid_indices_def intro!: nth_mem)
  obtain res rules' w' where turn: "wait_next_event (copy_poll (traced sys)) (-1) rules w = (res, rules', w')"
    by (metis prod_cases3)
  have "fst (wait_next_event (copy_poll (traced sys)) (-1) rules w) \<notin> {Inl Undefined, Inl busy_wait}"
    using copy.wait_keeps [unfolded length_copy_rules, OF ok(3,2) turn [unfolded ok(1)]] turn by (cases res) (auto simp: no_bug_def poll_error_def busy_wait_def)
  moreover have "fst (wait_next_event (copy_poll (traced sys)) (-1) rules w) = Inr Exit" if "copy_done w"
    using copy_done_exits [OF sub that, of "copy_poll (traced sys)" "-1"] by auto
  moreover have "pumped 0 n (cp_outbound w) h" "pumped n 1 (cp_inbound w) h"
    using ok(2) assms(2) by (simp_all add: copy_inv_def)
  ultimately show ?thesis by (auto simp: pumped_def intro: append_prefixD)
qed

theorem stream_copy_integrity_witness:
  "\<exists>rules w. reachable (copy_init two_bytes \<lparr>fd_fd = 5, fd_eof = False, fd_closed = False, fd_read_count = 0, fd_write_count = 0\<rparr>)
      (copy_step (traced two_bytes)) (rules, w) \<and> prefix (hi_written (snd (cp_kernel w)) 5) (hi_read (snd (cp_kernel w)) 0) \<and>
    fst (wait_next_event (copy_poll (traced two_bytes)) (-1) rules w) \<noteq> Inl busy_wait"
proof -
  let ?s = "\<lparr>fd_fd = 5, fd_eof = False, fd_closed = False, fd_read_count = 0, fd_write_count = 0\<rparr>"
  let ?w = "copy_start ?s (\<lambda>_. [], no_history)"
  have "copy_set_blocking (traced two_bytes) ?w = (Inr (), ?w)"
    by (simp add: copy_set_blocking_def FileDescriptor_set_blocking_def traced_def two_bytes_def lifted_def SystemCall_def
        to_int_small copy_start_def)
  then have "reachable (copy_init two_bytes ?s) (copy_step (traced two_bytes)) (copy_rules (traced two_bytes), ?w)"
    by (intro reach_init) (auto simp: copy_init_def)
  from this stream_copy_integrity [OF this refl refl] show ?thesis by auto
qed

end
