(* ===== verification/TCP_Adapters.thy ===== *)
theory TCP_Adapters
  imports Network_Interface File_Descriptor
begin

text \<open>
  The adapters between TCP segments and datagrams: \<open>tcp_over_ip.cc\<close>, \<open>fd_adapter.hh\<close> and \<open>.cc\<close>,
  \<open>lossy_fd_adapter.hh\<close>, \<open>tuntap_adapter.hh\<close> and \<open>.cc\<close>, all under \<open>libsponge/tcp_helpers\<close>. A base
  class is a record that the derived classes extend. An operation returns its result or its
  exception beside the adapter and the kernel it leaves behind.
\<close>

section \<open>The base of the adapters\<close>

record FdAdapterConfig =
  ac_source :: Address
  ac_destination :: Address
  ac_loss_rate_dn :: u16
  ac_loss_rate_up :: u16

definition FdAdapterConfig_default :: FdAdapterConfig where
  "FdAdapterConfig_default =
     \<lparr>ac_source = \<lparr>ad_ip = 0, ad_port = 0\<rparr>, ac_destination = \<lparr>ad_ip = 0, ad_port = 0\<rparr>,
      ac_loss_rate_dn = 0, ac_loss_rate_up = 0\<rparr>"

record FdAdapterBase =
  fa_cfg :: FdAdapterConfig
  fa_listen :: bool

definition set_listening :: "bool \<Rightarrow> 'a FdAdapterBase_scheme \<Rightarrow> 'a FdAdapterBase_scheme" where
  "set_listening l a = a\<lparr>fa_listen := l\<rparr>"

definition with_ports :: "FdAdapterConfig \<Rightarrow> TCPSegment \<Rightarrow> TCPSegment" where
  "with_ports cfg seg =
     seg\<lparr>ts_header := (ts_header seg)\<lparr>th_sport := ad_port (ac_source cfg), th_dport := ad_port (ac_destination cfg)\<rparr>\<rparr>"

section \<open>TCP in IPv4\<close>

definition unwrap_tcp_in_ip ::
  "IPv4Datagram \<Rightarrow> 'a FdAdapterBase_scheme \<Rightarrow> TCPSegment option res \<times> 'a FdAdapterBase_scheme" where
  "unwrap_tcp_in_ip ip_dgram a =
     (if \<not> fa_listen a \<and> ih_dst (id_header ip_dgram) \<noteq> Address_ipv4_numeric (ac_source (fa_cfg a)) then (Inr None, a)
      else if \<not> fa_listen a \<and> ih_src (id_header ip_dgram) \<noteq> Address_ipv4_numeric (ac_destination (fa_cfg a)) then (Inr None, a)
      else if ih_proto (id_header ip_dgram) \<noteq> PROTO_TCP then (Inr None, a)
      else
        (case BufferList_to_Buffer (id_payload ip_dgram) of
           Inl e \<Rightarrow> (Inl e, a)
         | Inr buffer \<Rightarrow>
             let (result, tcp_seg) = TCPSegment_parse TCPSegment_default buffer (pseudo_cksum (id_header ip_dgram))
             in if result \<noteq> NoError then (Inr None, a)
                else if th_dport (ts_header tcp_seg) \<noteq> ad_port (ac_source (fa_cfg a)) then (Inr None, a)
                else if fa_listen a \<and> \<not> (th_syn (ts_header tcp_seg) \<and> \<not> th_rst (ts_header tcp_seg)) then (Inr None, a)
                else
                  let a' = (if fa_listen a
                            then set_listening False (a\<lparr>fa_cfg := (fa_cfg a)
                                  \<lparr>ac_source := \<lparr>ad_ip = ih_dst (id_header ip_dgram), ad_port = ad_port (ac_source (fa_cfg a))\<rparr>,
                                   ac_destination := \<lparr>ad_ip = ih_src (id_header ip_dgram), ad_port = th_sport (ts_header tcp_seg)\<rparr>\<rparr>\<rparr>)
                            else a)
                  in if th_sport (ts_header tcp_seg) \<noteq> ad_port (ac_destination (fa_cfg a')) then (Inr None, a')
                     else (Inr (Some tcp_seg), a')))"

text \<open>The port numbers are set in the segment of the caller, which comes back with the datagram.\<close>

definition wrap_tcp_in_ip :: "TCPSegment \<Rightarrow> 'a FdAdapterBase_scheme \<Rightarrow> IPv4Datagram res \<times> TCPSegment" where
  "wrap_tcp_in_ip seg0 a =
     (let seg = with_ports (fa_cfg a) seg0;
          h0 = IPv4Header_default;
          h = h0\<lparr>ih_src := Address_ipv4_numeric (ac_source (fa_cfg a)),
                 ih_dst := Address_ipv4_numeric (ac_destination (fa_cfg a)),
                 ih_len := ucast (ucast (ih_hlen h0) * 4 + ucast (th_doff (ts_header seg)) * 4 + Buffer_size (ts_payload seg) :: size_t)\<rparr>
      in case TCPSegment_serialize seg (pseudo_cksum h) of
           Inl e \<Rightarrow> (Inl e, seg)
         | Inr payload \<Rightarrow> (Inr \<lparr>id_header = h, id_payload = payload\<rparr>, seg))"

section \<open>TCP in UDP\<close>

record TCPOverUDPSocketAdapter = FdAdapterBase +
  ua_sock :: FDWrapper

definition TCPOverUDPSocketAdapter_read ::
  "'k Syscalls \<Rightarrow> TCPOverUDPSocketAdapter \<Rightarrow> 'k \<Rightarrow> TCPSegment option res \<times> TCPOverUDPSocketAdapter \<times> 'k" where
  "TCPOverUDPSocketAdapter_read sys a0 k =
     (case UDPSocket_recv sys 65536 (ua_sock a0) k of
        (Inl e, w, k') \<Rightarrow> (Inl e, a0\<lparr>ua_sock := w\<rparr>, k')
      | (Inr datagram, w, k') \<Rightarrow>
          let a = a0\<lparr>ua_sock := w\<rparr>
          in if \<not> fa_listen a \<and> rd_source_address datagram \<noteq> ac_destination (fa_cfg a) then (Inr None, a, k')
             else
               let (result, seg) = TCPSegment_parse TCPSegment_default (Buffer_of (rd_payload datagram)) 0
               in if result \<noteq> NoError then (Inr None, a, k')
                  else if fa_listen a
                  then if th_syn (ts_header seg) \<and> \<not> th_rst (ts_header seg)
                       then (Inr (Some seg),
                             set_listening False (a\<lparr>fa_cfg := (fa_cfg a)\<lparr>ac_destination := rd_source_address datagram\<rparr>\<rparr>), k')
                       else (Inr None, a, k')
                  else (Inr (Some seg), a, k'))"

definition TCPOverUDPSocketAdapter_write ::
  "'k Syscalls \<Rightarrow> TCPSegment \<Rightarrow> TCPOverUDPSocketAdapter \<Rightarrow> 'k \<Rightarrow> unit res \<times> TCPOverUDPSocketAdapter \<times> 'k" where
  "TCPOverUDPSocketAdapter_write sys seg a k =
     (case TCPSegment_serialize (with_ports (fa_cfg a) seg) 0 of
        Inl e \<Rightarrow> (Inl e, a, k)
      | Inr bl \<Rightarrow>
          (case UDPSocket_sendto sys (ac_destination (fa_cfg a)) (BufferViewList_of bl) (ua_sock a) k of
             (r, w, k') \<Rightarrow> (r, a\<lparr>ua_sock := w\<rparr>, k')))"

section \<open>TCP in IPv4 over a TUN device\<close>

record TCPOverIPv4OverTunFdAdapter = FdAdapterBase +
  ta_tun :: FDWrapper

text \<open>\<open>read()\<close> without an argument reads up to \<open>2 ^ 64 - 1\<close> bytes.\<close>

definition TunFdAdapter_read ::
  "'k Syscalls \<Rightarrow> TCPOverIPv4OverTunFdAdapter \<Rightarrow> 'k \<Rightarrow> TCPSegment option res \<times> TCPOverIPv4OverTunFdAdapter \<times> 'k" where
  "TunFdAdapter_read sys a k =
     (case FileDescriptor_read sys (-1) (ta_tun a) k of
        (Inl e, w, k') \<Rightarrow> (Inl e, a\<lparr>ta_tun := w\<rparr>, k')
      | (Inr s, w, k') \<Rightarrow>
          let (result, ip_dgram) = IPv4Datagram_parse IPv4Datagram_default (Buffer_of s)
          in if result \<noteq> NoError then (Inr None, a\<lparr>ta_tun := w\<rparr>, k')
             else (case unwrap_tcp_in_ip ip_dgram (a\<lparr>ta_tun := w\<rparr>) of (r, a') \<Rightarrow> (r, a', k')))"

definition TunFdAdapter_write ::
  "'k Syscalls \<Rightarrow> TCPSegment \<Rightarrow> TCPOverIPv4OverTunFdAdapter \<Rightarrow> 'k \<Rightarrow> unit res \<times> TCPOverIPv4OverTunFdAdapter \<times> 'k" where
  "TunFdAdapter_write sys seg a k =
     (case fst (wrap_tcp_in_ip seg a) of
        Inl e \<Rightarrow> (Inl e, a, k)
      | Inr d \<Rightarrow>
          (case IPv4Datagram_serialize d of
             Inl e \<Rightarrow> (Inl e, a, k)
           | Inr bl \<Rightarrow>
               (case FileDescriptor_write sys (BufferViewList_of bl) True (ta_tun a) k of
                  (r, w, k') \<Rightarrow> (map_sum id (\<lambda>_. ()) r, a\<lparr>ta_tun := w\<rparr>, k'))))"

section \<open>TCP in IPv4 over Ethernet\<close>

record TCPOverIPv4OverEthernetAdapter = FdAdapterBase +
  ea_tap :: FDWrapper
  ea_interface :: NetworkInterface
  ea_next_hop :: Address

text \<open>A frame leaves the queue after it has been written; an exception stops the loop before that.\<close>

fun send_frames ::
  "'k Syscalls \<Rightarrow> EthernetFrame list \<Rightarrow> FDWrapper \<Rightarrow> 'k \<Rightarrow> unit res \<times> EthernetFrame list \<times> FDWrapper \<times> 'k" where
  "send_frames sys [] w k = (Inr (), [], w, k)"
| "send_frames sys (f # fs) w k =
     (case FileDescriptor_write sys (BufferViewList_of (EthernetFrame_serialize f)) True w k of
        (Inl e, w', k') \<Rightarrow> (Inl e, f # fs, w', k')
      | (Inr _, w', k') \<Rightarrow> send_frames sys fs w' k')"

definition send_pending ::
  "'k Syscalls \<Rightarrow> TCPOverIPv4OverEthernetAdapter \<Rightarrow> 'k \<Rightarrow> unit res \<times> TCPOverIPv4OverEthernetAdapter \<times> 'k" where
  "send_pending sys a k =
     (case send_frames sys (ni_frames_out (ea_interface a)) (ea_tap a) k of
        (r, fs, w, k') \<Rightarrow> (r, a\<lparr>ea_tap := w, ea_interface := (ea_interface a)\<lparr>ni_frames_out := fs\<rparr>\<rparr>, k'))"

definition EthernetAdapter_new ::
  "'k Syscalls \<Rightarrow> FDWrapper \<Rightarrow> EthernetAddress \<Rightarrow> Address \<Rightarrow> Address \<Rightarrow> EthernetFrame \<Rightarrow> 'k \<Rightarrow>
     TCPOverIPv4OverEthernetAdapter res \<times> 'k" where
  "EthernetAdapter_new sys tap eth_address ip_address next_hop dummy_frame k =
     (case FileDescriptor_write sys (BufferViewList_of (EthernetFrame_serialize dummy_frame)) True tap k of
        (Inl e, w, k') \<Rightarrow> (Inl e, k')
      | (Inr _, w, k') \<Rightarrow>
          (Inr \<lparr>fa_cfg = FdAdapterConfig_default, fa_listen = False, ea_tap = w,
                ea_interface = NetworkInterface_new eth_address (Address_ipv4_numeric ip_address), ea_next_hop = next_hop\<rparr>, k'))"

definition EthernetAdapter_read ::
  "'k Syscalls \<Rightarrow> EthernetFrame \<Rightarrow> TCPOverIPv4OverEthernetAdapter \<Rightarrow> 'k \<Rightarrow>
     TCPSegment option res \<times> TCPOverIPv4OverEthernetAdapter \<times> 'k" where
  "EthernetAdapter_read sys frame0 a0 k0 =
     (case FileDescriptor_read sys (-1) (ea_tap a0) k0 of
        (Inl e, w, k) \<Rightarrow> (Inl e, a0\<lparr>ea_tap := w\<rparr>, k)
      | (Inr s, w, k) \<Rightarrow>
          let a = a0\<lparr>ea_tap := w\<rparr>;
              (result, frame) = EthernetFrame_parse frame0 (Buffer_of s)
          in if result \<noteq> NoError then (Inr None, a, k)
             else
               (case NetworkInterface_recv_frame frame (ea_interface a) of
                  (Inl e, n) \<Rightarrow> (Inl e, a\<lparr>ea_interface := n\<rparr>, k)
                | (Inr ip_dgram, n) \<Rightarrow>
                    (case send_pending sys (a\<lparr>ea_interface := n\<rparr>) k of
                       (Inl e, a', k') \<Rightarrow> (Inl e, a', k')
                     | (Inr _, a', k') \<Rightarrow>
                         (case ip_dgram of
                            None \<Rightarrow> (Inr None, a', k')
                          | Some d \<Rightarrow> (case unwrap_tcp_in_ip d a' of (r, a'') \<Rightarrow> (r, a'', k'))))))"

definition EthernetAdapter_tick ::
  "'k Syscalls \<Rightarrow> u64 \<Rightarrow> TCPOverIPv4OverEthernetAdapter \<Rightarrow> 'k \<Rightarrow> unit res \<times> TCPOverIPv4OverEthernetAdapter \<times> 'k" where
  "EthernetAdapter_tick sys ms_since_last_tick a k =
     send_pending sys (a\<lparr>ea_interface := NetworkInterface_tick ms_since_last_tick (ea_interface a)\<rparr>) k"

definition EthernetAdapter_write ::
  "'k Syscalls \<Rightarrow> TCPSegment \<Rightarrow> TCPOverIPv4OverEthernetAdapter \<Rightarrow> 'k \<Rightarrow> unit res \<times> TCPOverIPv4OverEthernetAdapter \<times> 'k" where
  "EthernetAdapter_write sys seg a k =
     (case fst (wrap_tcp_in_ip seg a) of
        Inl e \<Rightarrow> (Inl e, a, k)
      | Inr d \<Rightarrow>
          (case NetworkInterface_send_datagram d (Address_ipv4_numeric (ea_next_hop a)) (ea_interface a) of
             (Some e, n) \<Rightarrow> (Inl e, a\<lparr>ea_interface := n\<rparr>, k)
           | (None, n) \<Rightarrow> send_pending sys (a\<lparr>ea_interface := n\<rparr>) k))"

section \<open>The adapter as a template argument\<close>

text \<open>
  What \<open>TCPSpongeSocket\<close> and \<open>LossyFdAdapter\<close> call on the adapter they are instantiated with.
  \<open>ad_fd\<close> is the descriptor the adapter converts to; \<open>FdAdapterBase::tick\<close> does nothing.
\<close>

record ('a, 'k) AdaptT =
  at_read :: "'a \<Rightarrow> 'k \<Rightarrow> TCPSegment option res \<times> 'a \<times> 'k"
  at_write :: "TCPSegment \<Rightarrow> 'a \<Rightarrow> 'k \<Rightarrow> unit res \<times> 'a \<times> 'k"
  at_tick :: "u64 \<Rightarrow> 'a \<Rightarrow> 'k \<Rightarrow> unit res \<times> 'a \<times> 'k"
  at_fd :: "'a \<Rightarrow> FDWrapper"
  at_config :: "'a \<Rightarrow> FdAdapterConfig"
  at_set_config :: "FdAdapterConfig \<Rightarrow> 'a \<Rightarrow> 'a"
  at_set_listening :: "bool \<Rightarrow> 'a \<Rightarrow> 'a"

definition FdAdapterBase_tick :: "u64 \<Rightarrow> 'a \<Rightarrow> 'k \<Rightarrow> unit res \<times> 'a \<times> 'k" where
  "FdAdapterBase_tick ms a k = (Inr (), a, k)"

definition udp_adapter :: "'k Syscalls \<Rightarrow> (TCPOverUDPSocketAdapter, 'k) AdaptT" where
  "udp_adapter sys =
     \<lparr>at_read = TCPOverUDPSocketAdapter_read sys, at_write = TCPOverUDPSocketAdapter_write sys,
      at_tick = FdAdapterBase_tick, at_fd = ua_sock, at_config = fa_cfg,
      at_set_config = \<lambda>cfg a. a\<lparr>fa_cfg := cfg\<rparr>, at_set_listening = set_listening\<rparr>"

definition tun_adapter :: "'k Syscalls \<Rightarrow> (TCPOverIPv4OverTunFdAdapter, 'k) AdaptT" where
  "tun_adapter sys =
     \<lparr>at_read = TunFdAdapter_read sys, at_write = TunFdAdapter_write sys,
      at_tick = FdAdapterBase_tick, at_fd = ta_tun, at_config = fa_cfg,
      at_set_config = \<lambda>cfg a. a\<lparr>fa_cfg := cfg\<rparr>, at_set_listening = set_listening\<rparr>"

definition ethernet_adapter :: "'k Syscalls \<Rightarrow> EthernetFrame \<Rightarrow> (TCPOverIPv4OverEthernetAdapter, 'k) AdaptT" where
  "ethernet_adapter sys frame0 =
     \<lparr>at_read = EthernetAdapter_read sys frame0, at_write = EthernetAdapter_write sys,
      at_tick = EthernetAdapter_tick sys, at_fd = ea_tap, at_config = fa_cfg,
      at_set_config = \<lambda>cfg a. a\<lparr>fa_cfg := cfg\<rparr>, at_set_listening = set_listening\<rparr>"

section \<open>Random loss\<close>

text \<open>
  \<open>LossyFdAdapter\<close> over any adapter; the random generator is a function \<open>rand\<close> of its state.
  The read drops what the adapter has read; the generator is used only for a loss rate above 0.
\<close>

record ('a, 'g) LossyFdAdapter =
  la_rand :: 'g
  la_adapter :: 'a

definition should_drop ::
  "('g \<Rightarrow> u32 \<times> 'g) \<Rightarrow> FdAdapterConfig \<Rightarrow> bool \<Rightarrow> 'g \<Rightarrow> bool \<times> 'g" where
  "should_drop rand cfg uplink g =
     (let loss = (if uplink then ac_loss_rate_up cfg else ac_loss_rate_dn cfg)
      in if loss \<noteq> 0 then (let (r, g') = rand g in ((ucast r :: u16) < loss, g')) else (False, g))"

definition LossyFdAdapter_read ::
  "('g \<Rightarrow> u32 \<times> 'g) \<Rightarrow> ('a, 'k) AdaptT \<Rightarrow> ('a, 'g) LossyFdAdapter \<Rightarrow> 'k \<Rightarrow>
     TCPSegment option res \<times> ('a, 'g) LossyFdAdapter \<times> 'k" where
  "LossyFdAdapter_read rand ops l k =
     (case at_read ops (la_adapter l) k of
        (Inl e, a, k') \<Rightarrow> (Inl e, l\<lparr>la_adapter := a\<rparr>, k')
      | (Inr ret, a, k') \<Rightarrow>
          (case should_drop rand (at_config ops a) False (la_rand l) of
             (dropped, g) \<Rightarrow> (Inr (if dropped then None else ret), \<lparr>la_rand = g, la_adapter = a\<rparr>, k')))"

definition LossyFdAdapter_write ::
  "('g \<Rightarrow> u32 \<times> 'g) \<Rightarrow> ('a, 'k) AdaptT \<Rightarrow> TCPSegment \<Rightarrow> ('a, 'g) LossyFdAdapter \<Rightarrow> 'k \<Rightarrow>
     unit res \<times> ('a, 'g) LossyFdAdapter \<times> 'k" where
  "LossyFdAdapter_write rand ops seg l k =
     (case should_drop rand (at_config ops (la_adapter l)) True (la_rand l) of
        (dropped, g) \<Rightarrow>
          if dropped then (Inr (), l\<lparr>la_rand := g\<rparr>, k)
          else (case at_write ops seg (la_adapter l) k of (r, a, k') \<Rightarrow> (r, \<lparr>la_rand = g, la_adapter = a\<rparr>, k')))"

definition lossy_adapter :: "('g \<Rightarrow> u32 \<times> 'g) \<Rightarrow> ('a, 'k) AdaptT \<Rightarrow> (('a, 'g) LossyFdAdapter, 'k) AdaptT" where
  "lossy_adapter rand ops =
     \<lparr>at_read = LossyFdAdapter_read rand ops, at_write = LossyFdAdapter_write rand ops,
      at_tick = (\<lambda>ms l k. case at_tick ops ms (la_adapter l) k of (r, a, k') \<Rightarrow> (r, l\<lparr>la_adapter := a\<rparr>, k')),
      at_fd = (\<lambda>l. at_fd ops (la_adapter l)), at_config = (\<lambda>l. at_config ops (la_adapter l)),
      at_set_config = (\<lambda>cfg l. l\<lparr>la_adapter := at_set_config ops cfg (la_adapter l)\<rparr>),
      at_set_listening = (\<lambda>b l. l\<lparr>la_adapter := at_set_listening ops b (la_adapter l)\<rparr>)\<rparr>"

section \<open>A segment through the wire\<close>

lemma ports_header [simp]:
  "header_ok (ts_header (with_ports cfg seg)) = header_ok (ts_header seg)"
  "ts_payload (with_ports cfg seg) = ts_payload seg"
  "th_syn (ts_header (with_ports cfg seg)) = th_syn (ts_header seg)"
  "th_rst (ts_header (with_ports cfg seg)) = th_rst (ts_header seg)"
  "th_doff (ts_header (with_ports cfg seg)) = th_doff (ts_header seg)"
  "th_sport (ts_header (with_ports cfg seg)) = ad_port (ac_source cfg)"
  "th_dport (ts_header (with_ports cfg seg)) = ad_port (ac_destination cfg)"
  by (simp_all add: with_ports_def header_ok_def)

text \<open>The datagram that carries a segment.\<close>

definition carrier :: "TCPSegment \<Rightarrow> FdAdapterConfig \<Rightarrow> IPv4Datagram" where
  "carrier seg cfg =
     (let h = IPv4Header_default\<lparr>ih_src := ad_ip (ac_source cfg), ih_dst := ad_ip (ac_destination cfg),
            ih_len := of_nat (20 + 4 * unat (th_doff (ts_header seg)) + length (Buffer_str (ts_payload seg)))\<rparr>
      in \<lparr>id_header = h,
          id_payload = [Buffer_of (header_bytes (wire_header (with_ports cfg seg) (pseudo_cksum h))), ts_payload seg]\<rparr>)"

definition fits_datagram :: "TCPSegment \<Rightarrow> bool" where
  "fits_datagram seg \<longleftrightarrow>
     header_ok (ts_header seg) \<and> buffer_ok (ts_payload seg) \<and> length (Buffer_str (ts_payload seg)) \<le> 65000"

lemma carrier_length:
  assumes "fits_datagram seg"
  shows "ucast (ucast (ih_hlen IPv4Header_default) * 4 + ucast (th_doff (ts_header seg)) * 4 + Buffer_size (ts_payload seg) :: size_t)
    = (of_nat (20 + 4 * unat (th_doff (ts_header seg)) + length (Buffer_str (ts_payload seg))) :: u16)"
proof -
  let ?n = "20 + 4 * unat (th_doff (ts_header seg)) + length (Buffer_str (ts_payload seg))"
  have "(ucast (ih_hlen IPv4Header_default) * 4 + ucast (th_doff (ts_header seg)) * 4 + Buffer_size (ts_payload seg) :: size_t) = of_nat ?n"
    using assms by (simp add: IPv4Header_default_def Buffer_size_def str_size_def mult.commute)
  moreover have "?n < 2 ^ 16" using assms unat_lt_8 [of "th_doff (ts_header seg)"] by (auto simp: fits_datagram_def header_ok_def)
  ultimately show ?thesis
    by (intro word_eq_unatI) (simp only: unat_ucast_down unat_of_nat, simp)
qed

lemma wrap_carrier:
  assumes "fits_datagram seg"
  shows "wrap_tcp_in_ip seg a = (Inr (carrier seg (fa_cfg a)), with_ports (fa_cfg a) seg)"
  using assms unfolding wrap_tcp_in_ip_def carrier_def Let_def ports_header carrier_length [OF assms] Address_ipv4_numeric_def
  by (simp add: TCPSegment_serialize_wire fits_datagram_def)

lemma carrier_payload:
  assumes "fits_datagram seg"
  shows "BufferList_concatenate (id_payload (carrier seg cfg)) =
      header_bytes (wire_header (with_ports cfg seg) (pseudo_cksum (id_header (carrier seg cfg)))) @ Buffer_str (ts_payload seg)"
    "\<forall>b\<in>set (id_payload (carrier seg cfg)). buffer_ok b"
proof -
  let ?h = "wire_header (with_ports cfg seg) (pseudo_cksum (id_header (carrier seg cfg)))"
  have "header_ok ?h" using assms by (simp add: fits_datagram_def)
  then have "length (header_bytes ?h) < 2 ^ 64" by (subst length_header_bytes) (simp_all add: header_ok_def)
  with assms show "BufferList_concatenate (id_payload (carrier seg cfg)) = header_bytes ?h @ Buffer_str (ts_payload seg)"
    "\<forall>b\<in>set (id_payload (carrier seg cfg)). buffer_ok b"
    by (simp_all add: carrier_def Let_def Buffer_str_of buffer_ok_of fits_datagram_def)
qed

lemma carrier_ok:
  assumes "fits_datagram seg"
  shows "datagram_ok (carrier seg cfg)"
proof -
  let ?h = "wire_header (with_ports cfg seg) (pseudo_cksum (id_header (carrier seg cfg)))"
  have "length (header_bytes ?h) = 4 * unat (th_doff (ts_header seg))"
    using assms by (subst length_header_bytes) (simp_all add: fits_datagram_def wire_header_def)
  moreover have "20 + 4 * unat (th_doff (ts_header seg)) + length (Buffer_str (ts_payload seg)) < 2 ^ 16"
    using assms by (simp add: fits_datagram_def header_ok_def)
  then have "unat (ih_len (id_header (carrier seg cfg))) = 20 + 4 * unat (th_doff (ts_header seg)) + length (Buffer_str (ts_payload seg))"
    unfolding carrier_def Let_def by (simp add: unat_of_nat_small del: of_nat_add)
  moreover have "ip_header_ok (id_header (carrier seg cfg))" "ih_hlen (id_header (carrier seg cfg)) = 5"
    by (simp_all add: carrier_def Let_def ip_header_ok_def IPv4Header_default_def)
  ultimately show ?thesis using carrier_payload [OF assms, of cfg] by (simp add: datagram_ok_def)
qed

text \<open>The receiver accepts what reaches it: it is the peer, or it listens and a SYN arrives.\<close>

definition accepts :: "TCPSegment \<Rightarrow> FdAdapterConfig \<Rightarrow> 'a FdAdapterBase_scheme \<Rightarrow> bool" where
  "accepts seg cfg b \<longleftrightarrow>
     (if fa_listen b then ad_port (ac_source (fa_cfg b)) = ad_port (ac_destination cfg) \<and>
        th_syn (ts_header seg) \<and> \<not> th_rst (ts_header seg)
      else ac_source (fa_cfg b) = ac_destination cfg \<and> ac_destination (fa_cfg b) = ac_source cfg)"

lemma pseudo_cksum_wire [simp]: "pseudo_cksum (ip_wire_header h) = pseudo_cksum h"
  by (simp add: pseudo_cksum_def payload_length_def ip_wire_header_def)

lemma unwrap_carrier:
  fixes b :: "'a FdAdapterBase_scheme"
  assumes fits: "fits_datagram seg" and acc: "accepts seg cfg b"
    and buf: "buffer_ok buf" "Buffer_str buf = BufferList_concatenate (id_payload (carrier seg cfg))"
  shows "\<exists>seg'. unwrap_tcp_in_ip \<lparr>id_header = ip_wire_header (id_header (carrier seg cfg)), id_payload = [buf]\<rparr> b =
      (Inr (Some seg'), b\<lparr>fa_listen := False, fa_cfg := (fa_cfg b)\<lparr>ac_source := ac_destination cfg, ac_destination := ac_source cfg\<rparr>\<rparr>) \<and>
    ts_header seg' = wire_header (with_ports cfg seg) (pseudo_cksum (id_header (carrier seg cfg))) \<and>
    Buffer_str (ts_payload seg') = Buffer_str (ts_payload seg)"
proof -
  let ?init = "pseudo_cksum (id_header (carrier seg cfg))"
  let ?h = "wire_header (with_ports cfg seg) ?init" and ?d = "Buffer_str (ts_payload seg)"
  have h: "header_ok (ts_header (with_ports cfg seg))" "header_ok ?h" using fits by (simp_all add: fits_datagram_def)
  have ck: "InternetChecksum_value (InternetChecksum_add (header_bytes ?h @ ?d) (InternetChecksum_new ?init)) = 0"
    using wire_checksum [OF h(1) _ unat_pseudo_cksum] fits by (simp add: fits_datagram_def)
  obtain seg' where p: "TCPSegment_parse TCPSegment_default buf ?init = (NoError, seg')" "ts_header seg' = ?h" "Buffer_str (ts_payload seg') = ?d"
    using TCPSegment_parse_buffer [OF h(2) buf(1) _ ck] buf(2) unfolding carrier_payload(1) [OF fits] by blast
  have f: "th_sport ?h = ad_port (ac_source cfg)" "th_dport ?h = ad_port (ac_destination cfg)"
    "th_syn ?h = th_syn (ts_header seg)" "th_rst ?h = th_rst (ts_header seg)"
    by (simp_all add: wire_header_def)
  have ip: "ih_src (ip_wire_header (id_header (carrier seg cfg))) = ad_ip (ac_source cfg)"
    "ih_dst (ip_wire_header (id_header (carrier seg cfg))) = ad_ip (ac_destination cfg)"
    "ih_proto (ip_wire_header (id_header (carrier seg cfg))) = PROTO_TCP"
    by (simp_all add: carrier_def Let_def ip_wire_header_def IPv4Header_default_def)
  show ?thesis
  proof (cases "fa_listen b")
    case True
    have dst: "\<lparr>ad_ip = ad_ip (ac_destination cfg), ad_port = ad_port (ac_source (fa_cfg b))\<rparr> = ac_destination cfg"
      using acc True by (simp add: accepts_def)
    show ?thesis using acc True p(3)
      by (simp add: unwrap_tcp_in_ip_def BufferList_to_Buffer_def accepts_def set_listening_def Let_def p(1,2) f ip dst)
  next
    case False
    then have same: "b\<lparr>fa_listen := False, fa_cfg := (fa_cfg b)\<lparr>ac_source := ac_destination cfg, ac_destination := ac_source cfg\<rparr>\<rparr> = b"
      using acc by (cases b, cases "fa_cfg b") (simp add: accepts_def)
    show ?thesis using acc False p(3)
      by (simp add: unwrap_tcp_in_ip_def BufferList_to_Buffer_def accepts_def Address_ipv4_numeric_def same p(1,2) f ip)
  qed
qed

section \<open>Properties\<close>

text \<open>A segment comes out only if it belongs to the connection the adapter is then in.\<close>

lemma unwrap_filters:
  assumes "unwrap_tcp_in_ip d b = (Inr (Some seg), b')"
  shows "\<not> fa_listen b' \<and> ih_dst (id_header d) = ad_ip (ac_source (fa_cfg b')) \<and> ih_src (id_header d) = ad_ip (ac_destination (fa_cfg b')) \<and>
    th_dport (ts_header seg) = ad_port (ac_source (fa_cfg b')) \<and> th_sport (ts_header seg) = ad_port (ac_destination (fa_cfg b'))"
proof (cases "fa_listen b")
  case True
  have "b' = set_listening False (b\<lparr>fa_cfg := (fa_cfg b)
        \<lparr>ac_source := \<lparr>ad_ip = ih_dst (id_header d), ad_port = ad_port (ac_source (fa_cfg b))\<rparr>,
         ac_destination := \<lparr>ad_ip = ih_src (id_header d), ad_port = th_sport (ts_header seg)\<rparr>\<rparr>\<rparr>)"
    and "th_dport (ts_header seg) = ad_port (ac_source (fa_cfg b))"
    using assms True by (simp_all add: unwrap_tcp_in_ip_def Let_def split: if_splits sum.splits prod.splits)
  then show ?thesis by (simp add: set_listening_def)
next
  case False
  then show ?thesis using assms
    by (simp add: unwrap_tcp_in_ip_def Address_ipv4_numeric_def split: if_splits sum.splits prod.splits)
qed

text \<open>
  C36: what one \<open>TCPOverIPv4Adapter\<close> wraps, the other end unwraps. For every segment with a legal
  header and at most 65000 bytes of payload, the datagram of \<open>wrap_tcp_in_ip\<close> serializes, its
  bytes parse, and the adapter that is the peer of the sender, or that listens on the port when
  a SYN arrives, unwraps the segment with the ports filled in and nothing else but the checksum
  changed. A listening adapter has then stopped listening and taken the two addresses over.
\<close>
theorem TCPOverIPv4Adapter_roundtrip:
  fixes a :: "'a FdAdapterBase_scheme" and b :: "'b FdAdapterBase_scheme"
  assumes "fits_datagram seg" and "accepts seg (fa_cfg a) b"
  shows "\<exists>d bl d' seg'. fst (wrap_tcp_in_ip seg a) = Inr d \<and> IPv4Datagram_serialize d = Inr bl \<and>
    IPv4Datagram_parse d0 (Buffer_of (BufferList_concatenate bl)) = (NoError, d') \<and>
    unwrap_tcp_in_ip d' b =
      (Inr (Some seg'), b\<lparr>fa_listen := False,
        fa_cfg := (fa_cfg b)\<lparr>ac_source := ac_destination (fa_cfg a), ac_destination := ac_source (fa_cfg a)\<rparr>\<rparr>) \<and>
    ts_header seg' = (ts_header seg)\<lparr>th_sport := ad_port (ac_source (fa_cfg a)),
      th_dport := ad_port (ac_destination (fa_cfg a)), th_cksum := th_cksum (ts_header seg')\<rparr> \<and>
    Buffer_str (ts_payload seg') = Buffer_str (ts_payload seg)"
proof -
  let ?d = "carrier seg (fa_cfg a)"
  have ok: "datagram_ok ?d" by (rule carrier_ok [OF assms(1)])
  then have h: "ip_header_ok (id_header ?d)" by (simp add: datagram_ok_def)
  have "length (ip_header_bytes (ip_wire_header (id_header ?d))) < 2 ^ 64"
    using h by (subst length_ip_header_bytes) (simp_all add: ip_header_ok_def ip_wire_header_def)
  then have cat: "BufferList_concatenate (Buffer_of (ip_header_bytes (ip_wire_header (id_header ?d))) # id_payload ?d) =
      ip_header_bytes (ip_wire_header (id_header ?d)) @ BufferList_concatenate (id_payload ?d)"
    by (simp add: Buffer_str_of)
  obtain buf where buf: "IPv4Datagram_parse d0 (Buffer_of (ip_header_bytes (ip_wire_header (id_header ?d)) @ BufferList_concatenate (id_payload ?d)))
      = (NoError, \<lparr>id_header = ip_wire_header (id_header ?d), id_payload = [buf]\<rparr>)"
    "buffer_ok buf" "Buffer_str buf = BufferList_concatenate (id_payload ?d)"
    using IPv4Datagram_parse_wire [OF ok] by blast
  obtain seg' where "unwrap_tcp_in_ip \<lparr>id_header = ip_wire_header (id_header ?d), id_payload = [buf]\<rparr> b =
      (Inr (Some seg'), b\<lparr>fa_listen := False,
        fa_cfg := (fa_cfg b)\<lparr>ac_source := ac_destination (fa_cfg a), ac_destination := ac_source (fa_cfg a)\<rparr>\<rparr>)"
    "ts_header seg' = wire_header (with_ports (fa_cfg a) seg) (pseudo_cksum (id_header ?d))"
    "Buffer_str (ts_payload seg') = Buffer_str (ts_payload seg)"
    using unwrap_carrier [OF assms buf(2,3)] by blast
  then show ?thesis
    using wrap_carrier [OF assms(1), of a] IPv4Datagram_serialize_wire [OF h datagram_ok_size [OF ok]] buf(1)
    by (intro exI [of _ ?d] exI [of _ "Buffer_of (ip_header_bytes (ip_wire_header (id_header ?d))) # id_payload ?d"]
        exI [of _ "\<lparr>id_header = ip_wire_header (id_header ?d), id_payload = [buf]\<rparr>"] exI [of _ seg'])
       (simp only: cat fst_conv, simp add: wire_header_def with_ports_def)
qed

theorem TCPOverIPv4Adapter_roundtrip_witness:
  "\<exists>d bl d' seg'. fst (wrap_tcp_in_ip (TCPSegment_default\<lparr>ts_header := TCPHeader_default\<lparr>th_syn := True\<rparr>, ts_payload := Buffer_of [1, 2]\<rparr>)
      \<lparr>fa_cfg = FdAdapterConfig_default\<lparr>ac_source := \<lparr>ad_ip = 1, ad_port = 80\<rparr>, ac_destination := \<lparr>ad_ip = 2, ad_port = 90\<rparr>\<rparr>, fa_listen = False\<rparr>)
      = Inr d \<and> IPv4Datagram_serialize d = Inr bl \<and>
    IPv4Datagram_parse IPv4Datagram_default (Buffer_of (BufferList_concatenate bl)) = (NoError, d') \<and>
    unwrap_tcp_in_ip d' \<lparr>fa_cfg = FdAdapterConfig_default\<lparr>ac_source := \<lparr>ad_ip = 0, ad_port = 90\<rparr>\<rparr>, fa_listen = True\<rparr> =
      (Inr (Some seg'), \<lparr>fa_cfg = FdAdapterConfig_default\<lparr>ac_source := \<lparr>ad_ip = 2, ad_port = 90\<rparr>,
         ac_destination := \<lparr>ad_ip = 1, ad_port = 80\<rparr>\<rparr>, fa_listen = False\<rparr>) \<and>
    Buffer_str (ts_payload seg') = [1, 2]"
proof -
  let ?seg = "TCPSegment_default\<lparr>ts_header := TCPHeader_default\<lparr>th_syn := True\<rparr>, ts_payload := Buffer_of [1, 2]\<rparr>"
  let ?a = "\<lparr>fa_cfg = FdAdapterConfig_default\<lparr>ac_source := \<lparr>ad_ip = 1, ad_port = 80\<rparr>,
      ac_destination := \<lparr>ad_ip = 2, ad_port = 90\<rparr>\<rparr>, fa_listen = False\<rparr>"
  let ?b = "\<lparr>fa_cfg = FdAdapterConfig_default\<lparr>ac_source := \<lparr>ad_ip = 0, ad_port = 90\<rparr>\<rparr>, fa_listen = True\<rparr>"
  have "fits_datagram ?seg"
    by (simp add: fits_datagram_def header_ok_def TCPHeader_default_def buffer_ok_of Buffer_str_of)
  moreover have "accepts ?seg (fa_cfg ?a) ?b" by (simp add: accepts_def TCPHeader_default_def)
  ultimately show ?thesis
    using TCPOverIPv4Adapter_roundtrip [of ?seg ?a ?b IPv4Datagram_default]
    by (auto simp: FdAdapterConfig_default_def Buffer_str_of)
qed

end
