(* ===== verification/TCP_Socket.thy ===== *)
theory TCP_Socket
  imports Event_Loop TCP_Adapters TCP_Connection
begin

text \<open>
  \<open>libsponge/tcp_helpers/tcp_sponge_socket.hh\<close> and \<open>.cc\<close>: the socket that runs a connection in a
  thread of its own. The four rules of its event loop move segments between the datagram adapter
  and the connection, and bytes between the connection and the local stream socket of the owner.
  The adapter is the template argument \<open>ops\<close>. The socket of the owner and the kernel belong to
  the environment of the thread. Debugging output is left out.
\<close>

section \<open>Model\<close>

record ('a, 'k) TCPSpongeSocket =
  sk_fd :: FDWrapper
  sk_thread_data :: FDWrapper
  sk_datagram_adapter :: 'a
  sk_tcp :: "TCPConnection option"
  sk_abort :: bool
  sk_inbound_shutdown :: bool
  sk_outbound_shutdown :: bool
  sk_fully_acked :: bool
  sk_kernel :: 'k

definition TCP_TICK_MS :: int where
  "TCP_TICK_MS = 10"

definition TCPSpongeSocket_new ::
  "'k Syscalls \<Rightarrow> FDWrapper \<Rightarrow> FDWrapper \<Rightarrow> 'a \<Rightarrow> 'k \<Rightarrow> ('a, 'k) TCPSpongeSocket res" where
  "TCPSpongeSocket_new sys owner thread datagram_interface k =
     (case FileDescriptor_set_blocking sys False thread k of
        (Inl e, k') \<Rightarrow> Inl e
      | (Inr _, k') \<Rightarrow>
          Inr \<lparr>sk_fd = owner, sk_thread_data = thread, sk_datagram_adapter = datagram_interface, sk_tcp = None,
               sk_abort = False, sk_inbound_shutdown = False, sk_outbound_shutdown = False, sk_fully_acked = False,
               sk_kernel = k'\<rparr>)"

subsection \<open>The rules of the event loop\<close>

text \<open>The bytes of \<open>inbound_stream()\<close>, which the connection hands out by reference.\<close>

definition inbound_stream :: "TCPConnection \<Rightarrow> ByteStream" where
  "inbound_stream c = TCPReceiver_stream_out (cn_receiver c)"

definition set_inbound_stream :: "ByteStream \<Rightarrow> TCPConnection \<Rightarrow> TCPConnection" where
  "set_inbound_stream bs c =
     c\<lparr>cn_receiver := (cn_receiver c)\<lparr>tr_reassembler := (tr_reassembler (cn_receiver c))\<lparr>sr_output := bs\<rparr>\<rparr>\<rparr>"

definition note_fully_acked :: "TCPConnection \<Rightarrow> ('a, 'k) TCPSpongeSocket \<Rightarrow> ('a, 'k) TCPSpongeSocket" where
  "note_fully_acked c w =
     (if fd_eof (sk_thread_data w) \<and> TCPConnection_bytes_in_flight c = 0 \<and> \<not> sk_fully_acked w
      then w\<lparr>sk_fully_acked := True\<rparr> else w)"

text \<open>Rule 1: a datagram has arrived.\<close>

definition receive_datagram :: "('a, 'k) AdaptT \<Rightarrow> ('a, 'k) TCPSpongeSocket \<Rightarrow> unit res \<times> ('a, 'k) TCPSpongeSocket" where
  "receive_datagram ops w =
     (case sk_tcp w of
        None \<Rightarrow> (Inl Undefined, w)
      | Some c \<Rightarrow>
          (case at_read ops (sk_datagram_adapter w) (sk_kernel w) of
             (Inl e, a, k) \<Rightarrow> (Inl e, w\<lparr>sk_datagram_adapter := a, sk_kernel := k\<rparr>)
           | (Inr seg, a, k) \<Rightarrow>
               (case (case seg of None \<Rightarrow> Some c | Some s \<Rightarrow> TCPConnection_segment_received s c) of
                  None \<Rightarrow> (Inl Undefined, w\<lparr>sk_datagram_adapter := a, sk_kernel := k\<rparr>)
                | Some c' \<Rightarrow> (Inr (), note_fully_acked c' (w\<lparr>sk_datagram_adapter := a, sk_kernel := k, sk_tcp := Some c'\<rparr>)))))"

definition rule1 :: "('a, 'k) AdaptT \<Rightarrow> ('a, 'k) TCPSpongeSocket Rule" where
  "rule1 ops =
     \<lparr>ru_fd = (\<lambda>w. at_fd ops (sk_datagram_adapter w)), ru_direction = In,
      ru_callback = receive_datagram ops,
      ru_interest = (\<lambda>w. case sk_tcp w of None \<Rightarrow> False | Some c \<Rightarrow> cn_active c),
      ru_cancel = (\<lambda>w. (Inr (), w))\<rparr>"

text \<open>Rule 2: the owner has written bytes, or has closed its side.\<close>

definition short_write :: exn where
  "short_write = Runtime_error ''TCPConnection::write() accepted less than advertised length''"

definition shutdown_outbound :: "('a, 'k) TCPSpongeSocket \<Rightarrow> unit res \<times> ('a, 'k) TCPSpongeSocket" where
  "shutdown_outbound w =
     (case sk_tcp w of
        None \<Rightarrow> (Inl Undefined, w)
      | Some c \<Rightarrow>
          (case TCPConnection_end_input_stream c of
             None \<Rightarrow> (Inl Undefined, w)
           | Some c' \<Rightarrow> (Inr (), w\<lparr>sk_tcp := Some c', sk_outbound_shutdown := True\<rparr>)))"

definition read_outbound :: "'k Syscalls \<Rightarrow> ('a, 'k) TCPSpongeSocket \<Rightarrow> unit res \<times> ('a, 'k) TCPSpongeSocket" where
  "read_outbound sys w =
     (case sk_tcp w of
        None \<Rightarrow> (Inl Undefined, w)
      | Some c \<Rightarrow>
          (case FileDescriptor_read sys (TCPConnection_remaining_outbound_capacity c) (sk_thread_data w) (sk_kernel w) of
             (Inl e, fd, k) \<Rightarrow> (Inl e, w\<lparr>sk_thread_data := fd, sk_kernel := k\<rparr>)
           | (Inr data, fd, k) \<Rightarrow>
               let w' = w\<lparr>sk_thread_data := fd, sk_kernel := k\<rparr>
               in (case TCPConnection_write data c of
                     None \<Rightarrow> (Inl Undefined, w')
                   | Some (amount_written, c') \<Rightarrow>
                       let w'' = w'\<lparr>sk_tcp := Some c'\<rparr>
                       in if amount_written \<noteq> str_size data then (Inl short_write, w'')
                          else if fd_eof fd then shutdown_outbound w''
                          else (Inr (), w''))))"

definition rule2 :: "'k Syscalls \<Rightarrow> ('a, 'k) TCPSpongeSocket Rule" where
  "rule2 sys =
     \<lparr>ru_fd = sk_thread_data, ru_direction = In,
      ru_callback = read_outbound sys,
      ru_interest = (\<lambda>w. case sk_tcp w of None \<Rightarrow> False
         | Some c \<Rightarrow> cn_active c \<and> \<not> sk_outbound_shutdown w \<and> TCPConnection_remaining_outbound_capacity c > 0),
      ru_cancel = shutdown_outbound\<rparr>"

text \<open>Rule 3: bytes for the owner; \<open>write\<close> may take only some of them.\<close>

definition shutdown_inbound ::
  "'k Syscalls \<Rightarrow> TCPConnection \<Rightarrow> ('a, 'k) TCPSpongeSocket \<Rightarrow> unit res \<times> ('a, 'k) TCPSpongeSocket" where
  "shutdown_inbound sys c w =
     (if ByteStream_eof (inbound_stream c) \<or> bs_error (inbound_stream c)
      then
        (case Socket_shutdown sys SHUT_WR (sk_thread_data w) (sk_kernel w) of
           (Inl e, fd, k) \<Rightarrow> (Inl e, w\<lparr>sk_thread_data := fd, sk_kernel := k\<rparr>)
         | (Inr _, fd, k) \<Rightarrow> (Inr (), w\<lparr>sk_thread_data := fd, sk_kernel := k, sk_inbound_shutdown := True\<rparr>))
      else (Inr (), w))"

definition write_inbound :: "'k Syscalls \<Rightarrow> ('a, 'k) TCPSpongeSocket \<Rightarrow> unit res \<times> ('a, 'k) TCPSpongeSocket" where
  "write_inbound sys w =
     (case sk_tcp w of
        None \<Rightarrow> (Inl Undefined, w)
      | Some c \<Rightarrow>
          let inbound = inbound_stream c;
              amount_to_write = min 65536 (ByteStream_buffer_size inbound);
              buffer = ByteStream_peek_output amount_to_write inbound
          in (case FileDescriptor_write sys [buffer] False (sk_thread_data w) (sk_kernel w) of
                (Inl e, fd, k) \<Rightarrow> (Inl e, w\<lparr>sk_thread_data := fd, sk_kernel := k\<rparr>)
              | (Inr bytes_written, fd, k) \<Rightarrow>
                  let w' = w\<lparr>sk_thread_data := fd, sk_kernel := k\<rparr>
                  in (case ByteStream_pop_output bytes_written inbound of
                        None \<Rightarrow> (Inl Undefined, w')
                      | Some inbound' \<Rightarrow>
                          let c' = set_inbound_stream inbound' c
                          in shutdown_inbound sys c' (w'\<lparr>sk_tcp := Some c'\<rparr>))))"

definition rule3 :: "'k Syscalls \<Rightarrow> ('a, 'k) TCPSpongeSocket Rule" where
  "rule3 sys =
     \<lparr>ru_fd = sk_thread_data, ru_direction = Out,
      ru_callback = write_inbound sys,
      ru_interest = (\<lambda>w. case sk_tcp w of None \<Rightarrow> False
         | Some c \<Rightarrow> \<not> ByteStream_buffer_empty (inbound_stream c) \<or>
             (ByteStream_eof (inbound_stream c) \<or> bs_error (inbound_stream c)) \<and> \<not> sk_inbound_shutdown w),
      ru_cancel = (\<lambda>w. (Inr (), w))\<rparr>"

text \<open>Rule 4: segments to send; a segment leaves the queue after it was written.\<close>

fun write_segments ::
  "('a, 'k) AdaptT \<Rightarrow> TCPSegment list \<Rightarrow> 'a \<Rightarrow> 'k \<Rightarrow> unit res \<times> TCPSegment list \<times> 'a \<times> 'k" where
  "write_segments ops [] a k = (Inr (), [], a, k)"
| "write_segments ops (seg # segs) a k =
     (case at_write ops seg a k of
        (Inl e, a', k') \<Rightarrow> (Inl e, seg # segs, a', k')
      | (Inr _, a', k') \<Rightarrow> write_segments ops segs a' k')"

definition send_segments :: "('a, 'k) AdaptT \<Rightarrow> ('a, 'k) TCPSpongeSocket \<Rightarrow> unit res \<times> ('a, 'k) TCPSpongeSocket" where
  "send_segments ops w =
     (case sk_tcp w of
        None \<Rightarrow> (Inl Undefined, w)
      | Some c \<Rightarrow>
          (case write_segments ops (cn_segments_out c) (sk_datagram_adapter w) (sk_kernel w) of
             (r, segs, a, k) \<Rightarrow>
               (r, w\<lparr>sk_datagram_adapter := a, sk_kernel := k, sk_tcp := Some (c\<lparr>cn_segments_out := segs\<rparr>)\<rparr>)))"

definition rule4 :: "('a, 'k) AdaptT \<Rightarrow> ('a, 'k) TCPSpongeSocket Rule" where
  "rule4 ops =
     \<lparr>ru_fd = (\<lambda>w. at_fd ops (sk_datagram_adapter w)), ru_direction = Out,
      ru_callback = send_segments ops,
      ru_interest = (\<lambda>w. case sk_tcp w of None \<Rightarrow> False | Some c \<Rightarrow> cn_segments_out c \<noteq> []),
      ru_cancel = (\<lambda>w. (Inr (), w))\<rparr>"

definition socket_rules :: "'k Syscalls \<Rightarrow> ('a, 'k) AdaptT \<Rightarrow> ('a, 'k) TCPSpongeSocket Rule list" where
  "socket_rules sys ops =
     EventLoop_add_rule (rule4 ops) (EventLoop_add_rule (rule3 sys) (EventLoop_add_rule (rule2 sys)
       (EventLoop_add_rule (rule1 ops) [])))"

definition initialize_TCP :: "TCPConfig \<Rightarrow> u32 \<Rightarrow> ('a, 'k) TCPSpongeSocket \<Rightarrow> ('a, 'k) TCPSpongeSocket" where
  "initialize_TCP config random w = w\<lparr>sk_tcp := Some (TCPConnection_new config random)\<rparr>"

subsection \<open>The thread\<close>

definition socket_poll :: "'k Syscalls \<Rightarrow> ('a, 'k) TCPSpongeSocket poll" where
  "socket_poll sys pfds t w = (case sys_poll sys pfds t (sk_kernel w) of (x, k) \<Rightarrow> (x, w\<lparr>sk_kernel := k\<rparr>))"

text \<open>
  What the loop does after a turn: while the connection is active, the time that has passed goes
  to the connection and to the adapter. The result holds the time of the last tick.
\<close>

definition tick_socket ::
  "'k Syscalls \<Rightarrow> ('a, 'k) AdaptT \<Rightarrow> u64 \<Rightarrow> ('a, 'k) TCPSpongeSocket \<Rightarrow> u64 res \<times> ('a, 'k) TCPSpongeSocket" where
  "tick_socket sys ops base_time w =
     (case sk_tcp w of
        None \<Rightarrow> (Inl (Runtime_error ''bad_optional_access''), w)
      | Some c \<Rightarrow>
          if cn_active c
          then
            let (next_time, k) = sys_clock sys (sk_kernel w);
                c' = TCPConnection_tick (next_time - base_time) c
            in (case at_tick ops (next_time - base_time) (sk_datagram_adapter w) k of
                  (Inl e, a, k') \<Rightarrow> (Inl e, w\<lparr>sk_tcp := Some c', sk_datagram_adapter := a, sk_kernel := k'\<rparr>)
                | (Inr _, a, k') \<Rightarrow> (Inr next_time, w\<lparr>sk_tcp := Some c', sk_datagram_adapter := a, sk_kernel := k'\<rparr>))
          else (Inr base_time, w))"

text \<open>The loop may run for ever.\<close>

partial_function (option) tcp_loop ::
  "'k Syscalls \<Rightarrow> ('a, 'k) AdaptT \<Rightarrow> (('a, 'k) TCPSpongeSocket \<Rightarrow> bool) \<Rightarrow> u64 \<Rightarrow> ('a, 'k) TCPSpongeSocket Rule list \<Rightarrow>
     ('a, 'k) TCPSpongeSocket \<Rightarrow> (unit res \<times> ('a, 'k) TCPSpongeSocket Rule list \<times> ('a, 'k) TCPSpongeSocket) option" where
  "tcp_loop sys ops condition base_time rules w =
     (if condition w
      then
        (case wait_next_event (socket_poll sys) TCP_TICK_MS rules w of
           (Inl e, rules', w') \<Rightarrow> Some (Inl e, rules', w')
         | (Inr ret, rules', w') \<Rightarrow>
             if ret = Exit \<or> sk_abort w' then Some (Inr (), rules', w')
             else
               (case tick_socket sys ops base_time w' of
                  (Inl e, w'') \<Rightarrow> Some (Inl e, rules', w'')
                | (Inr base_time', w'') \<Rightarrow> tcp_loop sys ops condition base_time' rules' w''))
      else Some (Inr (), rules, w))"

definition run_tcp_loop ::
  "'k Syscalls \<Rightarrow> ('a, 'k) AdaptT \<Rightarrow> (('a, 'k) TCPSpongeSocket \<Rightarrow> bool) \<Rightarrow> ('a, 'k) TCPSpongeSocket Rule list \<Rightarrow>
     ('a, 'k) TCPSpongeSocket \<Rightarrow> (unit res \<times> ('a, 'k) TCPSpongeSocket Rule list \<times> ('a, 'k) TCPSpongeSocket) option" where
  "run_tcp_loop sys ops condition rules w =
     (let (base_time, k) = sys_clock sys (sk_kernel w)
      in tcp_loop sys ops condition base_time rules (w\<lparr>sk_kernel := k\<rparr>))"

subsection \<open>Interface of the owner\<close>

definition in_state :: "State list \<Rightarrow> ('a, 'k) TCPSpongeSocket \<Rightarrow> bool" where
  "in_state ss w =
     (case sk_tcp w of None \<Rightarrow> False
      | Some c \<Rightarrow> list_ex (\<lambda>s. TCPState_eq (TCPConnection_state c) (TCPState_of_State s)) ss)"

text \<open>
  \<open>connect\<close> and \<open>listen_and_accept\<close> return when the handshake is over or the loop has ended; the
  thread that they then start runs \<open>tcp_main\<close>.
\<close>

definition wrong_state :: "TCPState \<Rightarrow> exn" where
  "wrong_state s = Runtime_error (''After TCPConnection::connect(), state was '' @ TCPState_name s @ '' but expected '' @
     TCPState_name (TCPState_of_State SYN_SENT))"

definition TCPSpongeSocket_connect ::
  "'k Syscalls \<Rightarrow> ('a, 'k) AdaptT \<Rightarrow> TCPConfig \<Rightarrow> FdAdapterConfig \<Rightarrow> u32 \<Rightarrow> ('a, 'k) TCPSpongeSocket Rule list \<Rightarrow>
     ('a, 'k) TCPSpongeSocket \<Rightarrow> (unit res \<times> ('a, 'k) TCPSpongeSocket Rule list \<times> ('a, 'k) TCPSpongeSocket) option" where
  "TCPSpongeSocket_connect sys ops c_tcp c_ad random rules0 w0 =
     (if sk_tcp w0 \<noteq> None
      then Some (Inl (Runtime_error ''connect() with TCPConnection already initialized''), rules0, w0)
      else
        let rules = rules0 @ socket_rules sys ops;
            w1 = initialize_TCP c_tcp random w0;
            w2 = w1\<lparr>sk_datagram_adapter := at_set_config ops c_ad (sk_datagram_adapter w1)\<rparr>
        in (case TCPConnection_connect (TCPConnection_new c_tcp random) of
              None \<Rightarrow> Some (Inl Undefined, rules, w2)
            | Some c \<Rightarrow>
                let w3 = w2\<lparr>sk_tcp := Some c\<rparr>
                in if TCPState_neq (TCPConnection_state c) (TCPState_of_State SYN_SENT)
                   then Some (Inl (wrong_state (TCPConnection_state c)), rules, w3)
                   else run_tcp_loop sys ops (in_state [SYN_SENT]) rules w3))"

definition TCPSpongeSocket_listen_and_accept ::
  "'k Syscalls \<Rightarrow> ('a, 'k) AdaptT \<Rightarrow> TCPConfig \<Rightarrow> FdAdapterConfig \<Rightarrow> u32 \<Rightarrow> ('a, 'k) TCPSpongeSocket Rule list \<Rightarrow>
     ('a, 'k) TCPSpongeSocket \<Rightarrow> (unit res \<times> ('a, 'k) TCPSpongeSocket Rule list \<times> ('a, 'k) TCPSpongeSocket) option" where
  "TCPSpongeSocket_listen_and_accept sys ops c_tcp c_ad random rules0 w0 =
     (if sk_tcp w0 \<noteq> None
      then Some (Inl (Runtime_error ''listen_and_accept() with TCPConnection already initialized''), rules0, w0)
      else
        let rules = rules0 @ socket_rules sys ops;
            w1 = initialize_TCP c_tcp random w0;
            w2 = w1\<lparr>sk_datagram_adapter := at_set_listening ops True (at_set_config ops c_ad (sk_datagram_adapter w1))\<rparr>
        in run_tcp_loop sys ops (in_state [LISTEN, SYN_RCVD, SYN_SENT]) rules w2)"

text \<open>The thread ends by shutting the socket of the owner down and destroying the connection.\<close>

definition tcp_main ::
  "'k Syscalls \<Rightarrow> ('a, 'k) AdaptT \<Rightarrow> ('a, 'k) TCPSpongeSocket Rule list \<Rightarrow> ('a, 'k) TCPSpongeSocket \<Rightarrow>
     (unit res \<times> ('a, 'k) TCPSpongeSocket Rule list \<times> ('a, 'k) TCPSpongeSocket) option" where
  "tcp_main sys ops rules w =
     (if sk_tcp w = None then Some (Inl (Runtime_error ''no TCP''), rules, w)
      else
        (case run_tcp_loop sys ops (\<lambda>_. True) rules w of
           None \<Rightarrow> None
         | Some (Inl e, rules', w') \<Rightarrow> Some (Inl e, rules', w')
         | Some (Inr _, rules', w') \<Rightarrow>
             (case Socket_shutdown sys SHUT_RDWR (sk_fd w') (sk_kernel w') of
                (Inl e, fd, k) \<Rightarrow> Some (Inl e, rules', w'\<lparr>sk_fd := fd, sk_kernel := k\<rparr>)
              | (Inr _, fd, k) \<Rightarrow> Some (Inr (), rules', w'\<lparr>sk_fd := fd, sk_kernel := k, sk_tcp := None\<rparr>))))"

text \<open>The destructor tells a running thread to stop and waits for it; \<open>joinable\<close> says that it runs.\<close>

definition TCPSpongeSocket_destroy :: "bool \<Rightarrow> ('a, 'k) TCPSpongeSocket \<Rightarrow> ('a, 'k) TCPSpongeSocket" where
  "TCPSpongeSocket_destroy joinable w = (if joinable then w\<lparr>sk_abort := True\<rparr> else w)"

definition wait_until_closed :: "'k Syscalls \<Rightarrow> ('a, 'k) TCPSpongeSocket \<Rightarrow> unit res \<times> ('a, 'k) TCPSpongeSocket" where
  "wait_until_closed sys w =
     (case Socket_shutdown sys SHUT_RDWR (sk_fd w) (sk_kernel w) of
        (r, fd, k) \<Rightarrow> (r, w\<lparr>sk_fd := fd, sk_kernel := k\<rparr>))"

definition random_private_ethernet_address :: "bytes \<Rightarrow> EthernetAddress" where
  "random_private_ethernet_address addr =
     (let addr = addr[0 := addr ! 0 OR 0x02] in addr[0 := addr ! 0 AND 0xfe])"

definition CS144TCPSocket_connect ::
  "'k Syscalls \<Rightarrow> Address \<Rightarrow> u16 \<Rightarrow> u32 \<Rightarrow> (TCPOverIPv4OverTunFdAdapter, 'k) TCPSpongeSocket Rule list \<Rightarrow>
     (TCPOverIPv4OverTunFdAdapter, 'k) TCPSpongeSocket \<Rightarrow>
     (unit res \<times> (TCPOverIPv4OverTunFdAdapter, 'k) TCPSpongeSocket Rule list \<times> (TCPOverIPv4OverTunFdAdapter, 'k) TCPSpongeSocket) option" where
  "CS144TCPSocket_connect sys address random_port random rules w =
     (let tcp_config = TCPConfig_default\<lparr>cf_rt_timeout := 100\<rparr>;
          multiplexer_config = FdAdapterConfig_default\<lparr>ac_source := \<lparr>ad_ip = quad 169 254 144 9, ad_port = random_port\<rparr>,
            ac_destination := address\<rparr>
      in TCPSpongeSocket_connect sys (tun_adapter sys) tcp_config multiplexer_config random rules w)"

definition LOCAL_TAP_IP_ADDRESS :: u32 where
  "LOCAL_TAP_IP_ADDRESS = quad 169 254 10 9"

definition LOCAL_TAP_NEXT_HOP_ADDRESS :: u32 where
  "LOCAL_TAP_NEXT_HOP_ADDRESS = quad 169 254 10 1"

definition FullStackSocket_connect ::
  "'k Syscalls \<Rightarrow> EthernetFrame \<Rightarrow> Address \<Rightarrow> u16 \<Rightarrow> u32 \<Rightarrow> (TCPOverIPv4OverEthernetAdapter, 'k) TCPSpongeSocket Rule list \<Rightarrow>
     (TCPOverIPv4OverEthernetAdapter, 'k) TCPSpongeSocket \<Rightarrow>
     (unit res \<times> (TCPOverIPv4OverEthernetAdapter, 'k) TCPSpongeSocket Rule list \<times> (TCPOverIPv4OverEthernetAdapter, 'k) TCPSpongeSocket) option" where
  "FullStackSocket_connect sys frame0 address random_port random rules w =
     (let tcp_config = TCPConfig_default\<lparr>cf_rt_timeout := 100\<rparr>;
          multiplexer_config = FdAdapterConfig_default\<lparr>ac_source := \<lparr>ad_ip = LOCAL_TAP_IP_ADDRESS, ad_port = random_port\<rparr>,
            ac_destination := address\<rparr>
      in TCPSpongeSocket_connect sys (ethernet_adapter sys frame0) tcp_config multiplexer_config random rules w)"

section \<open>What the socket relies on in an adapter\<close>

text \<open>
  A read that returns has used the descriptor of the adapter, which the event loop checks; and
  the adapter throws only exceptions of the layers below.
\<close>

definition adapter_throws :: "exn \<Rightarrow> bool" where
  "adapter_throws e \<longleftrightarrow> no_bug e \<and> e \<noteq> short_write \<and> (\<forall>s. e \<noteq> wrong_state s)"

locale datagram_adapter =
  fixes ops :: "('a, 'k) AdaptT"
  assumes read_law: "at_read ops a k = (res, a', k') \<Longrightarrow>
      (case res of Inl e \<Rightarrow> adapter_throws e | Inr _ \<Rightarrow> fd_read_count (at_fd ops a') = fd_read_count (at_fd ops a) + 1)"
    and write_law: "at_write ops seg a k = (r, a', k') \<Longrightarrow> (case r of Inl e \<Rightarrow> adapter_throws e | Inr _ \<Rightarrow> True)"
    and tick_law: "at_tick ops ms a k = (r, a', k') \<Longrightarrow> (case r of Inl e \<Rightarrow> adapter_throws e | Inr _ \<Rightarrow> True)"

lemma fd_throws_adapter: "fd_throws e \<Longrightarrow> adapter_throws e"
  by (auto simp: adapter_throws_def fd_throws_no_bug) (auto simp: fd_throws_def short_write_def wrong_state_def)

lemma serialize_throws:
  "TCPSegment_serialize seg c = Inl e \<Longrightarrow> adapter_throws e"
  "IPv4Datagram_serialize d = Inl e \<Longrightarrow> adapter_throws e"
  "ARPMessage_serialize m = Inl e \<Longrightarrow> adapter_throws e"
  "BufferList_to_Buffer bl = Inl e \<Longrightarrow> adapter_throws e"
  by (auto simp: TCPSegment_serialize_def TCPHeader_serialize_def IPv4Datagram_serialize_def IPv4Header_serialize_def
      ARPMessage_serialize_def BufferList_to_Buffer_def Let_def adapter_throws_def no_bug_def busy_wait_def short_write_def wrong_state_def
      split: if_splits sum.splits list.splits)

lemma unwrap_throws: "unwrap_tcp_in_ip d a = (Inl e, a') \<Longrightarrow> adapter_throws e"
  by (auto simp: unwrap_tcp_in_ip_def Let_def split: if_splits sum.splits prod.splits intro: serialize_throws)

lemma wrap_throws: "wrap_tcp_in_ip seg a = (Inl e, seg') \<Longrightarrow> adapter_throws e"
  by (auto simp: wrap_tcp_in_ip_def Let_def split: sum.splits intro: serialize_throws)

lemma udp_read_law:
  assumes "TCPOverUDPSocketAdapter_read sys a k = (res, a', k')"
  shows "case res of Inl e \<Rightarrow> adapter_throws e | Inr _ \<Rightarrow> fd_read_count (ua_sock a') = fd_read_count (ua_sock a) + 1"
proof -
  obtain r w k1 where u: "UDPSocket_recv sys 65536 (ua_sock a) k = (r, w, k1)" by (metis prod_cases3)
  have "case r of Inl e \<Rightarrow> adapter_throws e | Inr _ \<Rightarrow> w = register_read (ua_sock a)"
    using u by (auto simp: UDPSocket_recv_def Let_def adapter_throws_def no_bug_def busy_wait_def short_write_def wrong_state_def
        split: sum.splits if_splits prod.splits dest!: SystemCall_throws fd_throws_adapter)
  then show ?thesis using assms
    by (cases r) (auto simp: TCPOverUDPSocketAdapter_read_def u set_listening_def register_read_def Let_def split: if_splits prod.splits)
qed

lemma sendto_throws: "UDPSocket_sendto sys a vs w k = (Inl e, w', k') \<Longrightarrow> adapter_throws e"
  by (auto simp: UDPSocket_sendto_def sendmsg_helper_def Let_def adapter_throws_def no_bug_def busy_wait_def short_write_def wrong_state_def
      split: sum.splits prod.splits if_splits dest!: SystemCall_throws fd_throws_adapter)

lemma udp_write_law:
  assumes "TCPOverUDPSocketAdapter_write sys seg a k = (res, a', k')"
  shows "case res of Inl e \<Rightarrow> adapter_throws e | Inr _ \<Rightarrow> True"
  using assms
  by (auto simp: TCPOverUDPSocketAdapter_write_def serialize_throws split: sum.splits prod.splits dest: sendto_throws)

lemma unwrap_base:
  assumes "P a" and "\<And>cfg. P (set_listening False (a\<lparr>fa_cfg := cfg\<rparr>))"
  shows "P (snd (unwrap_tcp_in_ip d a))"
  using assms by (simp add: unwrap_tcp_in_ip_def Let_def split: sum.split prod.split)

lemma unwrap_tun: "unwrap_tcp_in_ip d (a :: TCPOverIPv4OverTunFdAdapter) = (r, a') \<Longrightarrow> ta_tun a' = ta_tun a"
  using unwrap_base [of "\<lambda>b. ta_tun b = ta_tun a" a d] by (simp add: set_listening_def)

lemma unwrap_ethernet: "unwrap_tcp_in_ip d (a :: TCPOverIPv4OverEthernetAdapter) = (r, a') \<Longrightarrow> ea_tap a' = ea_tap a"
  using unwrap_base [of "\<lambda>b. ea_tap b = ea_tap a" a d] by (simp add: set_listening_def)

lemma tun_read_law:
  assumes "TunFdAdapter_read sys a k = (res, a', k')"
  shows "case res of Inl e \<Rightarrow> adapter_throws e | Inr _ \<Rightarrow> fd_read_count (ta_tun a') = fd_read_count (ta_tun a) + 1"
proof -
  obtain r w k1 where f: "FileDescriptor_read sys (-1) (ta_tun a) k = (r, w, k1)" by (metis prod_cases3)
  show ?thesis
  proof (cases r)
    case (Inl e)
    from fd_throws_adapter [OF read_throws [OF f [unfolded Inl]]] show ?thesis
      using assms by (auto simp: TunFdAdapter_read_def f Inl)
  next
    case (Inr d)
    obtain result dg where p: "IPv4Datagram_parse IPv4Datagram_default (Buffer_of d) = (result, dg)" by fastforce
    obtain q a1 where u: "unwrap_tcp_in_ip dg (a\<lparr>ta_tun := w\<rparr>) = (q, a1)" by fastforce
    have "ta_tun a1 = w" using unwrap_tun [OF u] by simp
    moreover have "fd_read_count w = fd_read_count (ta_tun a) + 1" using read_result [OF f [unfolded Inr]] by simp
    moreover have "case q of Inl e \<Rightarrow> adapter_throws e | Inr _ \<Rightarrow> True" using u unwrap_throws by (cases q) auto
    ultimately show ?thesis using assms by (auto simp: TunFdAdapter_read_def f Inr p u split: if_splits sum.splits)
  qed
qed

lemma write_fd_throws: "FileDescriptor_write sys vs b w k = (Inl e, w', k') \<Longrightarrow> adapter_throws e"
  using write_loop_result [of sys b vs 0 w k "Inl e" w' k'] by (simp add: FileDescriptor_write_def fd_throws_adapter)

lemma write_fd_reads: "FileDescriptor_write sys vs b w k = (r, w', k') \<Longrightarrow> fd_read_count w' = fd_read_count w"
  using write_loop_result [of sys b vs 0 w k r w' k'] by (simp add: FileDescriptor_write_def)

lemma map_sum_Inl: "map_sum id f x = Inl e \<longleftrightarrow> x = Inl e"
  by (cases x) auto

lemma tun_write_law:
  assumes "TunFdAdapter_write sys seg a k = (res, a', k')"
  shows "case res of Inl e \<Rightarrow> adapter_throws e | Inr _ \<Rightarrow> True"
  using assms
  by (cases "wrap_tcp_in_ip seg a")
     (auto simp: TunFdAdapter_write_def map_sum_Inl split: sum.splits prod.splits
        dest: write_fd_throws wrap_throws serialize_throws)

lemma send_frames_result:
  assumes "send_frames sys fs w k = (r, fs', w', k')"
  shows "(case r of Inl e \<Rightarrow> adapter_throws e | Inr _ \<Rightarrow> True) \<and> fd_read_count w' = fd_read_count w"
  using assms
proof (induction sys fs w k rule: send_frames.induct)
  case (2 sys f fs w k)
  obtain a w1 k1 where f: "FileDescriptor_write sys (BufferViewList_of (EthernetFrame_serialize f)) True w k = (a, w1, k1)"
    by (metis prod_cases3)
  show ?case
  proof (cases a)
    case (Inl e)
    with "2.prems" f write_fd_throws [OF f [unfolded Inl]] write_fd_reads [OF f] show ?thesis by auto
  next
    case (Inr n)
    with "2.prems" f write_fd_reads [OF f] "2.IH" [of a "(w1, k1)" n w1 k1] show ?thesis by auto
  qed
qed auto

lemma send_pending_result:
  assumes "send_pending sys a k = (r, a', k')"
  shows "(case r of Inl e \<Rightarrow> adapter_throws e | Inr _ \<Rightarrow> True) \<and> fd_read_count (ea_tap a') = fd_read_count (ea_tap a)"
  using assms by (auto simp: send_pending_def split: prod.splits dest!: send_frames_result)

lemma send_unsent_throws: "send_unsent dst ds n = (Some e, n') \<Longrightarrow> adapter_throws e"
  by (induction dst ds n rule: send_unsent.induct) (auto split: sum.splits dest: serialize_throws)

lemma interface_throws:
  "receive_arp m n = (Some e, n') \<Longrightarrow> adapter_throws e"
  "NetworkInterface_send_datagram d ip n = (Some e, n') \<Longrightarrow> adapter_throws e"
  "send_arp_request ip n = (Some e, n') \<Longrightarrow> adapter_throws e"
  by (auto simp: receive_arp_def NetworkInterface_send_datagram_def send_arp_request_def Let_def
      split: sum.splits prod.splits option.splits if_splits dest: serialize_throws send_unsent_throws)

lemma recv_frame_throws: "NetworkInterface_recv_frame f n = (Inl e, n') \<Longrightarrow> adapter_throws e"
  by (auto simp: NetworkInterface_recv_frame_def Let_def
      split: sum.splits prod.splits option.splits if_splits dest: serialize_throws interface_throws)

lemma ethernet_read_law:
  assumes "EthernetAdapter_read sys frame0 a k = (res, a', k')"
  shows "case res of Inl e \<Rightarrow> adapter_throws e | Inr _ \<Rightarrow> fd_read_count (ea_tap a') = fd_read_count (ea_tap a) + 1"
proof -
  obtain r w k1 where f: "FileDescriptor_read sys (-1) (ea_tap a) k = (r, w, k1)" by (metis prod_cases3)
  show ?thesis
  proof (cases r)
    case (Inl e)
    from fd_throws_adapter [OF read_throws [OF f [unfolded Inl]]] show ?thesis
      using assms by (auto simp: EthernetAdapter_read_def f Inl)
  next
    case (Inr d)
    obtain result frame where p: "EthernetFrame_parse frame0 (Buffer_of d) = (result, frame)" by fastforce
    obtain q n where i: "NetworkInterface_recv_frame frame (ea_interface a) = (q, n)" by fastforce
    obtain t a1 k2 where s: "send_pending sys (a\<lparr>ea_tap := w, ea_interface := n\<rparr>) k1 = (t, a1, k2)" by (metis prod_cases3)
    have c: "fd_read_count w = fd_read_count (ea_tap a) + 1" using read_result [OF f [unfolded Inr]] by simp
    have q: "case q of Inl e \<Rightarrow> adapter_throws e | Inr _ \<Rightarrow> True" using i recv_frame_throws by (cases q) auto
    have t: "case t of Inl e \<Rightarrow> adapter_throws e | Inr _ \<Rightarrow> True" "fd_read_count (ea_tap a1) = fd_read_count w"
      using send_pending_result [OF s] by simp_all
    have u: "(case u of Inl e \<Rightarrow> adapter_throws e | Inr _ \<Rightarrow> True) \<and> ea_tap a2 = ea_tap a1"
      if "unwrap_tcp_in_ip dg a1 = (u, a2)" for dg u a2
      using that unwrap_throws unwrap_ethernet [OF that] by (cases u) auto
    show ?thesis using assms c q t
      by (auto simp: EthernetAdapter_read_def Let_def f Inr p i s split: if_splits sum.splits option.splits prod.splits dest!: u)
  qed
qed

lemma ethernet_write_law:
  assumes "EthernetAdapter_write sys seg a k = (res, a', k')"
  shows "case res of Inl e \<Rightarrow> adapter_throws e | Inr _ \<Rightarrow> True"
  using assms
  by (cases "wrap_tcp_in_ip seg a")
     (auto simp: EthernetAdapter_write_def split: sum.splits prod.splits option.splits
        dest: wrap_throws interface_throws dest!: send_pending_result)

lemma ethernet_tick_law:
  assumes "EthernetAdapter_tick sys ms a k = (res, a', k')"
  shows "case res of Inl e \<Rightarrow> adapter_throws e | Inr _ \<Rightarrow> True"
  using assms by (auto simp: EthernetAdapter_tick_def split: sum.splits dest!: send_pending_result)

lemma base_tick_law: "FdAdapterBase_tick ms a k = (res, a', k') \<Longrightarrow> res = Inr ()"
  by (simp add: FdAdapterBase_tick_def)

interpretation udp: datagram_adapter "udp_adapter sys"
  by unfold_locales (auto simp: udp_adapter_def split: sum.splits dest!: udp_read_law udp_write_law base_tick_law)

interpretation tun: datagram_adapter "tun_adapter sys"
  by unfold_locales (auto simp: tun_adapter_def split: sum.splits dest!: tun_read_law tun_write_law base_tick_law)

interpretation ethernet: datagram_adapter "ethernet_adapter sys frame0"
  by unfold_locales (auto simp: ethernet_adapter_def split: sum.splits
      dest!: ethernet_read_law ethernet_write_law ethernet_tick_law)

text \<open>An adapter that loses datagrams promises what the adapter inside it promises.\<close>

context datagram_adapter
begin

lemma lossy_laws: "datagram_adapter (lossy_adapter rand ops)"
proof (unfold_locales, goal_cases)
  case (1 a k res a' k')
  obtain r b l where r: "at_read ops (la_adapter a) k = (r, b, l)" by (metis prod_cases3)
  show ?case using 1 read_law [OF r]
    by (auto simp: lossy_adapter_def LossyFdAdapter_read_def r split: sum.splits prod.splits if_splits)
next
  case (2 seg a k res a' k')
  then show ?case
    by (auto simp: lossy_adapter_def LossyFdAdapter_write_def split: sum.splits prod.splits if_splits dest!: write_law)
next
  case (3 ms a k res a' k')
  then show ?case by (auto simp: lossy_adapter_def split: sum.splits prod.splits dest!: tick_law)
qed

end

interpretation lossy_udp: datagram_adapter "lossy_adapter rand (udp_adapter sys)"
  by (rule udp.lossy_laws)

interpretation lossy_tun: datagram_adapter "lossy_adapter rand (tun_adapter sys)"
  by (rule tun.lossy_laws)

end
