(* ===== verification/Socket_Thread.thy ===== *)
theory Socket_Thread
  imports TCP_Socket
begin

text \<open>
  The thread of a \<open>TCPSpongeSocket\<close>. The rules of its event loop keep an invariant of the socket,
  for every adapter that keeps the laws of \<open>datagram_adapter\<close>: they are \<open>event_rules\<close>, and so no
  turn of the loop traps, waits busily, or finds the connection to take less than it advertised.
\<close>

section \<open>What the operations of a connection leave alone\<close>

lemma write_capacity [simp]: "bs_capacity (snd (ByteStream_write d bs)) = bs_capacity bs"
  by (simp add: ByteStream_write_def Let_def split: prod.split)

lemma assemble_loop_capacity:
  "assemble_loop cache u h bs = (cache', u', h', bs') \<Longrightarrow> bs_capacity bs' = bs_capacity bs"
proof (induction cache arbitrary: u h bs)
  case (Cons it cache)
  obtain n bs1 where "ByteStream_write (snd it) bs = (n, bs1)" by fastforce
  moreover from this have "bs_capacity bs1 = bs_capacity bs" using write_capacity [of "snd it" bs] by simp
  ultimately show ?case using Cons by (auto simp: Let_def split: if_splits)
qed simp

lemma push_substring_capacity [simp]: "bs_capacity (sr_output (push_substring d i e r)) = bs_capacity (sr_output r)"
  by (auto simp: push_substring_def Let_def end_if_done_def assemble_string_def ByteStream_end_input_def
      split: prod.split dest!: assemble_loop_capacity)

lemma segment_received_capacity [simp]:
  "bs_capacity (TCPReceiver_stream_out (TCPReceiver_segment_received seg t)) = bs_capacity (TCPReceiver_stream_out t)"
  by (simp add: TCPReceiver_segment_received_def TCPReceiver_stream_out_def Let_def)

text \<open>Progress of the connection that keeps the room of the reader and the end of the writer.\<close>

definition conn_frame :: "TCPConnection \<Rightarrow> TCPConnection \<Rightarrow> bool" where
  "conn_frame c c' \<longleftrightarrow> conn_ok c' \<and> bs_capacity (inbound_stream c') = bs_capacity (inbound_stream c) \<and>
     bs_input_ended (se_stream (cn_sender c')) = bs_input_ended (se_stream (cn_sender c))"

lemma fill_window_ended:
  assumes "sender_ok (cn_sender c)" and "conn_fill_window c = Some c'"
  shows "bs_input_ended (se_stream (cn_sender c')) = bs_input_ended (se_stream (cn_sender c))"
proof -
  obtain s' gs where "conn_fill_window c = Some (c\<lparr>cn_sender := s'\<rparr>)" "filled (cn_sender c) gs s'"
    using assms(1) by (rule conn_fill_window_ok)
  then show ?thesis using assms(2) by (simp add: filled_def)
qed

lemma set_rst_kept [simp]:
  "bs_capacity (inbound_stream (set_rst_state c)) = bs_capacity (inbound_stream c)"
  "bs_input_ended (se_stream (cn_sender (set_rst_state c))) = bs_input_ended (se_stream (cn_sender c))"
  by (simp_all add: set_rst_state_def inbound_stream_def TCPReceiver_stream_out_def ByteStream_set_error_def Let_def)

lemma segment_received_frame:
  assumes "conn_ok c"
  shows "\<exists>c'. TCPConnection_segment_received seg c = Some c' \<and> conn_frame c c'"
proof -
  obtain c' where c': "TCPConnection_segment_received seg c = Some c'" "conn_ok c'"
    using segment_received_progress [OF assms, of seg] conn_progressD by blast
  define d where "d = take_segment seg (c\<lparr>cn_seg_received_time_ms := cn_now_time_ms c\<rparr>)"
  have s: "sender_ok (cn_sender d)" using assms sender_ok_ack_received by (auto simp: d_def take_segment_def Let_def conn_ok_iff)
  have d: "bs_capacity (TCPReceiver_stream_out (cn_receiver d)) = bs_capacity (inbound_stream c)"
    "se_stream (cn_sender d) = se_stream (cn_sender c)"
    by (simp_all add: d_def take_segment_def Let_def inbound_stream_def)
  have "bs_capacity (inbound_stream c') = bs_capacity (inbound_stream c) \<and>
     bs_input_ended (se_stream (cn_sender c')) = bs_input_ended (se_stream (cn_sender c))"
  proof (cases "th_rst (ts_header seg)")
    case True
    then show ?thesis using c'(1)
      by (auto simp: TCPConnection_segment_received_def) (simp_all add: inbound_stream_def)
  next
    case False
    then show ?thesis using c'(1) d fill_window_ended [OF s]
      by (auto simp: TCPConnection_segment_received_def Let_def d_def [symmetric] inbound_stream_def split: if_splits option.splits)
  qed
  with c' show ?thesis by (simp add: conn_frame_def)
qed

lemma tick_frame: "conn_ok c \<Longrightarrow> conn_frame c (TCPConnection_tick ms c)"
proof -
  assume "conn_ok c"
  then have "conn_ok (TCPConnection_tick ms c)" using tick_progress conn_progressD by blast
  moreover have "bs_capacity (inbound_stream (TCPConnection_tick ms c)) = bs_capacity (inbound_stream c)"
    "bs_input_ended (se_stream (cn_sender (TCPConnection_tick ms c))) = bs_input_ended (se_stream (cn_sender c))"
    by (simp_all add: TCPConnection_tick_def Let_def inbound_stream_def set_rst_state_def TCPReceiver_stream_out_def
        ByteStream_set_error_def send_rst_seg_def)
  ultimately show ?thesis by (simp add: conn_frame_def)
qed

lemma end_input_frame:
  assumes "conn_ok c"
  shows "\<exists>c'. TCPConnection_end_input_stream c = Some c' \<and> conn_ok c' \<and>
    bs_capacity (inbound_stream c') = bs_capacity (inbound_stream c)"
proof -
  obtain c' where c': "TCPConnection_end_input_stream c = Some c'" "conn_ok c'"
    using end_input_progress [OF assms] conn_progressD by blast
  then show ?thesis by (auto simp: TCPConnection_end_input_stream_def inbound_stream_def)
qed

text \<open>A write that fits is taken whole.\<close>

lemma write_frame:
  assumes "conn_ok c" and "length d \<le> unat (TCPConnection_remaining_outbound_capacity c)"
    and "\<not> bs_input_ended (se_stream (cn_sender c))"
  shows "\<exists>c'. TCPConnection_write d c = Some (str_size d, c') \<and> conn_frame c c'"
proof -
  let ?bs = "se_stream (cn_sender c)"
  have l: "length d < 2 ^ 64" using assms(2) unat_lt_64 [of "TCPConnection_remaining_outbound_capacity c"] by simp
  obtain n bs' where w: "ByteStream_write d ?bs = (n, bs')" by fastforce
  have inv: "bs_inv ?bs" using assms(1) by (simp add: conn_ok_def)
  note W = write_spec [OF inv l w]
  have "unat n = length d"
    using W(1) assms(2,3) unat_remaining_capacity [OF inv]
    by (simp add: accepted_def TCPConnection_remaining_outbound_capacity_def)
  then have n: "n = str_size d" using l by (simp add: word_unat_eq_iff str_size_def unat_of_nat)
  obtain m c' where c': "TCPConnection_write d c = Some (m, c')" "conn_ok c'"
    using write_progress [OF assms(1) l] conn_progressD by blast
  let ?d = "c\<lparr>cn_sender := (cn_sender c)\<lparr>se_stream := bs'\<rparr>\<rparr>"
  have s: "sender_ok (cn_sender ?d)" using sender_ok_write [OF _ l w] assms(1) by (simp add: conn_ok_iff)
  have "m = n \<and> bs_capacity (inbound_stream c') = bs_capacity (inbound_stream c) \<and>
      bs_input_ended (se_stream (cn_sender c')) = bs_input_ended ?bs"
    using c'(1) W(7) fill_window_ended [OF s] by (auto simp: TCPConnection_write_def w inbound_stream_def split: option.splits)
  with c' n show ?thesis by (simp add: conn_frame_def)
qed

section \<open>The rules keep an invariant\<close>

text \<open>
  The connection is there and proper, the reader of its inbound stream can take bytes, and its
  outbound stream is ended only after \<open>sk_outbound_shutdown\<close> is set. What rule 2 knows since it
  was interested is that the outbound stream is open.
\<close>

definition thread_ok :: "('a, 'k) TCPSpongeSocket \<Rightarrow> bool" where
  "thread_ok w \<longleftrightarrow>
     (case sk_tcp w of None \<Rightarrow> False
      | Some c \<Rightarrow> conn_ok c \<and> bs_capacity (inbound_stream c) \<noteq> 0 \<and>
          (bs_input_ended (se_stream (cn_sender c)) \<longrightarrow> sk_outbound_shutdown w))"

definition thread_armed :: "nat \<Rightarrow> ('a, 'k) TCPSpongeSocket \<Rightarrow> bool" where
  "thread_armed i w \<longleftrightarrow> (i = 1 \<longrightarrow> \<not> sk_outbound_shutdown w)"

lemma thread_okE:
  assumes "thread_ok w"
  obtains c where "sk_tcp w = Some c" and "conn_ok c" and "bs_capacity (inbound_stream c) \<noteq> 0"
    and "bs_input_ended (se_stream (cn_sender c)) \<longrightarrow> sk_outbound_shutdown w"
  using assms by (auto simp: thread_ok_def split: option.splits)

lemma thread_ok_frame:
  assumes "thread_ok w" and "sk_tcp w = Some c" and "conn_frame c c'" and "sk_tcp w' = Some c'"
    and "sk_outbound_shutdown w' = sk_outbound_shutdown w"
  shows "thread_ok w'"
  using assms by (simp add: thread_ok_def conn_frame_def)

lemma receive_keeps:
  assumes "datagram_adapter ops" and "thread_ok w" and "receive_datagram ops w = (res, w')"
  shows "case res of Inl e \<Rightarrow> adapter_throws e
    | Inr _ \<Rightarrow> thread_ok w' \<and> sk_outbound_shutdown w' = sk_outbound_shutdown w \<and>
        fd_read_count (at_fd ops (sk_datagram_adapter w')) = fd_read_count (at_fd ops (sk_datagram_adapter w)) + 1"
proof -
  obtain c where c: "sk_tcp w = Some c" "conn_ok c" using assms(2) by (rule thread_okE)
  obtain r a k where r: "at_read ops (sk_datagram_adapter w) (sk_kernel w) = (r, a, k)" by (metis prod_cases3)
  note R = datagram_adapter.read_law [OF assms(1) r]
  show ?thesis
  proof (cases r)
    case (Inl e)
    then show ?thesis using R assms(3) c(1) r by (auto simp: receive_datagram_def)
  next
    case (Inr seg)
    have "\<exists>c'. (case seg of None \<Rightarrow> Some c | Some s \<Rightarrow> TCPConnection_segment_received s c) = Some c' \<and> conn_frame c c'"
      using c(2) segment_received_frame by (cases seg) (auto simp: conn_frame_def)
    then obtain c' where c': "(case seg of None \<Rightarrow> Some c | Some s \<Rightarrow> TCPConnection_segment_received s c) = Some c'"
      "conn_frame c c'" by blast
    let ?w = "w\<lparr>sk_datagram_adapter := a, sk_kernel := k, sk_tcp := Some c'\<rparr>"
    have eqs: "res = Inr ()" "w' = note_fully_acked c' ?w" using assms(3) c(1) r Inr c'(1) by (auto simp: receive_datagram_def)
    have "thread_ok (note_fully_acked c' ?w)"
      by (rule thread_ok_frame [OF assms(2) c(1) c'(2)]) (simp_all add: note_fully_acked_def)
    then show ?thesis using eqs R Inr by (simp add: note_fully_acked_def)
  qed
qed

lemma shutdown_outbound_keeps:
  assumes "thread_ok w"
  shows "\<exists>w'. shutdown_outbound w = (Inr (), w') \<and> thread_ok w' \<and> sk_thread_data w' = sk_thread_data w"
proof -
  obtain c where c: "sk_tcp w = Some c" "conn_ok c" "bs_capacity (inbound_stream c) \<noteq> 0" using assms by (rule thread_okE)
  obtain c' where "TCPConnection_end_input_stream c = Some c'" "conn_ok c'"
    "bs_capacity (inbound_stream c') = bs_capacity (inbound_stream c)" using end_input_frame [OF c(2)] by blast
  with c show ?thesis by (simp add: shutdown_outbound_def thread_ok_def)
qed

lemma read_outbound_keeps:
  assumes "thread_ok w" and "\<not> sk_outbound_shutdown w" and "read_outbound sys w = (res, w')"
  shows "case res of Inl e \<Rightarrow> adapter_throws e
    | Inr _ \<Rightarrow> thread_ok w' \<and> fd_read_count (sk_thread_data w') = fd_read_count (sk_thread_data w) + 1"
proof -
  obtain c where c: "sk_tcp w = Some c" "conn_ok c" "\<not> bs_input_ended (se_stream (cn_sender c))"
    using assms(1,2) by (auto elim: thread_okE)
  obtain r fd k where r: "FileDescriptor_read sys (TCPConnection_remaining_outbound_capacity c) (sk_thread_data w) (sk_kernel w) = (r, fd, k)"
    by (metis prod_cases3)
  show ?thesis
  proof (cases r)
    case (Inl e)
    then show ?thesis using assms(3) c(1) r read_throws [of sys] fd_throws_adapter by (auto simp: read_outbound_def)
  next
    case (Inr d)
    note R = read_result [OF r [unfolded Inr]]
    obtain c' where c': "TCPConnection_write d c = Some (str_size d, c')" "conn_frame c c'"
      using write_frame [OF c(2) _ c(3)] R by blast
    let ?w = "w\<lparr>sk_thread_data := fd, sk_kernel := k, sk_tcp := Some c'\<rparr>"
    have ok: "thread_ok ?w" by (rule thread_ok_frame [OF assms(1) c(1) c'(2)]) simp_all
    have "(res, w') = (if fd_eof fd then shutdown_outbound ?w else (Inr (), ?w))"
      using assms(3) c(1) r Inr c'(1) by (simp add: read_outbound_def Let_def)
    with ok R shutdown_outbound_keeps [OF ok] show ?thesis by (auto split: if_splits)
  qed
qed

lemma shutdown_inbound_keeps:
  assumes "thread_ok w" and "shutdown_inbound sys c w = (res, w')"
  shows "case res of Inl e \<Rightarrow> adapter_throws e
    | Inr _ \<Rightarrow> thread_ok w' \<and> sk_outbound_shutdown w' = sk_outbound_shutdown w \<and>
        (sk_thread_data w' = sk_thread_data w \<or> sk_thread_data w' = register_write (sk_thread_data w))"
proof -
  obtain r fd k where r: "Socket_shutdown sys SHUT_WR (sk_thread_data w) (sk_kernel w) = (r, fd, k)" by (metis prod_cases3)
  have "case r of Inl e \<Rightarrow> adapter_throws e | Inr _ \<Rightarrow> fd = register_write (sk_thread_data w)"
    using r shutdown_throws [of sys] fd_throws_adapter shutdown_wr_result [of sys] by (auto split: sum.split)
  then show ?thesis using assms by (cases r) (auto simp: shutdown_inbound_def r thread_ok_def split: if_splits option.splits)
qed

lemma write_inbound_keeps:
  assumes "thread_ok w" and "write_inbound sys w = (res, w')"
  shows "case res of Inl e \<Rightarrow> adapter_throws e
    | Inr _ \<Rightarrow> thread_ok w' \<and> sk_outbound_shutdown w' = sk_outbound_shutdown w \<and>
        fd_write_count (sk_thread_data w') \<noteq> fd_write_count (sk_thread_data w)"
proof -
  obtain c where c: "sk_tcp w = Some c" "conn_ok c" "bs_capacity (inbound_stream c) \<noteq> 0"
    "bs_input_ended (se_stream (cn_sender c)) \<longrightarrow> sk_outbound_shutdown w" using assms(1) by (rule thread_okE)
  let ?d = "ByteStream_peek_output (min 65536 (ByteStream_buffer_size (inbound_stream c))) (inbound_stream c)"
  obtain r fd k where r: "FileDescriptor_write sys [?d] False (sk_thread_data w) (sk_kernel w) = (r, fd, k)"
    by (metis prod_cases3)
  have "length ?d < 2 ^ 64" using unat_lt_64 by (simp add: ByteStream_peek_output_def Let_def length_peek_loop)
  note W = write_once [OF r this]
  show ?thesis
  proof (cases r)
    case (Inl e)
    then show ?thesis using assms(2) c(1) r W fd_throws_adapter by (auto simp: write_inbound_def Let_def)
  next
    case (Inr n)
    obtain bs where bs: "ByteStream_pop_output n (inbound_stream c) = Some bs" "bs_capacity bs = bs_capacity (inbound_stream c)"
      using c(3) by (auto simp: ByteStream_pop_output_def Let_def)
    let ?c = "set_inbound_stream bs c"
    let ?w = "w\<lparr>sk_thread_data := fd, sk_kernel := k, sk_tcp := Some ?c\<rparr>"
    have "thread_ok ?w" using c bs(2)
      by (simp add: thread_ok_def set_inbound_stream_def inbound_stream_def TCPReceiver_stream_out_def conn_ok_def)
    moreover have "shutdown_inbound sys ?c ?w = (res, w')"
      using assms(2) c(1) r Inr bs(1) by (simp add: write_inbound_def Let_def)
    ultimately have "case res of Inl e \<Rightarrow> adapter_throws e
      | Inr _ \<Rightarrow> thread_ok w' \<and> sk_outbound_shutdown w' = sk_outbound_shutdown w \<and>
        (sk_thread_data w' = fd \<or> sk_thread_data w' = register_write fd)"
      using shutdown_inbound_keeps [of ?w sys ?c res w'] by (cases res) simp_all
    then show ?thesis using W Inr by (auto simp: register_write_def split: sum.splits)
  qed
qed

lemma write_segments_result:
  assumes "datagram_adapter ops" and "write_segments ops segs a k = (r, segs', a', k')"
  shows "case r of Inl e \<Rightarrow> adapter_throws e | Inr _ \<Rightarrow> segs' = []"
  using assms(2)
proof (induction segs arbitrary: a k)
  case (Cons seg segs)
  obtain q b l where q: "at_write ops seg a k = (q, b, l)" by (metis prod_cases3)
  show ?case using Cons datagram_adapter.write_law [OF assms(1) q] by (auto simp: q split: sum.splits)
qed auto

lemma send_keeps:
  assumes "datagram_adapter ops" and "thread_ok w" and "send_segments ops w = (res, w')"
  shows "case res of Inl e \<Rightarrow> adapter_throws e
    | Inr _ \<Rightarrow> thread_ok w' \<and> sk_outbound_shutdown w' = sk_outbound_shutdown w \<and> \<not> ru_interest (rule4 ops) w'"
proof -
  obtain c where c: "sk_tcp w = Some c" using assms(2) by (rule thread_okE)
  obtain r segs a k where r: "write_segments ops (cn_segments_out c) (sk_datagram_adapter w) (sk_kernel w) = (r, segs, a, k)"
    by (metis prod_cases4)
  show ?thesis using write_segments_result [OF assms(1) r] assms(2,3) c
    by (auto simp: send_segments_def r rule4_def thread_ok_def conn_ok_def inbound_stream_def split: sum.splits)
qed

lemma nth_socket_rules:
  "i < length (socket_rules sys ops) \<longleftrightarrow> i = 0 \<or> i = 1 \<or> i = 2 \<or> i = 3" "socket_rules sys ops ! 0 = rule1 ops"
  "socket_rules sys ops ! 1 = rule2 sys" "socket_rules sys ops ! 2 = rule3 sys" "socket_rules sys ops ! 3 = rule4 ops"
  by (auto simp: socket_rules_def EventLoop_add_rule_def)

lemma socket_callback_law:
  assumes "datagram_adapter ops" and "i < length (socket_rules sys ops)" and "thread_ok w" and "thread_armed i w"
    and "ru_callback (socket_rules sys ops ! i) w = (res, w')"
  shows "case res of Inl e \<Rightarrow> adapter_throws e
    | Inr _ \<Rightarrow> thread_ok w' \<and> (\<forall>j. j \<noteq> i \<longrightarrow> thread_armed j w \<longrightarrow> thread_armed j w') \<and>
        (service_count (socket_rules sys ops ! i) w' \<noteq> service_count (socket_rules sys ops ! i) w \<or>
         \<not> ru_interest (socket_rules sys ops ! i) w')"
proof -
  consider "i = 0" | "i = 1" | "i = 2" | "i = 3" using assms(2) unfolding nth_socket_rules(1) by blast
  then show ?thesis
  proof cases
    case 1
    then have "receive_datagram ops w = (res, w')" using assms(5) unfolding 1 nth_socket_rules by (simp add: rule1_def)
    note R = receive_keeps [OF assms(1,3) this]
    show ?thesis using R unfolding 1 nth_socket_rules
      by (auto simp: rule1_def service_count_def thread_armed_def split: sum.splits)
  next
    case 2
    then have "read_outbound sys w = (res, w')" using assms(5) unfolding 2 nth_socket_rules by (simp add: rule2_def)
    note R = read_outbound_keeps [OF assms(3) _ this]
    show ?thesis using R assms(4) unfolding 2 nth_socket_rules
      by (auto simp: rule2_def service_count_def thread_armed_def split: sum.splits)
  next
    case 3
    then have "write_inbound sys w = (res, w')" using assms(5) unfolding 3 nth_socket_rules by (simp add: rule3_def)
    note R = write_inbound_keeps [OF assms(3) this]
    show ?thesis using R unfolding 3 nth_socket_rules
      by (auto simp: rule3_def service_count_def thread_armed_def split: sum.splits)
  next
    case 4
    then have "send_segments ops w = (res, w')" using assms(5) unfolding 4 nth_socket_rules by (simp add: rule4_def)
    note R = send_keeps [OF assms(1,3) this]
    show ?thesis using R unfolding 4 nth_socket_rules by (auto simp: thread_armed_def split: sum.splits)
  qed
qed

lemma socket_cancel_law:
  assumes "i < length (socket_rules sys ops)" and "thread_ok w" and "ru_cancel (socket_rules sys ops ! i) w = (res, w')"
  shows "case res of Inl e \<Rightarrow> adapter_throws e
    | Inr _ \<Rightarrow> thread_ok w' \<and> (\<forall>j. j \<noteq> i \<longrightarrow> thread_armed j w \<longrightarrow> thread_armed j w')"
proof -
  consider "i = 1" | "socket_rules sys ops ! i = rule1 ops" | "socket_rules sys ops ! i = rule3 sys"
    | "socket_rules sys ops ! i = rule4 ops" using assms(1) unfolding nth_socket_rules(1) by (elim disjE) (auto simp: nth_socket_rules simp del: One_nat_def)
  then show ?thesis
  proof cases
    case 1
    then show ?thesis using shutdown_outbound_keeps [OF assms(2)] assms(3) unfolding 1 nth_socket_rules
      by (auto simp: rule2_def thread_armed_def)
  qed (use assms(2,3) in \<open>auto simp: rule1_def rule3_def rule4_def thread_armed_def\<close>)
qed

sublocale datagram_adapter \<subseteq> thread: event_rules "socket_rules sys ops" "socket_poll sys" thread_ok thread_armed adapter_throws
  for sys
proof (unfold_locales, goal_cases)
  case (1 i w)
  then show ?case
    by (cases "i = 1") (auto simp: thread_armed_def nth_socket_rules(3) [unfolded One_nat_def] rule2_def split: option.splits)
next
  case (2 i w res w')
  then show ?case using socket_callback_law [OF datagram_adapter_axioms] by blast
next
  case (3 i w res w')
  then show ?case using socket_cancel_law by blast
next
  case (4 w pfds t x w')
  then show ?case by (auto simp: socket_poll_def thread_ok_def thread_armed_def split: prod.splits option.splits)
qed

section \<open>Runs of the thread\<close>

text \<open>
  A turn of the loop that goes on, and what happens around the thread: the owner and the peer
  change the state of the kernel as they like, and the owner may ask the thread to stop.
\<close>

inductive thread_step ::
  "'k Syscalls \<Rightarrow> ('a, 'k) AdaptT \<Rightarrow> u64 \<times> ('a, 'k) TCPSpongeSocket Rule list \<times> ('a, 'k) TCPSpongeSocket \<Rightarrow>
     u64 \<times> ('a, 'k) TCPSpongeSocket Rule list \<times> ('a, 'k) TCPSpongeSocket \<Rightarrow> bool"
  for sys ops where
  ts_turn: "wait_next_event (socket_poll sys) TCP_TICK_MS rules w = (Inr ret, rules', w') \<Longrightarrow> ret \<noteq> Exit \<Longrightarrow>
     \<not> sk_abort w' \<Longrightarrow> tick_socket sys ops base_time w' = (Inr base_time', w'') \<Longrightarrow>
     thread_step sys ops (base_time, rules, w) (base_time', rules', w'')"
| ts_environment: "thread_step sys ops (base_time, rules, w) (base_time, rules, w\<lparr>sk_kernel := k, sk_abort := stop\<rparr>)"

inductive_cases thread_stepE: "thread_step sys ops st st'"

text \<open>The thread runs after \<open>connect\<close> or \<open>listen_and_accept\<close> has set the connection up.\<close>

definition good_config :: "TCPConfig \<Rightarrow> bool" where
  "good_config cfg \<longleftrightarrow> 0 < cf_send_capacity cfg \<and> unat (cf_send_capacity cfg) < 2 ^ 63 \<and> 0 < cf_recv_capacity cfg"

definition thread_init ::
  "'k Syscalls \<Rightarrow> ('a, 'k) AdaptT \<Rightarrow> TCPConfig \<Rightarrow> u32 \<Rightarrow>
     u64 \<times> ('a, 'k) TCPSpongeSocket Rule list \<times> ('a, 'k) TCPSpongeSocket \<Rightarrow> bool" where
  "thread_init sys ops cfg random st \<longleftrightarrow>
     (case st of (base_time, rules, w) \<Rightarrow>
        good_config cfg \<and> rules = socket_rules sys ops \<and> \<not> sk_outbound_shutdown w \<and>
        (sk_tcp w = Some (TCPConnection_new cfg random) \<or> sk_tcp w = TCPConnection_connect (TCPConnection_new cfg random)))"

definition thread_state_ok ::
  "'k Syscalls \<Rightarrow> ('a, 'k) AdaptT \<Rightarrow> u64 \<times> ('a, 'k) TCPSpongeSocket Rule list \<times> ('a, 'k) TCPSpongeSocket \<Rightarrow> bool" where
  "thread_state_ok sys ops st \<longleftrightarrow>
     (case st of (base_time, rules, w) \<Rightarrow>
        thread_ok w \<and> (\<exists>ns. rules = map ((!) (socket_rules sys ops)) ns \<and> valid_indices (length (socket_rules sys ops)) ns))"

lemma new_connection_ok:
  assumes "good_config cfg" and "\<not> sk_outbound_shutdown w" and "sk_tcp w = Some (TCPConnection_new cfg random)"
  shows "thread_ok w"
proof -
  have "conn_init cfg random (TCPConnection_new cfg random)"
    using assms(1) by (simp add: good_config_def conn_init_def word_less_nat_alt)
  from conn_new_ok [OF this] have "conn_ok (TCPConnection_new cfg random)" .
  moreover have "bs_capacity (inbound_stream (TCPConnection_new cfg random)) \<noteq> 0"
    "\<not> bs_input_ended (se_stream (cn_sender (TCPConnection_new cfg random)))"
    using assms(1) by (auto simp: good_config_def inbound_stream_def TCPConnection_new_def TCPReceiver_new_def
        TCPReceiver_stream_out_def StreamReassembler_new_def ByteStream_new_def TCPSender_new_def Let_def)
  ultimately show ?thesis using assms(3) by (simp add: thread_ok_def)
qed

lemma connect_ok:
  assumes "thread_ok w" and "sk_tcp w = Some c"
  shows "\<exists>c'. TCPConnection_connect c = Some c' \<and> thread_ok (w\<lparr>sk_tcp := Some c'\<rparr>)"
proof -
  have ok: "conn_ok c" using assms by (simp add: thread_ok_def)
  then obtain c' where c': "TCPConnection_connect c = Some c'" "conn_ok c'" using connect_progress conn_progressD by blast
  then have "conn_frame c c'" using fill_window_ended [of c] ok
    by (auto simp: TCPConnection_connect_def conn_frame_def inbound_stream_def conn_ok_iff)
  with c'(1) show ?thesis using thread_ok_frame [OF assms, of c' "w\<lparr>sk_tcp := Some c'\<rparr>"] by simp
qed

lemma thread_init_ok:
  assumes "thread_init sys ops cfg random st"
  shows "thread_state_ok sys ops st"
proof -
  obtain b rules w where st: "st = (b, rules, w)" by (metis prod_cases3)
  let ?w = "w\<lparr>sk_tcp := Some (TCPConnection_new cfg random)\<rparr>"
  have "thread_ok ?w" using new_connection_ok [of cfg ?w random] assms by (simp add: thread_init_def st)
  with connect_ok [OF this] assms have "thread_ok w"
    by (auto simp: thread_init_def st thread_ok_def)
  then show ?thesis using assms valid_all [of "socket_rules sys ops"]
    by (auto simp: thread_init_def thread_state_ok_def st intro!: exI [of _ "[0..<length (socket_rules sys ops)]"])
qed

lemma tick_socket_keeps:
  assumes "datagram_adapter ops" and "thread_ok w" and "tick_socket sys ops b w = (res, w')"
  shows "case res of Inl e \<Rightarrow> adapter_throws e | Inr _ \<Rightarrow> thread_ok w'"
proof -
  obtain c where c: "sk_tcp w = Some c" "conn_ok c" using assms(2) by (rule thread_okE)
  obtain t k where t: "sys_clock sys (sk_kernel w) = (t, k)" by fastforce
  obtain r a k' where r: "at_tick ops (t - b) (sk_datagram_adapter w) k = (r, a, k')" by (metis prod_cases3)
  let ?c = "TCPConnection_tick (t - b) c"
  let ?w = "w\<lparr>sk_tcp := Some ?c, sk_datagram_adapter := a, sk_kernel := k'\<rparr>"
  have "thread_ok ?w" by (rule thread_ok_frame [OF assms(2) c(1) tick_frame [OF c(2)]]) simp_all
  then show ?thesis using assms(2,3) datagram_adapter.tick_law [OF assms(1) r]
    by (cases "cn_active c"; cases r) (auto simp: tick_socket_def c(1) t r)
qed

context datagram_adapter
begin

lemma turn_keeps:
  assumes "thread_state_ok sys ops (b, rules, w)" and "wait_next_event (socket_poll sys) t rules w = (res, rules', w')"
  shows "case res of Inl e \<Rightarrow> adapter_throws e \<or> e = poll_error | Inr _ \<Rightarrow> thread_state_ok sys ops (b', rules', w')"
proof -
  obtain ns where ns: "rules = map ((!) (socket_rules sys ops)) ns" "valid_indices (length (socket_rules sys ops)) ns" "thread_ok w"
    using assms(1) by (auto simp: thread_state_ok_def)
  from thread.wait_keeps [OF ns(2,3) assms(2) [unfolded ns(1)]]
  show ?thesis by (auto simp: thread_state_ok_def split: sum.splits)
qed

lemma thread_step_ok:
  assumes "thread_state_ok sys ops st" and "thread_step sys ops st st'"
  shows "thread_state_ok sys ops st'"
  using assms(2)
proof (cases rule: thread_step.cases)
  case (ts_turn rules w ret rules' w' b b' w'')
  then have "thread_state_ok sys ops (b', rules', w')"
    using turn_keeps [of sys b rules w _ "Inr ret" rules' w' b'] assms(1) by auto
  then show ?thesis using tick_socket_keeps [OF datagram_adapter_axioms _ ts_turn(6)] ts_turn(2) by (simp add: thread_state_ok_def)
next
  case (ts_environment b rules w k stop)
  then show ?thesis using assms(1) by (auto simp: thread_state_ok_def thread_ok_def split: option.splits)
qed

end

sublocale datagram_adapter \<subseteq> runs: invariant_system "thread_init sys ops cfg random" "thread_step sys ops" "thread_state_ok sys ops"
  for sys cfg random
  by unfold_locales (auto intro: thread_init_ok thread_step_ok)

context datagram_adapter
begin

lemmas thread_run_ok = runs.reachable_inv

end

text \<open>The loop itself: whenever it comes back, it comes back in order or with an exception from below.\<close>

definition returned_ok ::
  "'k Syscalls \<Rightarrow> ('a, 'k) AdaptT \<Rightarrow> unit res \<times> ('a, 'k) TCPSpongeSocket Rule list \<times> ('a, 'k) TCPSpongeSocket \<Rightarrow> bool" where
  "returned_ok sys ops x \<longleftrightarrow>
     (case fst x of Inl e \<Rightarrow> adapter_throws e \<or> e = poll_error | Inr _ \<Rightarrow> thread_state_ok sys ops (0, snd x))"

lemma time_irrelevant: "thread_state_ok sys ops (b, x) = thread_state_ok sys ops (0, x)"
  by (simp add: thread_state_ok_def split: prod.split)

lemma tcp_loop_keeps:
  assumes "tcp_loop sys ops condition b rules w = Some x"
  shows "datagram_adapter ops \<Longrightarrow> thread_state_ok sys ops (b, rules, w) \<Longrightarrow> returned_ok sys ops x"
proof (induction arbitrary: rule: tcp_loop.raw_induct [OF _ assms, consumes 0, case_names turn])
  case (turn loop sys ops condition b rules w x)
  obtain r rules1 w1 where t: "wait_next_event (socket_poll sys) TCP_TICK_MS rules w = (r, rules1, w1)" by (metis prod_cases3)
  obtain q w2 where q: "tick_socket sys ops b w1 = (q, w2)" by fastforce
  note T = datagram_adapter.turn_keeps [OF turn(3,4) t]
  show ?case
  proof (cases r)
    case (Inl e)
    then show ?thesis using turn(2,4) T [of 0] by (auto simp: t returned_ok_def time_irrelevant [of _ _ b] split: if_splits)
  next
    case (Inr ret)
    then have ok: "thread_state_ok sys ops (b', rules1, w1)" for b' using T by simp
    then have "thread_ok w1" by (simp add: thread_state_ok_def)
    note Q = tick_socket_keeps [OF turn(3) this q]
    have go: "thread_state_ok sys ops (b', rules1, w2)" if "q = Inr b''" for b' b''
      using Q ok [of 0] that by (simp add: thread_state_ok_def)
    show ?thesis
      using turn(2,4) ok Q turn(1) [OF _ turn(3) go]
      by (auto simp: t Inr q returned_ok_def [of _ _ "(_, _)"] time_irrelevant [of _ _ b] split: if_splits sum.splits)
  qed
qed

lemma run_tcp_loop_keeps:
  assumes "run_tcp_loop sys ops condition rules w = Some x" and "datagram_adapter ops" and "thread_state_ok sys ops (0, rules, w)"
  shows "returned_ok sys ops x"
proof -
  obtain t k where t: "sys_clock sys (sk_kernel w) = (t, k)" by fastforce
  have "thread_state_ok sys ops (t, rules, w\<lparr>sk_kernel := k\<rparr>)"
    using assms(3) by (auto simp: thread_state_ok_def thread_ok_def split: option.splits)
  with assms(1,2) show ?thesis by (auto simp: run_tcp_loop_def t intro: tcp_loop_keeps)
qed

text \<open>A fresh connection is in \<open>SYN_SENT\<close> after \<open>connect\<close>.\<close>

lemma connect_new:
  assumes "good_config cfg"
  shows "\<exists>c. TCPConnection_connect (TCPConnection_new cfg random) = Some c \<and>
    TCPState_eq (TCPConnection_state c) (TCPState_of_State SYN_SENT)"
proof -
  have "0 < unat (cf_send_capacity cfg)" using assms by (simp add: good_config_def word_less_nat_alt)
  let ?s = "TCPSender_new (cf_send_capacity cfg) (cf_rt_timeout cfg) (cf_fixed_isn cfg) random"
  let ?c = "send_with_ackno_and_win ((TCPConnection_new cfg random)\<lparr>cn_sender := syn_sent ?s\<rparr>)"
  have "TCPConnection_connect (TCPConnection_new cfg random) = Some ?c"
    using fill_window_new [OF \<open>0 < unat (cf_send_capacity cfg)\<close>, of "cf_rt_timeout cfg" "cf_fixed_isn cfg" random]
    by (simp add: TCPConnection_connect_def conn_fill_window_def connection_new_fields)
  moreover have "sender_summary ((syn_sent ?s)\<lparr>se_segments_out := []\<rparr>) = S_SYN_SENT"
    by (simp add: sender_summary_def TCPSender_bytes_in_flight_def syn_sent_def TCPSender_new_def Let_def syn_numbers
        ByteStream_new_def)
  then have "sender_summary (cn_sender ?c) = S_SYN_SENT" by (simp add: send_with_ackno_and_win_def)
  moreover have "receiver_summary (cn_receiver ?c) = R_LISTEN"
    by (simp add: receiver_summary_def connection_new_fields TCPReceiver_new_def TCPReceiver_ackno_def
        TCPReceiver_stream_out_def StreamReassembler_new_def ByteStream_new_def)
  moreover have "cn_active ?c" "cn_linger_after_streams_finish ?c"
    by (simp_all add: send_with_ackno_and_win_def TCPConnection_new_def)
  ultimately show ?thesis
    by (simp add: TCPConnection_state_def TCPState_of_def TCPState_eq_def TCPState_of_State_def del: receiver_kept)
qed

lemma connect_returns:
  assumes "TCPSpongeSocket_connect sys ops cfg c_ad random [] w = Some x" and "sk_tcp w = None"
    and "datagram_adapter ops" and "good_config cfg" and "\<not> sk_outbound_shutdown w"
  shows "returned_ok sys ops x"
proof -
  obtain c where c: "TCPConnection_connect (TCPConnection_new cfg random) = Some c"
    "TCPState_eq (TCPConnection_state c) (TCPState_of_State SYN_SENT)" using connect_new [OF assms(4)] by blast
  define w' where "w' = (initialize_TCP cfg random w)\<lparr>sk_datagram_adapter := at_set_config ops c_ad (sk_datagram_adapter w), sk_tcp := Some c\<rparr>"
  have "thread_init sys ops cfg random (0, socket_rules sys ops, w')"
    using assms(4,5) c(1) by (simp add: thread_init_def w'_def initialize_TCP_def)
  then have ok: "thread_state_ok sys ops (0, socket_rules sys ops, w')" by (rule thread_init_ok)
  have "run_tcp_loop sys ops (in_state [SYN_SENT]) (socket_rules sys ops) w' = Some x"
    using assms(1,2) c by (simp add: TCPSpongeSocket_connect_def Let_def w'_def TCPState_neq_def initialize_TCP_def)
  then show ?thesis using assms(3) ok by (rule run_tcp_loop_keeps)
qed

lemma listen_returns:
  assumes "TCPSpongeSocket_listen_and_accept sys ops cfg c_ad random [] w = Some x" and "sk_tcp w = None"
    and "datagram_adapter ops" and "good_config cfg" and "\<not> sk_outbound_shutdown w"
  shows "returned_ok sys ops x"
proof -
  define w' where "w' = (initialize_TCP cfg random w)\<lparr>sk_datagram_adapter :=
    at_set_listening ops True (at_set_config ops c_ad (sk_datagram_adapter w))\<rparr>"
  have "thread_init sys ops cfg random (0, socket_rules sys ops, w')"
    using assms(4,5) by (simp add: thread_init_def w'_def initialize_TCP_def)
  then have ok: "thread_state_ok sys ops (0, socket_rules sys ops, w')" by (rule thread_init_ok)
  have "run_tcp_loop sys ops (in_state [LISTEN, SYN_RCVD, SYN_SENT]) (socket_rules sys ops) w' = Some x"
    using assms(1,2) by (simp add: TCPSpongeSocket_listen_and_accept_def Let_def w'_def initialize_TCP_def)
  then show ?thesis using assms(3) ok by (rule run_tcp_loop_keeps)
qed

lemma main_throws:
  assumes "tcp_main sys ops rules w = Some (Inl e, x)" and "datagram_adapter ops" and "thread_state_ok sys ops (0, rules, w)"
  shows "adapter_throws e \<or> e = poll_error"
proof -
  have tcp: "sk_tcp w \<noteq> None" using assms(3) by (auto simp: thread_state_ok_def thread_ok_def split: option.splits)
  then obtain y where y: "run_tcp_loop sys ops (\<lambda>_. True) rules w = Some y"
    using assms(1) by (cases "run_tcp_loop sys ops (\<lambda>_. True) rules w") (auto simp: tcp_main_def)
  note R = run_tcp_loop_keeps [OF y assms(2,3)]
  obtain r rules' w' where y': "y = (r, rules', w')" by (metis prod_cases3)
  obtain q fd k where q: "Socket_shutdown sys SHUT_RDWR (sk_fd w') (sk_kernel w') = (q, fd, k)" by (metis prod_cases3)
  show ?thesis
  proof (cases r)
    case (Inl f)
    then show ?thesis using assms(1) tcp y y' R by (auto simp: tcp_main_def returned_ok_def)
  next
    case (Inr u)
    then have "q = Inl e" using assms(1) tcp y y' q by (cases q) (auto simp: tcp_main_def)
    from fd_throws_adapter [OF shutdown_throws [OF q [unfolded this]]] show ?thesis by simp
  qed
qed

section \<open>Properties\<close>

text \<open>The exceptions that would show a fault of the socket.\<close>

definition socket_faults :: "exn set" where
  "socket_faults = {Undefined, busy_wait, short_write} \<union> range wrong_state"

lemma poll_error_no_fault: "poll_error \<notin> socket_faults"
  by (auto simp: socket_faults_def poll_error_def busy_wait_def short_write_def wrong_state_def)

lemma no_fault: "adapter_throws e \<or> e = poll_error \<Longrightarrow> e \<notin> socket_faults"
  using poll_error_no_fault by (auto simp: adapter_throws_def no_bug_def socket_faults_def)

text \<open>
  C38: in every run of the thread of a connection with positive capacities (the sending one below
  \<open>2 ^ 63\<close>, \<open>good_config\<close>), for every kernel and for every adapter that keeps its contract (\<open>datagram_adapter\<close>),
  whatever the owner and the network do between the turns, the connection is proper and the next
  turn of the event loop and the tick after it do not fail through a fault of the socket: no
  rule calls the connection after it was reset or traps in it, no rule is called again and again
  without using its descriptor, and the connection accepts all the bytes that were read for it.
\<close>
theorem TCPSpongeSocket_thread_safe:
  assumes "datagram_adapter ops" and "reachable (thread_init sys ops cfg random) (thread_step sys ops) (base_time, rules, w)"
    and "e \<in> socket_faults"
  shows "(\<exists>c. sk_tcp w = Some c \<and> conn_ok c) \<and>
    fst (wait_next_event (socket_poll sys) TCP_TICK_MS rules w) \<noteq> Inl e \<and> fst (tick_socket sys ops base_time w) \<noteq> Inl e"
proof -
  have ok: "thread_state_ok sys ops (base_time, rules, w)" by (rule datagram_adapter.thread_run_ok [OF assms(1,2)])
  then have w: "thread_ok w" by (simp add: thread_state_ok_def)
  obtain r rules' w' where t: "wait_next_event (socket_poll sys) TCP_TICK_MS rules w = (r, rules', w')" by (metis prod_cases3)
  obtain q w'' where q: "tick_socket sys ops base_time w = (q, w'')" by fastforce
  have "r \<noteq> Inl e" using datagram_adapter.turn_keeps [OF assms(1) ok t] no_fault assms(3) by (auto split: sum.splits)
  moreover have "q \<noteq> Inl e" using tick_socket_keeps [OF assms(1) w q] no_fault assms(3) by (auto split: sum.splits)
  ultimately show ?thesis using w by (auto simp: t q elim: thread_okE)
qed

definition a_descriptor :: "int \<Rightarrow> FDWrapper" where
  "a_descriptor n = \<lparr>fd_fd = n, fd_eof = False, fd_closed = False, fd_read_count = 0, fd_write_count = 0\<rparr>"

definition a_socket :: "'k \<Rightarrow> (TCPOverIPv4OverTunFdAdapter, 'k) TCPSpongeSocket" where
  "a_socket k =
     \<lparr>sk_fd = a_descriptor 3, sk_thread_data = a_descriptor 4,
      sk_datagram_adapter = \<lparr>fa_cfg = FdAdapterConfig_default, fa_listen = False, ta_tun = a_descriptor 5\<rparr>, sk_tcp = None,
      sk_abort = False, sk_inbound_shutdown = False, sk_outbound_shutdown = False, sk_fully_acked = False, sk_kernel = k\<rparr>"

lemma default_config_good: "good_config TCPConfig_default"
  by (simp add: good_config_def TCPConfig_default_def DEFAULT_CAPACITY_def)

theorem TCPSpongeSocket_thread_safe_witness:
  "\<exists>rules w. reachable (thread_init two_bytes (tun_adapter two_bytes) TCPConfig_default 7) (thread_step two_bytes (tun_adapter two_bytes))
      (0, rules, w) \<and> fst (wait_next_event (socket_poll two_bytes) TCP_TICK_MS rules w) \<noteq> Inl busy_wait"
proof -
  let ?w = "initialize_TCP TCPConfig_default 7 (a_socket (\<lambda>_. []))"
  have "reachable (thread_init two_bytes (tun_adapter two_bytes) TCPConfig_default 7) (thread_step two_bytes (tun_adapter two_bytes))
      (0, socket_rules two_bytes (tun_adapter two_bytes), ?w)"
    by (rule reach_init) (simp add: thread_init_def initialize_TCP_def a_socket_def default_config_good)
  from this TCPSpongeSocket_thread_safe [OF tun.datagram_adapter_axioms this, of busy_wait] show ?thesis
    by (auto simp: socket_faults_def)
qed

text \<open>
  C39: \<open>connect\<close> and \<open>listen_and_accept\<close> on a fresh socket that has not been shut down, with positive
  capacities (the sending one below \<open>2 ^ 63\<close>, \<open>good_config\<close>), and the thread that they start, for every
  kernel and every adapter that keeps its contract (\<open>datagram_adapter\<close>): whenever they return, they do not return
  with an exception that shows a fault of the socket (in particular the state after \<open>connect\<close> is
  as expected), and when they succeed the thread takes over a proper connection.
\<close>
theorem TCPSpongeSocket_run_safe:
  assumes "datagram_adapter ops" and "good_config cfg" and "sk_tcp w = None" and "\<not> sk_outbound_shutdown w"
    and "TCPSpongeSocket_connect sys ops cfg c_ad random [] w = Some (r, rules, w') \<or>
      TCPSpongeSocket_listen_and_accept sys ops cfg c_ad random [] w = Some (r, rules, w')"
    and "e \<in> socket_faults"
  shows "r \<noteq> Inl e \<and>
    (r = Inr () \<longrightarrow> (\<exists>c. sk_tcp w' = Some c \<and> conn_ok c) \<and> (\<forall>x. tcp_main sys ops rules w' \<noteq> Some (Inl e, x)))"
proof -
  have R: "returned_ok sys ops (r, rules, w')"
    using assms(5) connect_returns [OF _ assms(3,1,2,4)] listen_returns [OF _ assms(3,1,2,4)] by blast
  then have "r \<noteq> Inl e" using no_fault assms(6) by (auto simp: returned_ok_def)
  moreover have "(\<exists>c. sk_tcp w' = Some c \<and> conn_ok c) \<and> (\<forall>x. tcp_main sys ops rules w' \<noteq> Some (Inl e, x))" if "r = Inr ()"
  proof -
    have ok: "thread_state_ok sys ops (0, rules, w')" using R that by (simp add: returned_ok_def)
    have "tcp_main sys ops rules w' \<noteq> Some (Inl e, x)" for x
      using main_throws [OF _ assms(1) ok] no_fault assms(6) by blast
    moreover have "thread_ok w'" using ok by (simp add: thread_state_ok_def)
    ultimately show ?thesis by (auto elim: thread_okE)
  qed
  ultimately show ?thesis by blast
qed

text \<open>A kernel in which \<open>poll\<close> is interrupted, so that the loop ends at once.\<close>

definition interrupted :: "(int \<Rightarrow> bytes) Syscalls" where
  "interrupted = two_bytes\<lparr>sys_poll := \<lambda>pfds t k. ((-1, EINTR, []), k)\<rparr>"

lemma interrupted_exits:
  assumes "\<forall>r\<in>set rules. \<not> fd_eof (ru_fd r w) \<and> \<not> fd_closed (ru_fd r w)"
  shows "wait_next_event (socket_poll interrupted) t rules w = (Inr Exit, rules, w)"
proof -
  have "\<exists>pfds b. setup_pollfds rules w = (Inr (), rules, pfds, b, w)"
    using assms by (induction rules) (auto simp: Let_def)
  moreover have "SystemCall ''poll'' (-1) EINTR 0 = Inl (Unix_error ''poll'' EINTR)"
    by (simp add: SystemCall_def to_int_small EINTR_def)
  ultimately show ?thesis by (auto simp: wait_next_event_def socket_poll_def interrupted_def)
qed

theorem TCPSpongeSocket_run_safe_witness:
  "\<exists>rules w'. TCPSpongeSocket_connect interrupted (tun_adapter interrupted) TCPConfig_default FdAdapterConfig_default 7 []
      (a_socket (\<lambda>_. [])) = Some (Inr (), rules, w') \<and>
    (\<forall>x. tcp_main interrupted (tun_adapter interrupted) rules w' \<noteq> Some (Inl busy_wait, x))"
proof -
  let ?ops = "tun_adapter interrupted"
  let ?rules = "socket_rules interrupted ?ops"
  obtain c where c: "TCPConnection_connect (TCPConnection_new TCPConfig_default 7) = Some c"
    "TCPState_eq (TCPConnection_state c) (TCPState_of_State SYN_SENT)" using connect_new [OF default_config_good] by blast
  let ?w = "(a_socket (\<lambda>_. []))\<lparr>sk_tcp := Some c\<rparr>"
  have "\<forall>r\<in>set ?rules. \<not> fd_eof (ru_fd r ?w) \<and> \<not> fd_closed (ru_fd r ?w)"
    by (simp add: socket_rules_def EventLoop_add_rule_def rule1_def rule2_def rule3_def rule4_def a_socket_def
        a_descriptor_def tun_adapter_def)
  note E = interrupted_exits [OF this]
  have "tcp_loop interrupted ?ops (in_state [SYN_SENT]) 0 ?rules ?w = Some (Inr (), ?rules, ?w)"
    by (subst tcp_loop.simps) (simp add: E in_state_def c(2))
  then have "TCPSpongeSocket_connect interrupted ?ops TCPConfig_default FdAdapterConfig_default 7 [] (a_socket (\<lambda>_. [])) =
      Some (Inr (), ?rules, ?w)"
    by (simp add: TCPSpongeSocket_connect_def a_socket_def initialize_TCP_def c TCPState_neq_def run_tcp_loop_def
        interrupted_def two_bytes_def Let_def tun_adapter_def)
  from this TCPSpongeSocket_run_safe [OF tun.datagram_adapter_axioms default_config_good _ _ disjI1 [OF this], of busy_wait]
  show ?thesis by (simp add: a_socket_def socket_faults_def)
qed

end
