(* ===== verification/TCP_Transfer.thy ===== *)
theory TCP_Transfer
  imports TCP_Connection "HOL-Library.Sublist"
begin

text \<open>
  Two connections and a network between them. One endpoint writes a stream, the network loses,
  repeats, delays and reorders its segments, and the other endpoint reads. The theory shows
  that the reader gets a prefix of what was written, and all of it when its stream has ended.
\<close>

section \<open>The sending side\<close>

text \<open>
  A segment of the stream \<open>S\<close>: the SYN, the bytes of \<open>S\<close> from an index on, with FIN only at
  its end, an acknowledgment without bytes, or a RST. The acknowledgment and the window
  of the header do not matter.
\<close>

definition segment_of :: "bytes \<Rightarrow> WrappingInt32 \<Rightarrow> TCPSegment \<Rightarrow> bool" where
  "segment_of S isn g \<longleftrightarrow>
     (let h = ts_header g; d = Buffer_str (ts_payload g)
      in th_rst h \<or>
         (if th_syn h then th_seqno h = isn \<and> d = [] \<and> \<not> th_fin h
          else \<exists>i\<le>length S + 1. th_seqno h = wrap (of_nat (i + 1)) isn \<and> d = take (length d) (drop i S) \<and>
            (th_fin h \<longrightarrow> i + length d = length S)))"

text \<open>
  A sender that has sent its SYN and the first \<open>m\<close> bytes of \<open>S\<close>, where \<open>W\<close> is what was written
  so far; everything it has queued or keeps for retransmission is a segment of \<open>S\<close>.
\<close>

definition sent_upto :: "bytes \<Rightarrow> bytes \<Rightarrow> TCPSender \<Rightarrow> nat \<Rightarrow> bool" where
  "sent_upto S W s m \<longleftrightarrow>
     m \<le> length S \<and> W = take m S @ bs_contents (se_stream s) \<and>
     unat (se_next_seqno s) = 1 + m + (if se_fin s then 1 else 0)"

definition sender_inv :: "bytes \<Rightarrow> bytes \<Rightarrow> WrappingInt32 \<Rightarrow> TCPSender \<Rightarrow> bool" where
  "sender_inv S W isn s \<longleftrightarrow>
     sender_ok s \<and> se_syned s \<and> se_isn s = isn \<and> (\<exists>m. sent_upto S W s m) \<and>
     (se_fin s \<longrightarrow> bs_input_ended (se_stream s) \<and> bs_contents (se_stream s) = []) \<and>
     (\<forall>g\<in>set (se_segments_out s) \<union> snd ` set (se_tcp_seg_cache s). segment_of S isn g)"

lemma sender_invD:
  assumes "sender_inv S W isn s"
  shows "sender_ok s" and "se_syned s" and "se_isn s = isn" and "\<exists>m. sent_upto S W s m"
    and "se_fin s \<Longrightarrow> bs_input_ended (se_stream s) \<and> bs_contents (se_stream s) = []"
    and "g \<in> set (se_segments_out s) \<Longrightarrow> segment_of S isn g" and "x \<in> set (se_tcp_seg_cache s) \<Longrightarrow> segment_of S isn (snd x)"
  using assms by (auto simp: sender_inv_def)

lemma next_seqno_word:
  assumes "sent_upto S W s m"
  shows "se_next_seqno s = of_nat (1 + m + (if se_fin s then 1 else 0))"
  using assms unfolding sent_upto_def by (metis of_nat_unat ucast_id)

text \<open>The next segment of the stream, sent with \<open>send_segment\<close>.\<close>

lemma send_data:
  assumes inv: "sender_inv S W isn s" and bound: "length S < 2 ^ 31 - 4" and nofin: "\<not> se_fin s"
    and bs: "bs_inv stream" "bs_contents (se_stream s) = d @ bs_contents stream" "bs_input_ended stream = bs_input_ended (se_stream s)"
    and ext: "prefix W S" "bs_input_ended (se_stream s) \<longrightarrow> W = S"
    and fin: "fin \<longrightarrow> bs_input_ended stream \<and> bs_contents stream = []"
    and g: "Buffer_str (ts_payload g) = d" "th_seqno (ts_header g) = wrap (se_next_seqno s) isn" "\<not> th_syn (ts_header g)"
      "th_fin (ts_header g) = fin"
    and len: "unat n = length d + (if fin then 1 else 0)"
  shows "sender_inv S W isn (send_segment g n (s\<lparr>se_syned := True, se_stream := stream, se_fin := fin\<rparr>))"
proof -
  obtain m where m: "sent_upto S W s m" using sender_invD(4) [OF inv] by blast
  have W: "W = take m S @ d @ bs_contents stream" "m \<le> length S" using m bs(2) by (auto simp: sent_upto_def)
  then obtain R where S: "S = take m S @ d @ bs_contents stream @ R" using ext(1) by (auto simp: prefix_def)
  then have "drop m S = d @ bs_contents stream @ R" using W(2) by (metis append_eq_conv_conj length_take min.absorb2)
  then have d: "d = take (length d) (drop m S)" by simp
  have l: "m + length d \<le> length S" using arg_cong [OF S, of length] W(2) by simp
  have f: "m + length d = length S" if fin
  proof -
    have "W = S" using ext(2) fin bs(3) that by simp
    then show ?thesis using W fin that by (metis append_Nil2 length_append length_take min.absorb2)
  qed
  have take: "take (m + length d) S = take m S @ d" using d by (simp add: take_add)
  have "segment_of S isn g"
  proof -
    have "th_seqno (ts_header g) = wrap (of_nat (m + 1)) isn" using g(2) next_seqno_word [OF m] nofin by (simp add: add.commute)
    then show ?thesis using g l d f by (auto simp: segment_of_def Let_def intro!: exI [of _ m])
  qed
  moreover have "unat (se_next_seqno s + n) = 1 + (m + length d) + (if fin then 1 else 0)"
  proof -
    have "unat (se_next_seqno s) = 1 + m" using m nofin by (simp add: sent_upto_def)
    then show ?thesis using len l bound by (subst unat_add_small) auto
  qed
  ultimately show ?thesis using inv bs(1) W l take fin
    by (auto simp: sender_inv_def send_segment_def sent_upto_def sender_ok_def intro!: exI [of _ "m + length d"])
qed

lemma segment_of_cong:
  "segment_of S isn (g\<lparr>ts_header := (ts_header g)\<lparr>th_ack := a, th_ackno := k, th_win := w\<rparr>\<rparr>) = segment_of S isn g"
  by (simp add: segment_of_def Let_def)

lemma fill_step_inv:
  assumes inv: "sender_inv S W isn s" and bound: "length S < 2 ^ 31 - 4"
    and ext: "prefix W S" "bs_input_ended (se_stream s) \<longrightarrow> W = S" and step: "fill_step s = Some (s', b)"
  shows "sender_inv S W isn s' \<and> bs_input_ended (se_stream s') = bs_input_ended (se_stream s)"
proof (cases "ByteStream_buffer_empty (se_stream s) \<and> se_fin s \<or> window_unused s = 0")
  case True
  then have "fill_step s = Some (s, False)" using sender_invD(2) [OF inv] by (elim disjE) (simp_all add: fill_step_def)
  then show ?thesis using step inv by simp
next
  case False
  have b: "bs_inv (se_stream s)" using sender_invD(1) [OF inv] by (simp add: sender_ok_def)
  have syn: "se_syned s" "se_isn s = isn" by (rule sender_invD [OF inv])+
  have nofin: "\<not> se_fin s" using False sender_invD(5) [OF inv] buffer_empty_iff [of "se_stream s"] by blast
  define p where "p = max 1 (min (window_unused s - b2w (\<not> se_syned s)) MAX_PAYLOAD_SIZE)"
  obtain bs' where R: "ByteStream_read p (se_stream s) = Some (take (unat p) (bs_contents (se_stream s)), bs')" "bs_inv bs'"
    "bs_contents bs' = drop (unat p) (bs_contents (se_stream s))" "bs_input_ended bs' = bs_input_ended (se_stream s)"
    using b by (rule read_spec)
  define d where "d = take (unat p) (bs_contents (se_stream s))"
  define fin where "fin \<longleftrightarrow> ByteStream_eof bs' \<and> str_size d + b2w False < window_unused s"
  define g where "g = \<lparr>ts_header = TCPHeader_default\<lparr>th_seqno := wrap (se_next_seqno s) isn, th_syn := False, th_fin := fin\<rparr>,
      ts_payload = Buffer_of d\<rparr>"
  let ?s = "s\<lparr>se_syned := True, se_stream := bs', se_fin := fin\<rparr>"
  have dlen: "length d \<le> 1000" using fill_step_size(1) [OF R(1) p_def, of False] False unfolding d_def by blast
  have len: "unat (length_in_sequence_space g) = length d + (if fin then 1 else 0)"
    using dlen unfolding g_def by (subst length_in_sequence_space_of) auto
  have send: "sender_inv S W isn (send_segment g (length_in_sequence_space g) ?s)"
    by (rule send_data [OF inv bound nofin R(2) _ R(4) ext _ _ _ _ _ len])
       (use R(3) dlen in \<open>auto simp: d_def fin_def g_def ByteStream_eof_def buffer_empty_iff Buffer_str_of\<close>)
  have p: "max 1 (min (window_unused s) MAX_PAYLOAD_SIZE) = p" by (simp add: p_def syn)
  have eq: "fill_step s = (if length_in_sequence_space g = 0 then Some (?s, False)
      else Some (send_segment g (length_in_sequence_space g) ?s, True))"
    using False nofin by (simp add: fill_step_def Let_def syn p R(1) [folded d_def] fin_def g_def)
  have "sender_inv S W isn ?s" if "length_in_sequence_space g = 0"
  proof -
    have "d = []" "\<not> fin" using len that by (auto split: if_splits)
    then have "bs_contents bs' = bs_contents (se_stream s)" using R(3) by (auto simp: d_def)
    then show ?thesis using \<open>\<not> fin\<close> inv R(2,4) nofin syn by (simp add: sender_inv_def sent_upto_def sender_ok_def)
  qed
  then show ?thesis using step send R(4) unfolding eq by (auto simp: send_segment_def split: if_splits)
qed

lemma fill_loop_inv:
  assumes "sender_inv S W isn s" and "length S < 2 ^ 31 - 4" and "prefix W S" and "bs_input_ended (se_stream s) \<longrightarrow> W = S"
    and "fill_loop s = Some s'"
  shows "sender_inv S W isn s' \<and> bs_input_ended (se_stream s') = bs_input_ended (se_stream s)"
  using assms
proof (induction s rule: fill_loop.induct)
  case (1 s)
  obtain s1 b where s1: "fill_step s = Some (s1, b)" using "1.prems"(5) by (subst (asm) fill_loop.simps) (auto split: option.splits)
  note F = fill_step_inv [OF "1.prems"(1-4) s1]
  show ?case
  proof (cases b)
    case True
    then have "fill_loop s1 = Some s'" using "1.prems"(5) s1 by (subst (asm) fill_loop.simps) simp
    then show ?thesis using "1.IH" [of "(s1, b)" s1 b] s1 True F "1.prems"(2-4) by auto
  next
    case False
    then show ?thesis using "1.prems"(5) s1 F by (subst (asm) fill_loop.simps) simp
  qed
qed

lemma fill_zero_window_inv:
  assumes inv: "sender_inv S W isn s" and bound: "length S < 2 ^ 31 - 4"
    and ext: "prefix W S" "bs_input_ended (se_stream s) \<longrightarrow> W = S" and fill: "fill_zero_window s = Some s'"
  shows "sender_inv S W isn s' \<and> bs_input_ended (se_stream s') = bs_input_ended (se_stream s)"
proof -
  have b: "bs_inv (se_stream s)" using sender_invD(1) [OF inv] by (simp add: sender_ok_def)
  have syn: "se_syned s" "se_isn s = isn" by (rule sender_invD [OF inv])+
  have same: "s\<lparr>se_syned := True\<rparr> = s" using syn(1) by simp
  consider (data) "bs_contents (se_stream s) \<noteq> []" | (fin) "bs_contents (se_stream s) = []" "bs_input_ended (se_stream s)" "\<not> se_fin s"
    | (quiet) "bs_contents (se_stream s) = []" "\<not> (bs_input_ended (se_stream s) \<and> \<not> se_fin s)" by blast
  then show ?thesis
  proof cases
    case data
    have nofin: "\<not> se_fin s" using data sender_invD(5) [OF inv] by blast
    obtain bs' where R: "ByteStream_read 1 (se_stream s) = Some (take (unat (1 :: u64)) (bs_contents (se_stream s)), bs')" "bs_inv bs'"
      "bs_contents bs' = drop (unat (1 :: u64)) (bs_contents (se_stream s))" "bs_input_ended bs' = bs_input_ended (se_stream s)"
      using b by (rule read_spec)
    obtain x xs where x: "bs_contents (se_stream s) = x # xs" using data by (cases "bs_contents (se_stream s)") auto
    let ?g = "\<lparr>ts_header = TCPHeader_default\<lparr>th_seqno := wrap (se_next_seqno s) isn\<rparr>, ts_payload = Buffer_of [x]\<rparr>"
    have "sender_inv S W isn (send_segment ?g 1 (s\<lparr>se_syned := True, se_stream := bs', se_fin := False\<rparr>))"
      by (rule send_data [OF inv bound nofin R(2) _ R(4) ext, where d = "[x]" and fin = False])
         (use R(3) x in \<open>auto simp: TCPHeader_default_def Buffer_str_of\<close>)
    moreover have "length_in_sequence_space (TCPSegment_default\<lparr>ts_payload := Buffer_of [x]\<rparr>) \<noteq> 0"
      by (simp add: length_in_sequence_space_def TCPSegment_default_def TCPHeader_default_def Buffer_str_of str_size_def)
    then have "fill_zero_window s = Some (send_segment ?g 1 (s\<lparr>se_stream := bs'\<rparr>))"
      using data R(1) x syn by (simp add: fill_zero_window_def buffer_empty_iff TCPSegment_default_def)
    moreover have "s\<lparr>se_syned := True, se_stream := bs', se_fin := False\<rparr> = s\<lparr>se_stream := bs'\<rparr>"
      using syn nofin by (cases s) simp
    ultimately show ?thesis using fill R(4) by (simp add: send_segment_def)
  next
    case fin
    let ?g = "\<lparr>ts_header = TCPHeader_default\<lparr>th_seqno := wrap (se_next_seqno s) isn, th_fin := True\<rparr>, ts_payload = Buffer_default\<rparr>"
    have "sender_inv S W isn (send_segment ?g 1 (s\<lparr>se_syned := True, se_stream := se_stream s, se_fin := True\<rparr>))"
      by (rule send_data [OF inv bound fin(3) b _ refl ext, where d = "[]" and fin = True])
         (use fin in \<open>auto simp: TCPHeader_default_def\<close>)
    moreover have "fill_zero_window s = Some (send_segment ?g 1 (s\<lparr>se_fin := True\<rparr>))"
      using fin syn by (simp add: fill_zero_window_def buffer_empty_iff ByteStream_eof_def TCPSegment_default_def
          length_in_sequence_space_def TCPHeader_default_def Buffer_str_of str_size_def)
    moreover have "s\<lparr>se_syned := True, se_stream := se_stream s, se_fin := True\<rparr> = s\<lparr>se_fin := True\<rparr>" using syn by (cases s) simp
    ultimately show ?thesis using fill by (simp add: send_segment_def)
  next
    case quiet
    have "fill_zero_window s = Some s"
      using quiet by (auto simp: fill_zero_window_def buffer_empty_iff ByteStream_eof_def TCPSegment_default_def
          length_in_sequence_space_def TCPHeader_default_def Buffer_str_of str_size_def)
    then show ?thesis using fill inv by simp
  qed
qed

lemma fill_window_inv:
  assumes "sender_inv S W isn s" and "length S < 2 ^ 31 - 4" and "prefix W S" and "bs_input_ended (se_stream s) \<longrightarrow> W = S"
    and "TCPSender_fill_window s = Some s'"
  shows "sender_inv S W isn s' \<and> bs_input_ended (se_stream s') = bs_input_ended (se_stream s)"
  using assms fill_zero_window_inv [OF assms(1-4)] fill_loop_inv [OF assms(1-4)]
  by (auto simp: TCPSender_fill_window_def split: if_splits)

lemma sender_inv_cache:
  assumes "sender_inv S W isn s" and "sender_ok s'" and "se_syned s' = se_syned s" and "se_isn s' = se_isn s"
    and "se_stream s' = se_stream s" and "se_fin s' = se_fin s" and "se_next_seqno s' = se_next_seqno s"
    and "set (se_segments_out s') \<subseteq> set (se_segments_out s) \<union> snd ` set (se_tcp_seg_cache s)"
    and "snd ` set (se_tcp_seg_cache s') \<subseteq> snd ` set (se_tcp_seg_cache s)"
  shows "sender_inv S W isn s'"
  using assms by (auto simp: sender_inv_def sent_upto_def)

lemma snd_restart_first: "snd ` set (restart_first now cache) = snd ` set cache"
  by (cases cache) (force simp: restart_first_def)+

lemma ack_inv:
  assumes "sender_inv S W isn s"
  shows "sender_inv S W isn (TCPSender_ack_received k w s)"
proof (rule sender_inv_cache [OF assms])
  show "sender_ok (TCPSender_ack_received k w s)" by (rule sender_ok_ack_received [OF sender_invD(1) [OF assms]])
  show "snd ` set (se_tcp_seg_cache (TCPSender_ack_received k w s)) \<subseteq> snd ` set (se_tcp_seg_cache s)"
    using image_mono [OF set_remove_acked, of snd]
    by (simp add: TCPSender_ack_received_def Let_def remove_acked_seg_def snd_restart_first)
qed (simp_all add: TCPSender_ack_received_def Let_def remove_acked_seg_def)

lemma tick_inv:
  assumes "sender_inv S W isn s"
  shows "sender_inv S W isn (TCPSender_tick ms s)"
proof (rule sender_inv_cache [OF assms])
  let ?r = "remove_acked (s\<lparr>se_now_time_ms := se_now_time_ms s + ms\<rparr>) (se_tcp_seg_cache s)"
  have "set ?r \<subseteq> set (se_tcp_seg_cache s)" by (rule set_remove_acked)
  then have sub: "snd ` set ?r \<subseteq> snd ` set (se_tcp_seg_cache s)" by (rule image_mono)
  show "sender_ok (TCPSender_tick ms s)" by (rule sender_ok_tick [OF sender_invD(1) [OF assms]])
  show "set (se_segments_out (TCPSender_tick ms s)) \<subseteq> set (se_segments_out s) \<union> snd ` set (se_tcp_seg_cache s)"
    using sub by (cases ?r) (auto simp: TCPSender_tick_def Let_def remove_acked_seg_def split: if_splits intro: rev_image_eqI)
  show "snd ` set (se_tcp_seg_cache (TCPSender_tick ms s)) \<subseteq> snd ` set (se_tcp_seg_cache s)"
    using sub by (cases ?r; cases "hd ?r") (simp_all add: TCPSender_tick_def Let_def remove_acked_seg_def)
qed (simp_all add: TCPSender_tick_def Let_def remove_acked_seg_def split: list.split)

lemma empty_segment_inv:
  assumes "sender_inv S W isn s"
  shows "sender_inv S W isn (TCPSender_send_empty_segment s)"
proof -
  obtain m where m: "sent_upto S W s m" using sender_invD(4) [OF assms] by blast
  let ?g = "TCPSegment_default\<lparr>ts_header := TCPHeader_default\<lparr>th_seqno := wrap (se_next_seqno s) (se_isn s)\<rparr>\<rparr>"
  have "segment_of S isn ?g"
    unfolding next_seqno_word [OF m] segment_of_def Let_def
    using m sender_invD(3) [OF assms]
    by (auto simp: TCPSegment_default_def TCPHeader_default_def sent_upto_def intro!: exI [of _ "m + (if se_fin s then 1 else 0)"])
  then show ?thesis using assms by (auto simp: sender_inv_def TCPSender_send_empty_segment_def sent_upto_def sender_ok_def)
qed

lemma write_inv:
  assumes "sender_inv S W isn s" and "ByteStream_write d (se_stream s) = (n, bs')" and "length d < 2 ^ 64"
    and "prefix (W @ take (unat n) d) S"
  shows "sender_inv S (W @ take (unat n) d) isn (s\<lparr>se_stream := bs'\<rparr>)" and "bs_input_ended bs' = bs_input_ended (se_stream s)"
    and "bs_input_ended (se_stream s) \<Longrightarrow> take (unat n) d = []"
proof -
  have b: "bs_inv (se_stream s)" using sender_invD(1) [OF assms(1)] by (simp add: sender_ok_def)
  note w = write_spec [OF b assms(3,2)]
  show ended: "bs_input_ended bs' = bs_input_ended (se_stream s)" by (rule w(7))
  show none: "take (unat n) d = []" if "bs_input_ended (se_stream s)" using w(1) that by (simp add: accepted_def)
  show "sender_inv S (W @ take (unat n) d) isn (s\<lparr>se_stream := bs'\<rparr>)"
    using assms(1) w(2,3) ended none by (auto simp: sender_inv_def sent_upto_def sender_ok_def)
qed

lemma stream_flags_inv:
  "sender_inv S W isn s \<Longrightarrow> sender_inv S W isn (s\<lparr>se_stream := ByteStream_set_error (se_stream s)\<rparr>)"
  "sender_inv S W isn s \<Longrightarrow> sender_inv S W isn (s\<lparr>se_stream := ByteStream_end_input (se_stream s)\<rparr>)"
  by (auto simp: sender_inv_def sent_upto_def bs_contents_def ByteStream_set_error_def ByteStream_end_input_def sender_ok_def bs_inv_def)

section \<open>The connection that writes\<close>

definition writer_inv :: "bytes \<Rightarrow> bytes \<Rightarrow> WrappingInt32 \<Rightarrow> TCPConnection \<Rightarrow> bool" where
  "writer_inv S W isn a \<longleftrightarrow> sender_inv S W isn (cn_sender a) \<and> (\<forall>g\<in>set (cn_segments_out a). segment_of S isn g)"

abbreviation ended :: "TCPConnection \<Rightarrow> bool" where
  "ended a \<equiv> bs_input_ended (se_stream (cn_sender a))"

text \<open>The streams that the writer may still come to have written.\<close>

definition extends :: "bytes \<Rightarrow> bytes \<Rightarrow> TCPConnection \<Rightarrow> bool" where
  "extends S W a \<longleftrightarrow> prefix W S \<and> (ended a \<longrightarrow> W = S) \<and> length S < 2 ^ 31 - 4"

lemma writer_send:
  assumes "writer_inv S W isn a"
  shows "writer_inv S W isn (send_with_ackno_and_win a)"
proof -
  have "sender_inv S W isn ((cn_sender a)\<lparr>se_segments_out := []\<rparr>)"
    using assms by (auto simp: writer_inv_def sender_inv_def sent_upto_def)
  moreover have "segment_of S isn (with_ackno_and_win t g)" if "g \<in> set (se_segments_out (cn_sender a))" for t g
    using that assms sender_invD(6) unfolding writer_inv_def by (auto simp: with_ackno_and_win_def segment_of_cong)
  ultimately show ?thesis using assms by (auto simp: writer_inv_def send_with_ackno_and_win_def)
qed

lemma writer_fill:
  assumes "writer_inv S W isn a" and "extends S W a" and "conn_fill_window a = Some a'"
  shows "writer_inv S W isn a' \<and> ended a' = ended a"
  using assms fill_window_inv [of S W isn "cn_sender a"] by (auto simp: writer_inv_def conn_fill_window_def extends_def)

lemma writer_fill_send:
  assumes "writer_inv S W isn a" and "extends S W a" and "conn_fill_window a = Some a'"
  shows "writer_inv S W isn (send_with_ackno_and_win a') \<and> ended (send_with_ackno_and_win a') = ended a"
  using writer_fill [OF assms] writer_send by (simp add: send_with_ackno_and_win_def)

lemma writer_rst:
  assumes "writer_inv S W isn a"
  shows "writer_inv S W isn (set_rst_state a)" and "writer_inv S W isn (send_rst_seg a)"
    and "ended (set_rst_state a) = ended a" and "ended (send_rst_seg a) = ended a"
proof -
  show "writer_inv S W isn (set_rst_state a)"
    using assms stream_flags_inv(1) by (simp add: writer_inv_def set_rst_state_def Let_def)
  have "segment_of S isn (TCPSegment_default\<lparr>ts_header := TCPHeader_default\<lparr>th_seqno := n, th_rst := True\<rparr>\<rparr>)" for n
    by (simp add: segment_of_def)
  then show "writer_inv S W isn (send_rst_seg a)"
    using assms by (auto simp: writer_inv_def send_rst_seg_def sender_inv_def sent_upto_def)
qed (simp_all add: set_rst_state_def send_rst_seg_def ByteStream_set_error_def Let_def)

lemma writer_tick:
  assumes "writer_inv S W isn a"
  shows "writer_inv S W isn (TCPConnection_tick ms a) \<and> ended (TCPConnection_tick ms a) = ended a"
proof -
  define d where "d = a\<lparr>cn_now_time_ms := cn_now_time_ms a + ms, cn_sender := TCPSender_tick ms (cn_sender a)\<rparr>"
  define e where "e = (if TCPSender_consecutive_retransmissions (cn_sender d) > MAX_RETX_ATTEMPTS
    then set_rst_state (send_rst_seg (d\<lparr>cn_sender := (cn_sender d)\<lparr>se_segments_out := []\<rparr>\<rparr>)) else d)"
  have d: "writer_inv S W isn d" "ended d = ended a"
    using assms tick_inv by (auto simp: d_def writer_inv_def TCPSender_tick_def Let_def remove_acked_seg_def split: list.split)
  let ?c = "d\<lparr>cn_sender := (cn_sender d)\<lparr>se_segments_out := []\<rparr>\<rparr>"
  have c: "writer_inv S W isn ?c" "ended ?c = ended a" using d by (auto simp: writer_inv_def sender_inv_def sent_upto_def)
  have e: "writer_inv S W isn e" "ended e = ended a"
    unfolding e_def using d c writer_rst [OF writer_rst(2) [OF c(1)]] writer_rst(4) [OF c(1)] by auto
  have s: "writer_inv S W isn (send_with_ackno_and_win e)" "ended (send_with_ackno_and_win e) = ended a"
    using writer_send [OF e(1)] e(2) by (simp_all add: send_with_ackno_and_win_def)
  then have "writer_inv S W isn ((send_with_ackno_and_win e)\<lparr>cn_active := False\<rparr>)"
    "ended ((send_with_ackno_and_win e)\<lparr>cn_active := False\<rparr>) = ended a" by (simp_all add: writer_inv_def)
  with s show ?thesis unfolding TCPConnection_tick_def Let_def d_def [symmetric] e_def [symmetric] by simp
qed

lemma writer_segment_received:
  assumes "writer_inv S W isn a" and "extends S W a" and "TCPConnection_segment_received g a = Some a'"
  shows "writer_inv S W isn a' \<and> ended a' = ended a"
proof (cases "th_rst (ts_header g)")
  case True
  have "writer_inv S W isn (a\<lparr>cn_seg_received_time_ms := cn_now_time_ms a\<rparr>)" using assms(1) by (simp add: writer_inv_def)
  from writer_rst(1,3) [OF this] show ?thesis using assms(3) True by (auto simp: TCPConnection_segment_received_def)
next
  case False
  define d where "d = take_segment g (a\<lparr>cn_seg_received_time_ms := cn_now_time_ms a\<rparr>)"
  have d: "writer_inv S W isn d" "ended d = ended a" "extends S W d"
    using assms(1,2) ack_inv by (auto simp: d_def take_segment_def Let_def writer_inv_def extends_def)
  have answered: "writer_inv S W isn (send_with_ackno_and_win (answer_segment g k d')) \<and>
      ended (send_with_ackno_and_win (answer_segment g k d')) = ended a" if "conn_fill_window d = Some d'" for k d'
  proof -
    note F = writer_fill [OF d(1,3) that]
    have "writer_inv S W isn (answer_segment g k d')"
      using F empty_segment_inv by (auto simp: answer_segment_def writer_inv_def)
    from writer_send [OF this] show ?thesis
      using F d(2) by (auto simp: answer_segment_def send_with_ackno_and_win_def TCPSender_send_empty_segment_def)
  qed
  moreover have "writer_inv S W isn (send_with_ackno_and_win d)" "ended (send_with_ackno_and_win d) = ended a"
    using writer_send [OF d(1)] d(2) by (simp_all add: send_with_ackno_and_win_def)
  moreover have "writer_inv S W isn (d\<lparr>cn_active := False\<rparr>)" "ended (d\<lparr>cn_active := False\<rparr>) = ended a"
    using d by (simp_all add: writer_inv_def)
  ultimately show ?thesis using assms(3) False
    by (auto simp: TCPConnection_segment_received_def Let_def d_def [symmetric] split: if_splits option.splits)
qed

lemma writer_write:
  assumes "writer_inv S W isn a" and "TCPConnection_write d a = Some (n, a')" and "length d < 2 ^ 64"
    and "extends S (W @ take (unat n) d) a'"
  shows "writer_inv S (W @ take (unat n) d) isn a' \<and> ended a' = ended a"
proof -
  obtain m bs' where w: "ByteStream_write d (se_stream (cn_sender a)) = (m, bs')" by fastforce
  let ?a = "a\<lparr>cn_sender := (cn_sender a)\<lparr>se_stream := bs'\<rparr>\<rparr>"
  obtain c where c: "conn_fill_window ?a = Some c" "a' = send_with_ackno_and_win c" "n = m"
    using assms(2) w by (auto simp: TCPConnection_write_def split: option.splits)
  have inv: "sender_inv S W isn (cn_sender a)" using assms(1) by (simp add: writer_inv_def)
  have p: "prefix (W @ take (unat m) d) S" using assms(4) c(3) by (simp add: extends_def)
  note w' = write_inv [OF inv w assms(3) p]
  have a: "writer_inv S (W @ take (unat n) d) isn ?a" using w'(1) assms(1) c(3) by (simp add: writer_inv_def)
  have "sender_ok (cn_sender ?a)" using a by (auto simp: writer_inv_def sender_inv_def)
  then obtain s' gs where "conn_fill_window ?a = Some (?a\<lparr>cn_sender := s'\<rparr>)" "filled (cn_sender ?a) gs s'"
    by (rule conn_fill_window_ok)
  then have "ended a' = ended ?a" using c(1,2) by (simp add: filled_def send_with_ackno_and_win_def)
  then have "extends S (W @ take (unat n) d) ?a" using assms(4) by (simp add: extends_def)
  from writer_fill_send [OF a this c(1)] show ?thesis using c(2) w'(2) by simp
qed

lemma writer_end_input:
  assumes "writer_inv W W isn a" and "TCPConnection_end_input_stream a = Some a'" and "length W < 2 ^ 31 - 4"
  shows "writer_inv W W isn a' \<and> ended a'"
proof -
  let ?a = "a\<lparr>cn_sender := (cn_sender a)\<lparr>se_stream := ByteStream_end_input (se_stream (cn_sender a))\<rparr>\<rparr>"
  obtain c where c: "conn_fill_window ?a = Some c" "a' = send_with_ackno_and_win c"
    using assms(2) by (auto simp: TCPConnection_end_input_stream_def)
  have a: "writer_inv W W isn ?a" "ended ?a" using assms(1) stream_flags_inv(2) by (auto simp: writer_inv_def ByteStream_end_input_def)
  then have "extends W W ?a" using assms(3) by (simp add: extends_def)
  from writer_fill_send [OF a(1) this c(1)] show ?thesis using c(2) a(2) by simp
qed

section \<open>The connection that reads\<close>

text \<open>
  A segment without bytes that lies ahead of the assembled stream upsets the reassembler
  (\<open>push_substring_empty_duplicates\<close>, \<open>push_substring_early_end\<close>); the network does not deliver
  one. All other orders, losses and repetitions are allowed.
\<close>

definition in_sequence :: "TCPReceiver \<Rightarrow> TCPSegment \<Rightarrow> bool" where
  "in_sequence t g \<longleftrightarrow>
     (tr_set_isn t \<and> Buffer_str (ts_payload g) = [] \<longrightarrow>
      unwrap (th_seqno (ts_header g)) (tr_isn t) (sr_head_index (tr_reassembler t)) \<le> sr_head_index (tr_reassembler t) + 1)"

lemma segment_of_valid:
  assumes inv: "tr_inv S isn cap (t, out)" and seg: "segment_of S isn g" and norst: "\<not> th_rst (ts_header g)"
    and seq: "in_sequence t g" and bound: "length S < 2 ^ 31 - 4"
  shows "\<exists>i. valid_segment S isn t i g"
proof -
  let ?h = "ts_header g" and ?d = "Buffer_str (ts_payload g)" and ?head = "unat (sr_head_index (tr_reassembler t))"
  have head: "?head \<le> length S" using inv by (simp add: tr_inv_def sr_run_inv_def sr_inv_def sr_core_def)
  show ?thesis
  proof (cases "th_syn ?h")
    case True
    then have "th_seqno ?h = isn" "?d = []" "\<not> th_fin ?h" using seg norst by (auto simp: segment_of_def Let_def)
    then show ?thesis using True head bound by (auto simp: valid_segment_def Let_def frag_def nend_def nstart_def)
  next
    case False
    then obtain i where i: "i \<le> length S + 1" "th_seqno ?h = wrap (of_nat (i + 1)) isn" "?d = take (length ?d) (drop i S)"
      "th_fin ?h \<longrightarrow> i + length ?d = length S" using seg norst by (auto simp: segment_of_def Let_def)
    have u: "unat (of_nat (i + 1) :: u64) = i + 1" "unat (of_nat i :: u64) = i" using i(1) bound by (intro unat_of_nat_small; simp)+
    have near: "ndist (i + 1) ?head < 2 ^ 31" using i(1) head bound by (auto simp: ndist_def)
    have "i \<le> ?head" if "tr_set_isn t" "?d = []"
    proof -
      have "tr_isn t = isn" using inv that(1) by (simp add: tr_inv_def)
      moreover have "unwrap (th_seqno ?h) isn (sr_head_index (tr_reassembler t)) = of_nat (i + 1)"
        using i(2) near u(1) by (intro unwrap_unique) simp_all
      ultimately have "of_nat (i + 1) \<le> sr_head_index (tr_reassembler t) + 1" using seq that by (simp add: in_sequence_def)
      moreover have "unat (sr_head_index (tr_reassembler t) + 1) = ?head + 1" using head bound by (intro unat_add_small [THEN trans]) auto
      ultimately show ?thesis using u(1) by (simp add: word_le_nat_alt)
    qed
    moreover have "length ?d \<le> length S - i" using arg_cong [OF i(3), of length] by simp
    then have "i + length ?d \<le> length S" if "?d \<noteq> [] \<or> i \<le> length S"
      using that i(1) length_greater_0_conv [of ?d] by (cases "?d = []") (simp, linarith)
    ultimately have "valid_segment S isn t i g"
      using False i u near head by (cases "?d = []") (auto simp: valid_segment_def Let_def frag_def nend_def nstart_def)
    then show ?thesis ..
  qed
qed

lemma set_error_fields [simp]:
  "bs_contents (ByteStream_set_error bs) = bs_contents bs" "bs_capacity (ByteStream_set_error bs) = bs_capacity bs"
  "bs_write_count (ByteStream_set_error bs) = bs_write_count bs" "bs_room (ByteStream_set_error bs) = bs_room bs"
  "bs_input_ended (ByteStream_set_error bs) = bs_input_ended bs"
  by (simp_all add: ByteStream_set_error_def bs_contents_def bs_room_def)

lemma receiver_error:
  "tr_inv S isn cap (t\<lparr>tr_reassembler := (tr_reassembler t)\<lparr>sr_output := ByteStream_set_error (TCPReceiver_stream_out t)\<rparr>\<rparr>, out) =
   tr_inv S isn cap (t, out)"
  by (simp add: tr_inv_def sr_run_inv_def sr_inv_def sr_core_def TCPReceiver_stream_out_def received_def window_end_def)

lemma receiver_write: "TCPConnection_write d c = Some (n, c') \<Longrightarrow> cn_receiver c' = cn_receiver c"
  by (auto simp: TCPConnection_write_def split: prod.splits option.splits)

lemma reader_tick:
  assumes "tr_inv S isn cap (cn_receiver b, out)"
  shows "tr_inv S isn cap (cn_receiver (TCPConnection_tick ms b), out)"
  using assms by (simp add: receiver_error TCPConnection_tick_def Let_def set_rst_state_def)

lemma reader_segment_received:
  assumes inv: "tr_inv S isn cap (cn_receiver b, out)" and seg: "segment_of S isn g" and seq: "in_sequence (cn_receiver b) g"
    and bound: "length S < 2 ^ 31 - 4" and step: "TCPConnection_segment_received g b = Some b'"
  shows "tr_inv S isn cap (cn_receiver b', out)"
proof (cases "th_rst (ts_header g)")
  case True
  then show ?thesis using step inv
    by (auto simp: receiver_error TCPConnection_segment_received_def set_rst_state_def Let_def)
next
  case False
  obtain i where "valid_segment S isn (cn_receiver b) i g" using segment_of_valid [OF inv seg False seq bound] by blast
  from segment_received_inv [OF inv this] show ?thesis using step False
    by (auto simp: TCPConnection_segment_received_def Let_def take_segment_def split: if_splits option.splits)
qed

lemma reader_read:
  assumes "tr_inv S isn cap (cn_receiver b, out)" and "TCPConnection_read n b = Some (d, b')"
  shows "tr_inv S isn cap (cn_receiver b', out @ d)"
  using assms(2) receiver_read_inv [OF assms(1)] by (auto simp: TCPConnection_read_def)

section \<open>Two connections and a network\<close>

text \<open>
  The state: the writer, everything it has ever sent, the reader, the bytes written and the bytes
  read. The network keeps what was sent and may deliver any of it at any time, once, often or
  never. What arrives at the writer is arbitrary, and both ends may do whatever their owners
  can call.
\<close>

type_synonym transfer = "TCPConnection \<times> TCPSegment list \<times> TCPConnection \<times> bytes \<times> bytes"

inductive transfer_step :: "transfer \<Rightarrow> transfer \<Rightarrow> bool" where
  tf_write: "length d < 2 ^ 64 \<Longrightarrow> TCPConnection_write d a = Some (n, a') \<Longrightarrow>
     transfer_step (a, net, b, W, out) (a', net, b, W @ take (unat n) d, out)"
| tf_end: "TCPConnection_end_input_stream a = Some a' \<Longrightarrow> transfer_step (a, net, b, W, out) (a', net, b, W, out)"
| tf_writer_receives: "TCPConnection_segment_received g a = Some a' \<Longrightarrow> transfer_step (a, net, b, W, out) (a', net, b, W, out)"
| tf_writer_ticks: "transfer_step (a, net, b, W, out) (TCPConnection_tick ms a, net, b, W, out)"
| tf_writer_reads: "TCPConnection_read n a = Some (d, a') \<Longrightarrow> transfer_step (a, net, b, W, out) (a', net, b, W, out)"
| tf_send: "TCPConnection_drain a = (gs, a') \<Longrightarrow> transfer_step (a, net, b, W, out) (a', net @ gs, b, W, out)"
| tf_deliver: "g \<in> set net \<Longrightarrow> in_sequence (cn_receiver b) g \<Longrightarrow> TCPConnection_segment_received g b = Some b' \<Longrightarrow>
     transfer_step (a, net, b, W, out) (a, net, b', W, out)"
| tf_read: "TCPConnection_read n b = Some (d, b') \<Longrightarrow> transfer_step (a, net, b, W, out) (a, net, b', W, out @ d)"
| tf_reader_writes: "TCPConnection_write d b = Some (n, b') \<Longrightarrow> transfer_step (a, net, b, W, out) (a, net, b', W, out)"
| tf_reader_ends: "TCPConnection_end_input_stream b = Some b' \<Longrightarrow> transfer_step (a, net, b, W, out) (a, net, b', W, out)"
| tf_reader_connects: "TCPConnection_connect b = Some b' \<Longrightarrow> transfer_step (a, net, b, W, out) (a, net, b', W, out)"
| tf_reader_ticks: "transfer_step (a, net, b, W, out) (a, net, TCPConnection_tick ms b, W, out)"
| tf_reader_sends: "transfer_step (a, net, b, W, out) (a, net, snd (TCPConnection_drain b), W, out)"

text \<open>The writer has called \<open>connect\<close>, the reader is fresh.\<close>

definition transfer_init :: "TCPConfig \<Rightarrow> u32 \<Rightarrow> TCPConfig \<Rightarrow> u32 \<Rightarrow> transfer \<Rightarrow> bool" where
  "transfer_init ca ra cb rb st \<longleftrightarrow>
     (case st of (a, net, b, W, out) \<Rightarrow>
        0 < unat (cf_send_capacity ca) \<and> unat (cf_send_capacity ca) < 2 ^ 63 \<and>
        0 < unat (cf_recv_capacity cb) \<and> unat (cf_recv_capacity cb) < 2 ^ 63 \<and>
        TCPConnection_connect (TCPConnection_new ca ra) = Some a \<and> b = TCPConnection_new cb rb \<and>
        net = [] \<and> W = [] \<and> out = [])"

text \<open>The invariant speaks of every stream that the writer may still come to have written.\<close>

definition transfer_inv :: "WrappingInt32 \<Rightarrow> size_t \<Rightarrow> transfer \<Rightarrow> bool" where
  "transfer_inv isn cap st \<longleftrightarrow>
     (case st of (a, net, b, W, out) \<Rightarrow>
        \<forall>S. extends S W a \<longrightarrow>
          writer_inv S W isn a \<and> (\<forall>g\<in>set net. segment_of S isn g) \<and> tr_inv S isn cap (cn_receiver b, out))"

lemma transfer_invD:
  assumes "transfer_inv isn cap (a, net, b, W, out)" and "extends S W a"
  shows "writer_inv S W isn a" and "\<forall>g\<in>set net. segment_of S isn g" and "tr_inv S isn cap (cn_receiver b, out)"
  using assms by (auto simp: transfer_inv_def)

lemma transfer_init_inv:
  assumes "transfer_init ca ra cb rb st"
  shows "transfer_inv (se_isn (cn_sender (TCPConnection_new ca ra))) (cf_recv_capacity cb) st"
proof -
  let ?s = "TCPSender_new (cf_send_capacity ca) (cf_rt_timeout ca) (cf_fixed_isn ca) ra"
  obtain a net b W out where st: "st = (a, net, b, W, out)" by (cases st)
  have I: "0 < unat (cf_send_capacity ca)" "unat (cf_send_capacity ca) < 2 ^ 63" "0 < unat (cf_recv_capacity cb)"
    "unat (cf_recv_capacity cb) < 2 ^ 63" "TCPConnection_connect (TCPConnection_new ca ra) = Some a"
    "b = TCPConnection_new cb rb" "net = []" "W = []" "out = []" using assms by (auto simp: transfer_init_def st)
  have a: "a = send_with_ackno_and_win ((TCPConnection_new ca ra)\<lparr>cn_sender := syn_sent ?s\<rparr>)"
    using I(5) fill_window_new [OF I(1), of "cf_rt_timeout ca" "cf_fixed_isn ca" ra]
    by (simp add: TCPConnection_connect_def conn_fill_window_def connection_new_fields)
  have inv: "writer_inv S [] (se_isn ?s) a \<and> tr_inv S (se_isn ?s) (cf_recv_capacity cb) (cn_receiver b, [])"
    if "length S < 2 ^ 31 - 4" for S
  proof -
    have "segment_of S (se_isn ?s) (syn_seg (se_isn ?s))"
      by (simp add: segment_of_def syn_seg_def TCPHeader_default_def Buffer_str_of)
    then have "sender_inv S [] (se_isn ?s) (syn_sent ?s)"
      using I(1,2) by (auto simp: sender_inv_def sent_upto_def syn_sent_def sender_ok_def TCPSender_new_def Let_def bs_inv_new)
    then have "writer_inv S [] (se_isn ?s) a"
      unfolding a by (intro writer_send) (simp add: writer_inv_def connection_new_fields)
    moreover have "tr_init S (cf_recv_capacity cb) (cn_receiver b, [])"
      using I that by (simp add: tr_init_def connection_new_fields)
    then have "tr_inv S (se_isn ?s) (cf_recv_capacity cb) (cn_receiver b, [])" by (rule tr.init_inv)
    ultimately show ?thesis by blast
  qed
  then show ?thesis using I(7-9) by (auto simp: transfer_inv_def st extends_def connection_new_fields)
qed

lemma stream_write_ended:
  assumes "sender_ok (cn_sender a)" and "length d < 2 ^ 64" and "TCPConnection_write d a = Some (n, a')"
  shows "ended a' = ended a \<and> (ended a \<longrightarrow> take (unat n) d = [])"
proof -
  obtain m bs' where w: "ByteStream_write d (se_stream (cn_sender a)) = (m, bs')" by fastforce
  let ?a = "a\<lparr>cn_sender := (cn_sender a)\<lparr>se_stream := bs'\<rparr>\<rparr>"
  have b: "bs_inv (se_stream (cn_sender a))" using assms(1) by (simp add: sender_ok_def)
  note W = write_spec [OF b assms(2) w]
  have "sender_ok (cn_sender ?a)" using sender_ok_write [OF assms(1,2) w] by simp
  then obtain s' gs where "conn_fill_window ?a = Some (?a\<lparr>cn_sender := s'\<rparr>)" "filled (cn_sender ?a) gs s'"
    by (rule conn_fill_window_ok)
  then show ?thesis using assms(3) W(1,7) by (auto simp: TCPConnection_write_def w filled_def accepted_def)
qed

lemma extends_self: "extends S W a \<Longrightarrow> extends W W b"
  by (auto simp: extends_def prefix_def)

lemma extends_cong: "ended a' = ended a \<Longrightarrow> extends S W a' = extends S W a"
  by (simp add: extends_def)

lemma transfer_step_inv:
  assumes "transfer_inv isn cap st" and "transfer_step st st'"
  shows "transfer_inv isn cap st'"
  using assms(2,1)
proof (induction rule: transfer_step.induct)
  case (tf_write d a n a' net b W out)
  show ?case unfolding transfer_inv_def prod.case
  proof (intro allI impI)
    fix S assume S: "extends S (W @ take (unat n) d) a'"
    have "extends W W a" using S by (auto simp: extends_def prefix_def)
    then have "sender_ok (cn_sender a)" using transfer_invD(1) [OF tf_write(3)] by (auto simp: writer_inv_def sender_inv_def)
    note E = stream_write_ended [OF this tf_write(1,2)]
    have "extends S W a" using S E by (auto simp: extends_def prefix_def)
    note I = transfer_invD [OF tf_write(3) this]
    from writer_write [OF I(1) tf_write(2,1) S] I(2,3)
    show "writer_inv S (W @ take (unat n) d) isn a' \<and> (\<forall>g\<in>set net. segment_of S isn g) \<and> tr_inv S isn cap (cn_receiver b, out)" by blast
  qed
next
  case (tf_end a a' net b W out)
  show ?case unfolding transfer_inv_def prod.case
  proof (intro allI impI)
    fix S assume S: "extends S W a'"
    note I = transfer_invD [OF tf_end(2) extends_self [OF S]]
    have "length W < 2 ^ 31 - 4" using extends_self [OF S, of a'] by (simp add: extends_def)
    note E = writer_end_input [OF I(1) tf_end(1) this]
    then have "W = S" using S by (simp add: extends_def)
    with E I(2,3) show "writer_inv S W isn a' \<and> (\<forall>g\<in>set net. segment_of S isn g) \<and> tr_inv S isn cap (cn_receiver b, out)" by blast
  qed
next
  case (tf_writer_receives g a a' net b W out)
  show ?case unfolding transfer_inv_def prod.case
  proof (intro allI impI)
    fix S assume S: "extends S W a'"
    note self = extends_self [OF S, of a]
    have "ended a' = ended a"
      using writer_segment_received [OF transfer_invD(1) [OF tf_writer_receives(2) self] self tf_writer_receives(1)] by blast
    then have S': "extends S W a" using S by (simp add: extends_def)
    note I = transfer_invD [OF tf_writer_receives(2) S']
    from writer_segment_received [OF I(1) S' tf_writer_receives(1)] I(2,3)
    show "writer_inv S W isn a' \<and> (\<forall>g\<in>set net. segment_of S isn g) \<and> tr_inv S isn cap (cn_receiver b, out)" by blast
  qed
next
  case (tf_writer_ticks a net b W out ms)
  show ?case unfolding transfer_inv_def prod.case
  proof (intro allI impI)
    fix S assume S: "extends S W (TCPConnection_tick ms a)"
    have "ended (TCPConnection_tick ms a) = ended a"
      using writer_tick [OF transfer_invD(1) [OF tf_writer_ticks extends_self [OF S]]] by blast
    then have "extends S W a" using S by (simp add: extends_def)
    note I = transfer_invD [OF tf_writer_ticks this]
    from writer_tick [OF I(1)] I(2,3)
    show "writer_inv S W isn (TCPConnection_tick ms a) \<and> (\<forall>g\<in>set net. segment_of S isn g) \<and> tr_inv S isn cap (cn_receiver b, out)" by blast
  qed
next
  case (tf_writer_reads n a d a' net b W out)
  then show ?case by (auto simp: transfer_inv_def TCPConnection_read_def extends_def writer_inv_def)
next
  case (tf_send a gs a' net b W out)
  then show ?case by (auto simp: transfer_inv_def TCPConnection_drain_def extends_def writer_inv_def)
next
  case (tf_deliver g net b b' a W out)
  then show ?case using reader_segment_received [of _ isn cap b out g b'] by (auto simp: transfer_inv_def extends_def)
next
  case (tf_read n b d b' a net W out)
  then show ?case using reader_read by (fastforce simp: transfer_inv_def)
next
  case (tf_reader_writes d b n b' a net W out)
  then show ?case using receiver_write by (simp add: transfer_inv_def)
next
  case (tf_reader_ticks a net b W out ms)
  then show ?case using reader_tick by (fastforce simp: transfer_inv_def)
next
  case (tf_reader_sends a net b W out)
  then show ?case by (simp add: transfer_inv_def TCPConnection_drain_def)
qed (simp_all add: transfer_inv_def)

interpretation tf: invariant_system "transfer_init ca ra cb rb" transfer_step
  "transfer_inv (se_isn (cn_sender (TCPConnection_new ca ra))) (cf_recv_capacity cb)"
  by unfold_locales (auto intro: transfer_init_inv transfer_step_inv)

section \<open>Properties\<close>

text \<open>
  C1: end to end. For all configurations with capacities between 1 and \<open>2 ^ 63 - 1\<close>, all writes of less
  than \<open>2 ^ 31 - 5\<close> bytes in total, all reads and acknowledgments, all timings and a network that
  loses, repeats, delays and reorders segments, but delivers no segment without payload (a bare
  acknowledgment or FIN) ahead of the assembled stream (\<open>in_sequence\<close>): what the reader has got is a prefix of what was written,
  what it can still read continues that prefix, and when its stream is at its end it has got
  everything, and the writer has indeed ended its stream.
\<close>
theorem TCP_delivers_prefix:
  assumes "reachable (transfer_init ca ra cb rb) transfer_step (a, net, b, W, out)" and "length W < 2 ^ 31 - 5"
  shows "prefix (out @ bs_contents (TCPReceiver_stream_out (cn_receiver b))) W \<and>
    (bs_input_ended (TCPReceiver_stream_out (cn_receiver b)) \<longrightarrow>
      out @ bs_contents (TCPReceiver_stream_out (cn_receiver b)) = W \<and> bs_input_ended (se_stream (cn_sender a)))"
proof -
  let ?isn = "se_isn (cn_sender (TCPConnection_new ca ra))" and ?t = "cn_receiver b"
  let ?head = "unat (sr_head_index (tr_reassembler ?t))"
  have inv: "transfer_inv ?isn (cf_recv_capacity cb) (a, net, b, W, out)" by (rule tf.reachable_inv [OF assms(1)])
  have facts: "out @ bs_contents (TCPReceiver_stream_out ?t) = take ?head S \<and> ?head \<le> length S \<and>
      (bs_input_ended (TCPReceiver_stream_out ?t) \<longrightarrow> ?head = length S)" if "extends S W a" for S
  proof -
    have r: "sr_inv S out (tr_reassembler ?t)"
      using transfer_invD(3) [OF inv that] by (simp add: tr_inv_def sr_run_inv_def)
    then have "sr_core S out (tr_reassembler ?t)" by (simp add: sr_inv_def)
    then show ?thesis using ended_iff [OF r] sr_coreD(2,4) by (auto simp: TCPReceiver_stream_out_def)
  qed
  have W: "extends W W a" using assms(2) by (simp add: extends_def)
  have "bs_input_ended (se_stream (cn_sender a))" if e: "bs_input_ended (TCPReceiver_stream_out ?t)"
  proof (rule ccontr)
    assume "\<not> bs_input_ended (se_stream (cn_sender a))"
    then have "extends (W @ [0]) W a" using assms(2) by (simp add: extends_def)
    from facts [OF this] facts [OF W] e show False by simp
  qed
  then show ?thesis using facts [OF W] by (auto simp: take_is_prefix)
qed

text \<open>A run: the handshake, a write of two bytes, and a read at the other end.\<close>

definition small_config :: TCPConfig where
  "small_config = \<lparr>cf_rt_timeout = 1000, cf_recv_capacity = 8, cf_send_capacity = 8, cf_fixed_isn = Some (WrappingInt32 0xfffffffe)\<rparr>"

definition run_connected :: TCPConnection where
  "run_connected = the (TCPConnection_connect (TCPConnection_new small_config 0))"

definition run_reader :: TCPConnection where
  "run_reader = the (TCPConnection_segment_received (hd (cn_segments_out run_connected)) (TCPConnection_new small_config 0))"

definition run_established :: TCPConnection where
  "run_established = the (TCPConnection_segment_received (hd (cn_segments_out run_reader)) (snd (TCPConnection_drain run_connected)))"

definition run_written :: TCPConnection where
  "run_written = snd (the (TCPConnection_write [1, 2] run_established))"

definition run_delivered :: TCPConnection where
  "run_delivered = the (TCPConnection_segment_received (last (cn_segments_out run_written)) run_reader)"

lemma run_is_some:
  "\<not> Option.is_none (TCPConnection_connect (TCPConnection_new small_config 0))"
  "\<not> Option.is_none (TCPConnection_segment_received (hd (cn_segments_out run_connected)) (TCPConnection_new small_config 0))"
  "\<not> Option.is_none (TCPConnection_segment_received (hd (cn_segments_out run_reader)) (snd (TCPConnection_drain run_connected)))"
  "map_option fst (TCPConnection_write [1, 2] run_established) = Some 2"
  "\<not> Option.is_none (TCPConnection_segment_received (last (cn_segments_out run_written)) run_reader)"
  by code_simp+

lemma run_delivers:
  "in_sequence (cn_receiver (TCPConnection_new small_config 0)) (hd (cn_segments_out run_connected))"
  "in_sequence (cn_receiver run_reader) (last (cn_segments_out run_written))"
  "map_option fst (TCPConnection_read 8 run_delivered) = Some [1, 2]"
  "cn_segments_out run_connected \<noteq> []" "cn_segments_out run_written \<noteq> []"
  by code_simp+

lemma run_evaluates:
  "TCPConnection_connect (TCPConnection_new small_config 0) = Some run_connected"
  "TCPConnection_segment_received (hd (cn_segments_out run_connected)) (TCPConnection_new small_config 0) = Some run_reader"
  "TCPConnection_segment_received (hd (cn_segments_out run_reader)) (snd (TCPConnection_drain run_connected)) = Some run_established"
  "TCPConnection_write [1, 2] run_established = Some (2, run_written)"
  "TCPConnection_segment_received (last (cn_segments_out run_written)) run_reader = Some run_delivered"
  using run_is_some
  by (auto simp: Option.is_none_def run_connected_def run_reader_def run_established_def run_written_def run_delivered_def)

theorem TCP_delivers_prefix_witness:
  "\<exists>a net b. reachable (transfer_init small_config 0 small_config 0) transfer_step (a, net, b, [1, 2], [1, 2]) \<and>
     prefix ([1, 2] @ bs_contents (TCPReceiver_stream_out (cn_receiver b))) [1, 2]"
proof -
  let ?R = "reachable (transfer_init small_config 0 small_config 0) transfer_step"
  let ?b0 = "TCPConnection_new small_config 0" and ?a0 = "snd (TCPConnection_drain run_connected)"
  let ?n0 = "cn_segments_out run_connected" and ?n1 = "cn_segments_out run_written"
  note E = run_evaluates and D = run_delivers
  obtain b where b: "TCPConnection_read 8 run_delivered = Some ([1, 2], b)" using D(3) by auto
  have "cf_send_capacity small_config = 8" "cf_recv_capacity small_config = 8" by (simp_all add: small_config_def)
  then have "?R (run_connected, [], ?b0, [], [])" by (intro reach_init) (simp add: transfer_init_def E(1))
  then have "?R (?a0, ?n0, ?b0, [], [])"
    using tf_send [of run_connected ?n0 ?a0 "[]"] by (auto simp: TCPConnection_drain_def intro: reach_step)
  then have "?R (?a0, ?n0, run_reader, [], [])"
    by (rule reach_step [where step = transfer_step, OF _ tf_deliver [OF hd_in_set [OF D(4)] D(1) E(2)]])
  then have "?R (run_established, ?n0, run_reader, [], [])" by (rule reach_step [where step = transfer_step, OF _ tf_writer_receives [OF E(3)]])
  then have "?R (run_written, ?n0, run_reader, [] @ take (unat (2 :: u64)) [1, 2], [])"
    by (rule reach_step [where step = transfer_step, OF _ tf_write [OF _ E(4)]]) simp
  then have "?R (snd (TCPConnection_drain run_written), ?n0 @ ?n1, run_reader, [1, 2], [])"
    using tf_send [of run_written ?n1 "snd (TCPConnection_drain run_written)" ?n0] by (auto simp: TCPConnection_drain_def intro: reach_step)
  moreover have "last ?n1 \<in> set (?n0 @ ?n1)" using D(5) by simp
  ultimately have "?R (snd (TCPConnection_drain run_written), ?n0 @ ?n1, run_delivered, [1, 2], [])"
    using reach_step [where step = transfer_step, OF _ tf_deliver [OF _ D(2) E(5)]] by blast
  then have "?R (snd (TCPConnection_drain run_written), ?n0 @ ?n1, b, [1, 2], [] @ [1, 2])"
    by (rule reach_step [where step = transfer_step, OF _ tf_read [OF b]])
  from this TCP_delivers_prefix [OF this] show ?thesis by auto
qed

end
