(* ===== verification/Rendering.thy ===== *)
theory Rendering
  imports Address Ethernet_ARP TCP_Segment IPv4
begin

text \<open>
  The printable renderings of addresses and headers: \<open>to_string\<close> and \<open>summary\<close> of
  \<open>tcp_header.cc\<close>, \<open>ipv4_header.cc\<close>, \<open>ethernet_header.cc\<close> and \<open>arp_message.cc\<close>. A stream with the
  flags \<open>hex\<close> and \<open>boolalpha\<close> writes unsigned numbers with the digits 0 to f and the Booleans
  as words. The theory shows that the renderings of numbers and addresses can be read back.
\<close>

section \<open>Numbers\<close>

text \<open>The digits of a number to a base, most significant first, without leading zeros.\<close>

function digits :: "nat \<Rightarrow> nat \<Rightarrow> nat list" where
  "digits base n = (if n < base \<or> base < 2 then [n] else digits base (n div base) @ [n mod base])"
  by pat_completeness auto
termination
  by (relation "measure snd") auto

declare digits.simps [simp del]

definition hex_char :: "nat \<Rightarrow> char" where
  "hex_char d = (if d < 10 then char_of (48 + d) else char_of (87 + d))"

definition hex :: "nat \<Rightarrow> string" where
  "hex n = map hex_char (digits 16 n)"

text \<open>\<open>setfill('0')\<close> and a field width.\<close>

definition zero_filled :: "nat \<Rightarrow> string \<Rightarrow> string" where
  "zero_filled width s = replicate (width - length s) CHR ''0'' @ s"

definition boolalpha :: "bool \<Rightarrow> string" where
  "boolalpha b = (if b then ''true'' else ''false'')"

section \<open>Addresses and headers\<close>

fun EthernetAddress_to_string :: "EthernetAddress \<Rightarrow> string" where
  "EthernetAddress_to_string [] = []"
| "EthernetAddress_to_string [b] = zero_filled 2 (hex (unat b))"
| "EthernetAddress_to_string (b # bs) = zero_filled 2 (hex (unat b)) @ '':'' @ EthernetAddress_to_string bs"

definition EthernetHeader_to_string :: "EthernetHeader \<Rightarrow> string" where
  "EthernetHeader_to_string h =
     ''dst='' @ EthernetAddress_to_string (eh_dst h) @ '', src='' @ EthernetAddress_to_string (eh_src h) @ '', type='' @
     (if eh_type h = TYPE_IPv4 then ''IPv4''
      else if eh_type h = TYPE_ARP then ''ARP''
      else ''[unknown type '' @ hex (unat (eh_type h)) @ ''!]'')"

definition ARPMessage_to_string :: "ARPMessage \<Rightarrow> string" where
  "ARPMessage_to_string m =
     (let opcode_str = ''(unknown type)'';
          opcode_str = (if am_opcode m = OPCODE_REQUEST then ''REQUEST'' else opcode_str);
          opcode_str = (if am_opcode m = OPCODE_REPLY then ''REPLY'' else opcode_str)
      in ''opcode='' @ opcode_str @ '', sender='' @ EthernetAddress_to_string (am_sender_ethernet_address m) @ ''/'' @
         dotted_quad (am_sender_ip_address m) @ '', target='' @ EthernetAddress_to_string (am_target_ethernet_address m) @ ''/'' @
         dotted_quad (am_target_ip_address m))"

definition newline :: string where
  "newline = [char_of (10 :: nat)]"

definition IPv4Header_to_string :: "IPv4Header \<Rightarrow> string" where
  "IPv4Header_to_string h =
     ''IP version: '' @ hex (unat (ih_ver h)) @ newline @
     ''IP hdr len: '' @ hex (unat (ih_hlen h)) @ newline @
     ''IP tos: '' @ hex (unat (ih_tos h)) @ newline @
     ''IP dgram len: '' @ hex (unat (ih_len h)) @ newline @
     ''IP id: '' @ hex (unat (ih_id h)) @ newline @
     ''Flags: df: '' @ boolalpha (ih_df h) @ '' mf: '' @ boolalpha (ih_mf h) @ newline @
     ''Offset: '' @ hex (unat (ih_offset h)) @ newline @
     ''TTL: '' @ hex (unat (ih_ttl h)) @ newline @
     ''Protocol: '' @ hex (unat (ih_proto h)) @ newline @
     ''Checksum: '' @ hex (unat (ih_cksum h)) @ newline @
     ''Src addr: '' @ hex (unat (ih_src h)) @ newline @
     ''Dst addr: '' @ hex (unat (ih_dst h)) @ newline"

definition IPv4Header_summary :: "IPv4Header \<Rightarrow> string" where
  "IPv4Header_summary h =
     ''IPv'' @ hex (unat (ih_ver h)) @ '', len='' @ hex (unat (ih_len h)) @ '', protocol='' @ hex (unat (ih_proto h)) @ '', '' @
     (if ih_ttl h \<ge> 10 then [] else ''ttl='' @ decimal (unat (ih_ttl h)) @ '', '') @
     ''src='' @ dotted_quad (ih_src h) @ '', dst='' @ dotted_quad (ih_dst h)"

definition TCPHeader_to_string :: "TCPHeader \<Rightarrow> string" where
  "TCPHeader_to_string h =
     ''TCP source port: '' @ hex (unat (th_sport h)) @ newline @
     ''TCP dest port: '' @ hex (unat (th_dport h)) @ newline @
     ''TCP seqno: '' @ hex (unat (raw_value (th_seqno h))) @ newline @
     ''TCP ackno: '' @ hex (unat (raw_value (th_ackno h))) @ newline @
     ''TCP doff: '' @ hex (unat (th_doff h)) @ newline @
     ''Flags: urg: '' @ boolalpha (th_urg h) @ '' ack: '' @ boolalpha (th_ack h) @ '' psh: '' @ boolalpha (th_psh h) @
     '' rst: '' @ boolalpha (th_rst h) @ '' syn: '' @ boolalpha (th_syn h) @ '' fin: '' @ boolalpha (th_fin h) @ newline @
     ''TCP winsize: '' @ hex (unat (th_win h)) @ newline @
     ''TCP cksum: '' @ hex (unat (th_cksum h)) @ newline @
     ''TCP uptr: '' @ hex (unat (th_uptr h)) @ newline"

definition TCPHeader_summary :: "TCPHeader \<Rightarrow> string" where
  "TCPHeader_summary h =
     ''Header(flags='' @ (if th_syn h then ''S'' else []) @ (if th_ack h then ''A'' else []) @
     (if th_rst h then ''R'' else []) @ (if th_fin h then ''F'' else []) @
     '',seqno='' @ decimal (unat (raw_value (th_seqno h))) @ '',ack='' @ decimal (unat (raw_value (th_ackno h))) @
     '',win='' @ decimal (unat (th_win h)) @ '')''"

section \<open>Reading back\<close>

text \<open>Reading digits from the left.\<close>

definition undigits :: "nat \<Rightarrow> nat list \<Rightarrow> nat" where
  "undigits base ds = fold (\<lambda>d n. n * base + d) ds 0"

lemma undigits_digits: "2 \<le> base \<Longrightarrow> undigits base (digits base n) = n"
proof (induction base n rule: digits.induct)
  case (1 base n)
  then show ?case by (subst digits.simps) (auto simp: undigits_def)
qed

lemma digits_less: "2 \<le> base \<Longrightarrow> d \<in> set (digits base n) \<Longrightarrow> d < base"
proof (induction base n rule: digits.induct)
  case (1 base n)
  then show ?case by (subst (asm) (2) digits.simps) (auto split: if_splits)
qed

lemma inj_hex_char: "inj_on hex_char {..<16}"
proof (rule inj_onI)
  fix x y :: nat
  assume "x \<in> {..<16}" "y \<in> {..<16}" "hex_char x = hex_char y"
  then have "(of_char (hex_char x) :: nat) = of_char (hex_char y)" "x < 16" "y < 16" by auto
  then show "x = y" by (auto simp: hex_char_def split: if_splits)
qed

lemma hex_inj: "hex m = hex n \<longleftrightarrow> m = n"
proof
  assume "hex m = hex n"
  moreover have "set (digits 16 k) \<subseteq> {..<16}" for k using digits_less [of 16] by auto
  ultimately have "digits 16 m = digits 16 n"
    unfolding hex_def using inj_on_map_eq_map [of hex_char "digits 16 m" "digits 16 n"] inj_on_subset [OF inj_hex_char] by blast
  then have "undigits 16 (digits 16 m) = undigits 16 (digits 16 n)" by simp
  then show "m = n" by (simp add: undigits_digits)
qed simp

lemma hex_char_0: "hex_char 0 = CHR ''0''"
  by code_simp

lemma zero_filled_byte: "n < 256 \<Longrightarrow> zero_filled 2 (hex n) = [hex_char (n div 16), hex_char (n mod 16)]"
proof (cases "n < 16")
  case True
  then show ?thesis by (simp add: zero_filled_def hex_def digits.simps [of 16 n] hex_char_0)
next
  case False
  moreover assume "n < 256"
  moreover from this have "n div 16 < 16" by auto
  ultimately show ?thesis by (simp add: zero_filled_def hex_def digits.simps [of 16 n] digits.simps [of 16 "n div 16"])
qed

lemma byte_text_inj:
  fixes a b :: u8
  assumes "[hex_char (unat a div 16), hex_char (unat a mod 16)] = [hex_char (unat b div 16), hex_char (unat b mod 16)]"
  shows "a = b"
proof -
  have *: "unat x div 16 < 16" "unat x mod 16 < 16" for x :: u8 using unat_lt_8 [of x] by auto
  then have "unat a div 16 = unat b div 16" "unat a mod 16 = unat b mod 16"
    using assms inj_onD [OF inj_hex_char] by auto
  then have "unat a = unat b" by (metis div_mult_mod_eq)
  then show ?thesis by (simp add: word_eq_unatI)
qed

text \<open>Two Ethernet addresses of one length have the same text only if they are the same address.\<close>

lemma EthernetAddress_to_string_inj:
  "length a = length b \<Longrightarrow> EthernetAddress_to_string a = EthernetAddress_to_string b \<longleftrightarrow> a = b"
proof (induction a arbitrary: b rule: EthernetAddress_to_string.induct)
  case (2 x)
  then obtain y where "b = [y]" by (cases b) auto
  then show ?case using byte_text_inj [of x y] by (auto simp: zero_filled_byte unat_lt_8)
next
  case (3 x x' xs)
  then obtain y y' ys where "b = y # y' # ys" "length xs = length ys" by (cases b; cases "tl b") auto
  then show ?case using "3.IH" [of "y' # ys"] byte_text_inj [of x y] by (auto simp: zero_filled_byte unat_lt_8)
qed simp

end
