(* ===== verification/Network_Simulator.thy ===== *)
theory Network_Simulator
  imports Router Rendering "HOL-Library.Multiset" "HOL-Library.AList"
begin

text \<open>
  \<open>apps/network_simulator.cc\<close>: hosts and a router joined by simulated links, the test scenarios
  and the checks of what each host received. The generator \<open>rd()\<close> is the parameter
  \<open>rd\<close> with its state passed along. \<open>_hosts\<close> is an association list: \<open>unordered_map\<close> leaves
  its order open, which only affects the host whose failed check is reported. What the program
  writes to the terminal is left out; the texts of its exceptions are there.
\<close>

section \<open>Random addresses\<close>

type_synonym 'g rng = "'g \<Rightarrow> u32 \<times> 'g"

fun random_bytes :: "'g rng \<Rightarrow> nat \<Rightarrow> 'g \<Rightarrow> bytes \<times> 'g" where
  "random_bytes rd 0 g = ([], g)"
| "random_bytes rd (Suc n) g =
     (let (w, g1) = rd g;
          (bs, g2) = random_bytes rd n g1
      in (ucast w # bs, g2))"

definition random_host_ethernet_address :: "'g rng \<Rightarrow> 'g \<Rightarrow> EthernetAddress \<times> 'g" where
  "random_host_ethernet_address rd g =
     (let (addr, g') = random_bytes rd 6 g;
          addr = addr[0 := addr ! 0 OR 0x02];
          addr = addr[0 := addr ! 0 AND 0xfe]
      in (addr, g'))"

definition random_router_ethernet_address :: "'g rng \<Rightarrow> 'g \<Rightarrow> EthernetAddress \<times> 'g" where
  "random_router_ethernet_address rd g =
     (let (addr, g') = random_bytes rd 6 g in (addr[0 := 0x02, 1 := 0, 2 := 0], g'))"

section \<open>Texts\<close>

definition string_of_bytes :: "bytes \<Rightarrow> string" where
  "string_of_bytes s = map (\<lambda>b. char_of (unat b)) s"

definition bytes_of_string :: "string \<Rightarrow> bytes" where
  "bytes_of_string s = map of_char s"

definition quote :: string where
  "quote = [char_of (34 :: nat)]"

definition payload_text :: "BufferList \<Rightarrow> string" where
  "payload_text p = '' payload='' @ quote @ string_of_bytes (BufferList_concatenate p) @ quote"

text \<open>The case for ARP falls through to the empty default case.\<close>

definition frame_summary :: "EthernetFrame \<Rightarrow> string res" where
  "frame_summary frame =
     (let ret = EthernetHeader_to_string (ef_header frame)
      in if eh_type (ef_header frame) = TYPE_IPv4
         then
           (case BufferList_to_Buffer (ef_payload frame) of
              Inl e \<Rightarrow> Inl e
            | Inr b \<Rightarrow>
                let (result, dgram) = IPv4Datagram_parse IPv4Datagram_default b
                in if result = NoError
                   then Inr (ret @ '' '' @ IPv4Header_summary (id_header dgram) @ payload_text (id_payload dgram))
                   else Inr (ret @ '' (bad IPv4)''))
         else if eh_type (ef_header frame) = TYPE_ARP
         then
           (case BufferList_to_Buffer (ef_payload frame) of
              Inl e \<Rightarrow> Inl e
            | Inr b \<Rightarrow>
                let (result, arp) = ARPMessage_parse ARPMessage_default b
                in if result = NoError then Inr (ret @ '' '' @ ARPMessage_to_string arp)
                   else Inr (ret @ '' (bad ARP)''))
         else Inr ret)"

section \<open>Hosts\<close>

record Host =
  ho_name :: string
  ho_my_address :: Address
  ho_interface :: AsyncNetworkInterface
  ho_next_hop :: Address
  ho_expecting_to_receive :: "IPv4Datagram list"

definition Host_new :: "'g rng \<Rightarrow> string \<Rightarrow> Address \<Rightarrow> Address \<Rightarrow> 'g \<Rightarrow> Host \<times> 'g" where
  "Host_new rd name my_address next_hop g =
     (let (eth, g') = random_host_ethernet_address rd g
      in (\<lparr>ho_name = name, ho_my_address = my_address,
           ho_interface = AsyncNetworkInterface_of (NetworkInterface_new eth (Address_ipv4_numeric my_address)),
           ho_next_hop = next_hop, ho_expecting_to_receive = []\<rparr>, g'))"

definition datagram_bytes :: "IPv4Datagram \<Rightarrow> bytes res" where
  "datagram_bytes d = map_sum id BufferList_concatenate (IPv4Datagram_serialize d)"

text \<open>Two datagrams compare by their bytes; a datagram that cannot be serialized throws.\<close>

definition same_bytes :: "IPv4Datagram \<Rightarrow> IPv4Datagram \<Rightarrow> bool res" where
  "same_bytes x y =
     (case datagram_bytes x of
        Inl e \<Rightarrow> Inl e
      | Inr a \<Rightarrow> (case datagram_bytes y of Inl e \<Rightarrow> Inl e | Inr b \<Rightarrow> Inr (a = b)))"

fun expecting :: "IPv4Datagram \<Rightarrow> IPv4Datagram list \<Rightarrow> bool res" where
  "expecting expected [] = Inr False"
| "expecting expected (x # xs) =
     (case same_bytes x expected of
        Inl e \<Rightarrow> Inl e
      | Inr True \<Rightarrow> Inr True
      | Inr False \<Rightarrow> expecting expected xs)"

fun remove_expectation :: "IPv4Datagram \<Rightarrow> IPv4Datagram list \<Rightarrow> IPv4Datagram list res" where
  "remove_expectation expected [] = Inr []"
| "remove_expectation expected (x # xs) =
     (case same_bytes x expected of
        Inl e \<Rightarrow> Inl e
      | Inr True \<Rightarrow> Inr xs
      | Inr False \<Rightarrow> map_sum id ((#) x) (remove_expectation expected xs))"

definition Host_datagram :: "'g rng \<Rightarrow> Address \<Rightarrow> u8 \<Rightarrow> Host \<Rightarrow> 'g \<Rightarrow> IPv4Datagram \<times> 'g" where
  "Host_datagram rd destination ttl h g =
     (let (w, g') = rd g;
          payload = BufferList_of_string (bytes_of_string (''random payload: {'' @ decimal (unat w) @ ''}''));
          header = IPv4Header_default\<lparr>ih_src := Address_ipv4_numeric (ho_my_address h),
            ih_dst := Address_ipv4_numeric destination\<rparr>;
          header = header\<lparr>ih_len := 4 * ucast (ih_hlen header) + ucast (BufferList_size payload)\<rparr>
      in (\<lparr>id_header = header\<lparr>ih_ttl := ttl\<rparr>, id_payload = payload\<rparr>, g'))"

definition Host_send_to :: "'g rng \<Rightarrow> Address \<Rightarrow> u8 \<Rightarrow> Host \<Rightarrow> 'g \<Rightarrow> IPv4Datagram res \<times> Host \<times> 'g" where
  "Host_send_to rd destination ttl h g =
     (let (dgram, g') = Host_datagram rd destination ttl h g;
          (e, n) = NetworkInterface_send_datagram dgram (Address_ipv4_numeric (ho_next_hop h)) (ho_interface h);
          h' = h\<lparr>ho_interface := n\<rparr>
      in case e of Some x \<Rightarrow> (Inl x, h', g') | None \<Rightarrow> (Inr dgram, h', g'))"

definition Host_expect :: "IPv4Datagram \<Rightarrow> Host \<Rightarrow> Host" where
  "Host_expect expected h = h\<lparr>ho_expecting_to_receive := ho_expecting_to_receive h @ [expected]\<rparr>"

definition unexpected_message :: "string \<Rightarrow> IPv4Datagram \<Rightarrow> string" where
  "unexpected_message name d =
     ''Host '' @ name @ '' received unexpected Internet datagram: '' @ IPv4Header_summary (id_header d) @ payload_text (id_payload d)"

definition missing_message :: "string \<Rightarrow> IPv4Datagram \<Rightarrow> string" where
  "missing_message name d =
     ''Host '' @ name @ '' did NOT receive an expected Internet datagram: '' @ IPv4Header_summary (id_header d) @
     payload_text (id_payload d)"

text \<open>The loop of \<open>check()\<close> over the received datagrams: what is left of them and of the expectations.\<close>

fun check_loop :: "string \<Rightarrow> IPv4Datagram list \<Rightarrow> IPv4Datagram list \<Rightarrow> exn option \<times> IPv4Datagram list \<times> IPv4Datagram list" where
  "check_loop name [] expectations = (None, [], expectations)"
| "check_loop name (dgram_received # queue) expectations =
     (case expecting dgram_received expectations of
        Inl e \<Rightarrow> (Some e, dgram_received # queue, expectations)
      | Inr False \<Rightarrow> (Some (Runtime_error (unexpected_message name dgram_received)), dgram_received # queue, expectations)
      | Inr True \<Rightarrow>
          (case remove_expectation dgram_received expectations of
             Inl e \<Rightarrow> (Some e, dgram_received # queue, expectations)
           | Inr expectations' \<Rightarrow> check_loop name queue expectations'))"

definition Host_check :: "Host \<Rightarrow> exn option \<times> Host" where
  "Host_check h =
     (let (e, queue, expectations) = check_loop (ho_name h) (ai_datagrams_out (ho_interface h)) (ho_expecting_to_receive h);
          h' = h\<lparr>ho_interface := (ho_interface h)\<lparr>ai_datagrams_out := queue\<rparr>, ho_expecting_to_receive := expectations\<rparr>
      in case e of
           Some x \<Rightarrow> (Some x, h')
         | None \<Rightarrow>
             (case expectations of
                [] \<Rightarrow> (None, h')
              | expected # _ \<Rightarrow> (Some (Runtime_error (missing_message (ho_name h) expected)), h')))"

section \<open>Links\<close>

text \<open>Statements that may throw, one after the other.\<close>

fun run_all :: "('s \<Rightarrow> exn option \<times> 's) list \<Rightarrow> 's \<Rightarrow> exn option \<times> 's" where
  "run_all [] s = (None, s)"
| "run_all (f # fs) s = (case f s of (Some e, s') \<Rightarrow> (Some e, s') | (None, s') \<Rightarrow> run_all fs s')"

text \<open>Popping both queues until the first is empty; popping an empty queue is undefined.\<close>

fun clear :: "'a list \<Rightarrow> 'a list \<Rightarrow> 'a list res" where
  "clear [] queue2 = Inr queue2"
| "clear (_ # queue1) [] = Inl Undefined"
| "clear (_ # queue1) (_ # queue2) = clear queue1 queue2"

definition clear_frames :: "EthernetFrame list \<Rightarrow> AsyncNetworkInterface \<Rightarrow> exn option \<times> AsyncNetworkInterface" where
  "clear_frames frames n =
     (case clear frames (ni_frames_out n) of Inl e \<Rightarrow> (Some e, n) | Inr q \<Rightarrow> (None, n\<lparr>ni_frames_out := q\<rparr>))"

definition whole :: "EthernetFrame \<Rightarrow> EthernetFrame" where
  "whole f = f\<lparr>ef_payload := BufferList_of_string (BufferList_concatenate (ef_payload f))\<rparr>"

fun deliver :: "EthernetFrame list \<Rightarrow> AsyncNetworkInterface \<Rightarrow> exn option \<times> AsyncNetworkInterface" where
  "deliver [] dst = (None, dst)"
| "deliver (f # to_send) dst =
     (case frame_summary (whole f) of
        Inl e \<Rightarrow> (Some e, dst)
      | Inr _ \<Rightarrow>
          (case AsyncNetworkInterface_recv_frame (whole f) dst of
             (Some e, dst') \<Rightarrow> (Some e, dst')
           | (None, dst') \<Rightarrow> deliver to_send dst'))"

definition on_fst :: "('a \<Rightarrow> 'e \<times> 'a) \<Rightarrow> 'a \<times> 'b \<Rightarrow> 'e \<times> 'a \<times> 'b" where
  "on_fst f = (\<lambda>(x, y). let (e, x') = f x in (e, x', y))"

definition on_snd :: "('b \<Rightarrow> 'e \<times> 'b) \<Rightarrow> 'a \<times> 'b \<Rightarrow> 'e \<times> 'a \<times> 'b" where
  "on_snd f = (\<lambda>(x, y). let (e, y') = f y in (e, x, y'))"

definition exchange_frames ::
  "AsyncNetworkInterface \<times> AsyncNetworkInterface \<Rightarrow> exn option \<times> AsyncNetworkInterface \<times> AsyncNetworkInterface" where
  "exchange_frames = (\<lambda>(x, y).
     let x_frames = ni_frames_out x; y_frames = ni_frames_out y
     in run_all
       [on_snd (deliver x_frames), on_fst (deliver y_frames),
        on_fst (clear_frames x_frames), on_snd (clear_frames y_frames)] (x, y))"

definition exchange_frames3 ::
  "AsyncNetworkInterface \<times> AsyncNetworkInterface \<times> AsyncNetworkInterface \<Rightarrow>
   exn option \<times> AsyncNetworkInterface \<times> AsyncNetworkInterface \<times> AsyncNetworkInterface" where
  "exchange_frames3 = (\<lambda>(x, y, z).
     let x_frames = ni_frames_out x; y_frames = ni_frames_out y; z_frames = ni_frames_out z
     in run_all
       [on_snd (on_fst (deliver x_frames)), on_snd (on_snd (deliver x_frames)),
        on_fst (deliver y_frames), on_snd (on_snd (deliver y_frames)),
        on_fst (deliver z_frames), on_snd (on_fst (deliver z_frames)),
        on_fst (clear_frames x_frames), on_snd (on_fst (clear_frames y_frames)), on_snd (on_snd (clear_frames z_frames))]
       (x, y, z))"

section \<open>The network\<close>

record Network =
  ne_router :: Router
  ne_default_id :: size_t
  ne_eth0_id :: size_t
  ne_eth1_id :: size_t
  ne_eth2_id :: size_t
  ne_uun3_id :: size_t
  ne_hs4_id :: size_t
  ne_mit5_id :: size_t
  ne_hosts :: "(string \<times> Host) list"

definition Network_host :: "string \<Rightarrow> Network \<Rightarrow> Host res" where
  "Network_host name net =
     (case map_of (ne_hosts net) name of
        None \<Rightarrow> Inl (Runtime_error (''unknown host: '' @ name))
      | Some h \<Rightarrow> if ho_name h \<noteq> name then Inl (Runtime_error (''invalid host: '' @ name)) else Inr h)"

text \<open>Writing through the references that \<open>host(name)\<close> and \<open>_router.interface(id)\<close> return.\<close>

definition set_host :: "string \<Rightarrow> Host \<Rightarrow> Network \<Rightarrow> Network" where
  "set_host name h net = net\<lparr>ne_hosts := AList.update name h (ne_hosts net)\<rparr>"

definition set_interface :: "size_t \<Rightarrow> AsyncNetworkInterface \<Rightarrow> Network \<Rightarrow> Network" where
  "set_interface i n net =
     net\<lparr>ne_router := (ne_router net)\<lparr>ro_interfaces := (ro_interfaces (ne_router net))[unat i := n]\<rparr>\<rparr>"

definition link :: "size_t \<Rightarrow> string \<Rightarrow> Network \<Rightarrow> exn option \<times> Network" where
  "link i name net =
     (case Router_interface i (ne_router net) of
        Inl e \<Rightarrow> (Some e, net)
      | Inr x \<Rightarrow>
          (case Network_host name net of
             Inl e \<Rightarrow> (Some e, net)
           | Inr h \<Rightarrow>
               let (e, x', y') = exchange_frames (x, ho_interface h)
               in (e, set_interface i x' (set_host name (h\<lparr>ho_interface := y'\<rparr>) net))))"

definition link3 :: "size_t \<Rightarrow> string \<Rightarrow> string \<Rightarrow> Network \<Rightarrow> exn option \<times> Network" where
  "link3 i name1 name2 net =
     (case Router_interface i (ne_router net) of
        Inl e \<Rightarrow> (Some e, net)
      | Inr x \<Rightarrow>
          (case Network_host name1 net of
             Inl e \<Rightarrow> (Some e, net)
           | Inr h1 \<Rightarrow>
               (case Network_host name2 net of
                  Inl e \<Rightarrow> (Some e, net)
                | Inr h2 \<Rightarrow>
                    let (e, x', y', z') = exchange_frames3 (x, ho_interface h1, ho_interface h2)
                    in (e, set_interface i x' (set_host name1 (h1\<lparr>ho_interface := y'\<rparr>)
                          (set_host name2 (h2\<lparr>ho_interface := z'\<rparr>) net))))))"

definition simulate_physical_connections :: "Network \<Rightarrow> exn option \<times> Network" where
  "simulate_physical_connections net =
     run_all
       [link (ne_default_id net) ''default_router'', link (ne_eth0_id net) ''applesauce'',
        link (ne_eth2_id net) ''cherrypie'', link (ne_hs4_id net) ''hs_router'',
        link3 (ne_uun3_id net) ''dm42'' ''dm43''] net"

definition route_network :: "(u32 \<Rightarrow> u32) \<Rightarrow> Network \<Rightarrow> exn option \<times> Network" where
  "route_network shr32 net = (let (e, r) = Router_route shr32 (ne_router net) in (e, net\<lparr>ne_router := r\<rparr>))"

definition simulate_round :: "(u32 \<Rightarrow> u32) \<Rightarrow> Network \<Rightarrow> exn option \<times> Network" where
  "simulate_round shr32 = run_all [route_network shr32, simulate_physical_connections]"

text \<open>The loop over \<open>_hosts\<close>, with the hosts done and the hosts to do.\<close>

fun check_hosts :: "(string \<times> Host) list \<Rightarrow> exn option \<times> (string \<times> Host) list" where
  "check_hosts [] = (None, [])"
| "check_hosts ((name, h) # hosts) =
     (case Host_check h of
        (Some e, h') \<Rightarrow> (Some e, (name, h') # hosts)
      | (None, h') \<Rightarrow> map_prod id ((#) (name, h')) (check_hosts hosts))"

definition Network_simulate :: "(u32 \<Rightarrow> u32) \<Rightarrow> Network \<Rightarrow> exn option \<times> Network" where
  "Network_simulate shr32 net =
     (case run_all (replicate 256 (simulate_round shr32)) net of
        (Some e, net') \<Rightarrow> (Some e, net')
      | (None, net') \<Rightarrow> (let (e, hosts) = check_hosts (ne_hosts net') in (e, net'\<lparr>ne_hosts := hosts\<rparr>)))"

definition add_router_interface :: "'g rng \<Rightarrow> u32 \<Rightarrow> Router \<times> 'g \<Rightarrow> size_t \<times> Router \<times> 'g" where
  "add_router_interface rd ip = (\<lambda>(r, g).
     let (eth, g') = random_router_ethernet_address rd g;
         (i, r') = Router_add_interface (AsyncNetworkInterface_of (NetworkInterface_new eth ip)) r
     in (i, r', g'))"

text \<open>\<open>_hosts.insert\<close> of a new host: the host is made even when the name is taken.\<close>

definition insert_host :: "'g rng \<Rightarrow> string \<Rightarrow> u32 \<Rightarrow> u32 \<Rightarrow> (string \<times> Host) list \<times> 'g \<Rightarrow> (string \<times> Host) list \<times> 'g" where
  "insert_host rd name my_ip next_hop_ip = (\<lambda>(hosts, g).
     let (h, g') = Host_new rd name (Address_from_ipv4_numeric my_ip) (Address_from_ipv4_numeric next_hop_ip) g
     in (if map_of hosts name = None then hosts @ [(name, h)] else hosts, g'))"

definition host_ip :: "string \<Rightarrow> Network \<Rightarrow> u32 res" where
  "host_ip name net = map_sum id (\<lambda>h. Address_ipv4_numeric (ho_my_address h)) (Network_host name net)"

definition add_route :: "u32 \<Rightarrow> u8 \<Rightarrow> u32 option res \<Rightarrow> size_t \<Rightarrow> Network \<Rightarrow> exn option \<times> Network" where
  "add_route route_prefix prefix_length next_hop interface_num net =
     (case next_hop of
        Inl e \<Rightarrow> (Some e, net)
      | Inr a \<Rightarrow> (None, net\<lparr>ne_router := Router_add_route route_prefix prefix_length a interface_num (ne_router net)\<rparr>))"

definition Network_new :: "'g rng \<Rightarrow> 'g \<Rightarrow> (exn option \<times> Network) \<times> 'g" where
  "Network_new rd g0 =
     (let (default_id, rg) = add_router_interface rd (quad 171 67 76 46) (Router_new, g0);
          (eth0_id, rg) = add_router_interface rd (quad 10 0 0 1) rg;
          (eth1_id, rg) = add_router_interface rd (quad 172 16 0 1) rg;
          (eth2_id, rg) = add_router_interface rd (quad 192 168 0 1) rg;
          (uun3_id, rg) = add_router_interface rd (quad 198 178 229 1) rg;
          (hs4_id, rg) = add_router_interface rd (quad 143 195 0 2) rg;
          (mit5_id, r, g) = add_router_interface rd (quad 128 30 76 255) rg;
          hg = insert_host rd ''applesauce'' (quad 10 0 0 2) (quad 10 0 0 1) ([], g);
          hg = insert_host rd ''default_router'' (quad 171 67 76 1) 0 hg;
          hg = insert_host rd ''cherrypie'' (quad 192 168 0 2) (quad 192 168 0 1) hg;
          hg = insert_host rd ''hs_router'' (quad 143 195 0 1) 0 hg;
          hg = insert_host rd ''dm42'' (quad 198 178 229 42) (quad 198 178 229 1) hg;
          (hosts, g) = insert_host rd ''dm43'' (quad 198 178 229 43) (quad 198 178 229 1) hg;
          net = \<lparr>ne_router = r, ne_default_id = default_id, ne_eth0_id = eth0_id, ne_eth1_id = eth1_id,
                 ne_eth2_id = eth2_id, ne_uun3_id = uun3_id, ne_hs4_id = hs4_id, ne_mit5_id = mit5_id, ne_hosts = hosts\<rparr>;
          default_router = map_sum id Some (host_ip ''default_router'' net);
          hs_router = map_sum id Some (host_ip ''hs_router'' net)
      in (run_all
           [add_route (quad 0 0 0 0) 0 default_router default_id,
            add_route (quad 10 0 0 0) 8 (Inr None) eth0_id,
            add_route (quad 172 16 0 0) 16 (Inr None) eth1_id,
            add_route (quad 192 168 0 0) 24 (Inr None) eth2_id,
            add_route (quad 198 178 229 0) 24 (Inr None) uun3_id,
            add_route (quad 143 195 0 0) 17 hs_router hs4_id,
            add_route (quad 143 195 128 0) 18 hs_router hs4_id,
            add_route (quad 143 195 192 0) 19 hs_router hs4_id,
            add_route (quad 128 30 76 255) 16 (Inr (Some (quad 128 30 0 1))) mit5_id] net, g))"

section \<open>The scenarios\<close>

text \<open>
  The blocks of \<open>network_simulator()\<close> have one form: a host sends a datagram, a host
  expects it with its TTL one lower (or nobody does), and the network runs.
\<close>

definition host_sends ::
  "'g rng \<Rightarrow> string \<Rightarrow> u32 res \<Rightarrow> u8 \<Rightarrow> Network \<times> 'g \<Rightarrow> IPv4Datagram res \<times> Network \<times> 'g" where
  "host_sends rd sender destination ttl = (\<lambda>(net, g).
     case destination of
       Inl e \<Rightarrow> (Inl e, net, g)
     | Inr ip \<Rightarrow>
         (case Network_host sender net of
            Inl e \<Rightarrow> (Inl e, net, g)
          | Inr h \<Rightarrow>
              let (d, h', g') = Host_send_to rd (Address_from_ipv4_numeric ip) ttl h g
              in (d, set_host sender h' net, g')))"

definition host_expects :: "string \<Rightarrow> IPv4Datagram \<Rightarrow> Network \<Rightarrow> exn option \<times> Network" where
  "host_expects receiver dgram net =
     (case Network_host receiver net of
        Inl e \<Rightarrow> (Some e, net)
      | Inr h \<Rightarrow> (None, set_host receiver (Host_expect dgram h) net))"

definition scenario ::
  "(u32 \<Rightarrow> u32) \<Rightarrow> 'g rng \<Rightarrow> string \<Rightarrow> (Network \<Rightarrow> u32 res) \<Rightarrow> u8 \<Rightarrow> string option \<Rightarrow> Network \<times> 'g \<Rightarrow> exn option \<times> Network \<times> 'g" where
  "scenario shr32 rd sender destination ttl receiver = (\<lambda>(net, g).
     case host_sends rd sender (destination net) ttl (net, g) of
       (Inl e, s) \<Rightarrow> (Some e, s)
     | (Inr dgram_sent, s) \<Rightarrow>
         run_all
           [on_fst (case receiver of
                      None \<Rightarrow> (\<lambda>net. (None, net))
                    | Some name \<Rightarrow> host_expects name
                        (dgram_sent\<lparr>id_header := (id_header dgram_sent)\<lparr>ih_ttl := ih_ttl (id_header dgram_sent) - 1\<rparr>\<rparr>)),
            on_fst (Network_simulate shr32)] s)"

definition network_simulator :: "(u32 \<Rightarrow> u32) \<Rightarrow> 'g rng \<Rightarrow> 'g \<Rightarrow> exn option \<times> Network \<times> 'g" where
  "network_simulator shr32 rd g0 =
     (case Network_new rd g0 of
        ((Some e, net), g) \<Rightarrow> (Some e, net, g)
      | ((None, net), g) \<Rightarrow>
          run_all
            [scenario shr32 rd ''applesauce'' (host_ip ''cherrypie'') 64 (Some ''cherrypie''),
             scenario shr32 rd ''cherrypie'' (host_ip ''applesauce'') 64 (Some ''applesauce''),
             scenario shr32 rd ''applesauce'' (\<lambda>_. Inr (quad 1 2 3 4)) 64 (Some ''default_router''),
             scenario shr32 rd ''applesauce'' (\<lambda>_. Inr (quad 143 195 131 17)) 64 (Some ''hs_router''),
             scenario shr32 rd ''cherrypie'' (\<lambda>_. Inr (quad 143 195 193 52)) 64 (Some ''hs_router''),
             scenario shr32 rd ''cherrypie'' (\<lambda>_. Inr (quad 143 195 223 255)) 64 (Some ''hs_router''),
             scenario shr32 rd ''cherrypie'' (\<lambda>_. Inr (quad 143 195 224 0)) 64 (Some ''default_router''),
             scenario shr32 rd ''dm42'' (host_ip ''dm43'') 64 (Some ''dm43''),
             scenario shr32 rd ''applesauce'' (\<lambda>_. Inr (quad 1 2 3 4)) 1 None,
             scenario shr32 rd ''applesauce'' (\<lambda>_. Inr (quad 1 2 3 4)) 0 None] (net, g))"

text \<open>The exit status of the program: \<open>EXIT_FAILURE\<close> is 1.\<close>

definition network_simulator_main :: "(u32 \<Rightarrow> u32) \<Rightarrow> 'g rng \<Rightarrow> 'g \<Rightarrow> int" where
  "network_simulator_main shr32 rd g0 = (if fst (network_simulator shr32 rd g0) = None then 0 else 1)"

section \<open>What a check accepts\<close>

definition wire_bytes :: "IPv4Datagram \<Rightarrow> bytes" where
  "wire_bytes d = BufferList_concatenate (wire_payload d)"

lemma same_bytes_ok: "datagram_ok x \<Longrightarrow> datagram_ok y \<Longrightarrow> same_bytes x y = Inr (wire_bytes x = wire_bytes y)"
  by (simp add: same_bytes_def datagram_bytes_def serialize_wire_payload wire_bytes_def)

lemma expecting_ok:
  "datagram_ok d \<Longrightarrow> \<forall>x \<in> set xs. datagram_ok x \<Longrightarrow> expecting d xs = Inr (wire_bytes d \<in> wire_bytes ` set xs)"
  by (induction xs) (auto simp: same_bytes_ok split: bool.splits)

lemma remove_expectation_ok:
  assumes "datagram_ok d" and "\<forall>x \<in> set xs. datagram_ok x"
  shows "\<exists>xs'. remove_expectation d xs = Inr xs' \<and> (\<forall>x \<in> set xs'. datagram_ok x) \<and>
    mset (map wire_bytes xs') = mset (map wire_bytes xs) - {#wire_bytes d#}"
  using assms(2)
proof (induction xs)
  case (Cons x xs)
  then obtain xs' where "remove_expectation d xs = Inr xs'" "\<forall>x \<in> set xs'. datagram_ok x"
    "mset (map wire_bytes xs') = mset (map wire_bytes xs) - {#wire_bytes d#}" by auto
  with Cons.prems assms(1) show ?case by (cases "wire_bytes x = wire_bytes d") (auto simp: same_bytes_ok)
qed simp

lemma check_loop_ok:
  assumes "\<forall>d \<in> set q. datagram_ok d" and "\<forall>x \<in> set xs. datagram_ok x"
  shows "if mset (map wire_bytes q) \<subseteq># mset (map wire_bytes xs)
    then \<exists>xs'. check_loop name q xs = (None, [], xs') \<and>
      mset (map wire_bytes xs') = mset (map wire_bytes xs) - mset (map wire_bytes q)
    else fst (check_loop name q xs) \<noteq> None"
  using assms
proof (induction q arbitrary: xs)
  case (Cons d q)
  show ?case
  proof (cases "wire_bytes d \<in> wire_bytes ` set xs")
    case True
    obtain xs' where xs': "remove_expectation d xs = Inr xs'" "\<forall>x \<in> set xs'. datagram_ok x"
      "mset (map wire_bytes xs') = mset (map wire_bytes xs) - {#wire_bytes d#}"
      using remove_expectation_ok Cons.prems by (metis list.set_intros(1))
    then have "check_loop name (d # q) xs = check_loop name q xs'" using True Cons.prems by (simp add: expecting_ok)
    moreover have "mset (map wire_bytes (d # q)) \<subseteq># mset (map wire_bytes xs) \<longleftrightarrow> mset (map wire_bytes q) \<subseteq># mset (map wire_bytes xs')"
      using True xs'(3) by (simp add: insert_subset_eq_iff)
    ultimately show ?thesis using Cons.IH [OF _ xs'(2)] Cons.prems(1) xs'(3) by (auto split: if_splits)
  next
    case False
    then have "\<not> mset (map wire_bytes (d # q)) \<subseteq># mset (map wire_bytes xs)"
      by (auto simp: insert_subset_eq_iff)
    with False Cons.prems show ?thesis by (simp add: expecting_ok)
  qed
qed simp

text \<open>
  C34: when all datagrams concerned are well-formed (\<open>datagram_ok\<close>: they can be serialized),
  \<open>Host::check\<close> passes exactly when the datagrams the host received are the datagrams it
  was told to expect, compared by their bytes and counted with multiplicity but in any order. After
  a check that passes, the host has no received datagram and no expectation left.
\<close>
theorem Host_check_multiset:
  assumes "\<forall>d \<in> set (ai_datagrams_out (ho_interface h)). datagram_ok d"
    and "\<forall>d \<in> set (ho_expecting_to_receive h). datagram_ok d"
  shows "if mset (map wire_bytes (ai_datagrams_out (ho_interface h))) = mset (map wire_bytes (ho_expecting_to_receive h))
    then Host_check h = (None, h\<lparr>ho_interface := (ho_interface h)\<lparr>ai_datagrams_out := []\<rparr>, ho_expecting_to_receive := []\<rparr>)
    else fst (Host_check h) \<noteq> None"
proof -
  let ?q = "ai_datagrams_out (ho_interface h)" and ?xs = "ho_expecting_to_receive h"
  let ?Q = "mset (map wire_bytes ?q)" and ?X = "mset (map wire_bytes ?xs)"
  have loop: "if ?Q \<subseteq># ?X then \<exists>xs'. check_loop (ho_name h) ?q ?xs = (None, [], xs') \<and> mset (map wire_bytes xs') = ?X - ?Q
    else fst (check_loop (ho_name h) ?q ?xs) \<noteq> None" by (rule check_loop_ok [OF assms])
  show ?thesis
  proof (cases "?Q \<subseteq># ?X")
    case True
    with loop obtain xs' where xs': "check_loop (ho_name h) ?q ?xs = (None, [], xs')" "mset (map wire_bytes xs') = ?X - ?Q" by auto
    then have "xs' = [] \<longleftrightarrow> ?Q = ?X"
      using True by (metis Diff_eq_empty_iff_mset list.map_disc_iff mset_zero_iff subset_mset.antisym subset_mset.order_refl)
    then show ?thesis using xs'(1) by (cases xs') (auto simp: Host_check_def)
  next
    case False
    then show ?thesis using loop by (auto simp: Host_check_def split: prod.splits option.splits)
  qed
qed

definition example_host :: Host where
  "example_host =
     \<lparr>ho_name = ''dm42'', ho_my_address = Address_from_ipv4_numeric 7,
      ho_interface = (AsyncNetworkInterface_of (NetworkInterface_new [2, 0, 0, 0, 0, 1] 7))\<lparr>ai_datagrams_out := [example_datagram]\<rparr>,
      ho_next_hop = Address_from_ipv4_numeric 8, ho_expecting_to_receive = [example_datagram]\<rparr>"

theorem Host_check_multiset_witness:
  "fst (Host_check example_host) = None \<and> fst (Host_check (example_host\<lparr>ho_expecting_to_receive := []\<rparr>)) \<noteq> None"
  using Host_check_multiset [of example_host] Host_check_multiset [of "example_host\<lparr>ho_expecting_to_receive := []\<rparr>"]
  by (simp add: example_host_def example_datagram_ok)

end
