(* ===== verification/Simulated_Link.thy ===== *)
theory Simulated_Link
  imports Network_Simulator
begin

text \<open>
  Links of the simulated network: interfaces that hear each other's frames. A station with the
  address of its neighbour sends a datagram in one turn of the link; without it, the request,
  the reply and the datagram take three turns. The operations \<open>exchange_frames\<close> of
  \<open>apps/network_simulator.cc\<close> are such turns.
\<close>

section \<open>Frames that arrive\<close>

definition hears :: "EthernetFrame \<Rightarrow> AsyncNetworkInterface \<Rightarrow> AsyncNetworkInterface" where
  "hears f n = snd (AsyncNetworkInterface_recv_frame (whole f) n)"

definition ip_frame :: "EthernetAddress \<Rightarrow> EthernetAddress \<Rightarrow> IPv4Datagram \<Rightarrow> EthernetFrame" where
  "ip_frame src dst d = frame_of TYPE_IPv4 src dst (wire_payload d)"

definition arp_frame :: "EthernetAddress \<Rightarrow> EthernetAddress \<Rightarrow> ARPMessage \<Rightarrow> EthernetFrame" where
  "arp_frame src dst m = frame_of TYPE_ARP src dst (BufferList_of_string (arp_bytes m))"

text \<open>The datagram that the other side parses.\<close>

definition received :: "IPv4Datagram \<Rightarrow> IPv4Datagram" where
  "received d = snd (IPv4Datagram_parse IPv4Datagram_default (Buffer_of (wire_bytes d)))"

lemma wire_bytes_short: "datagram_ok d \<Longrightarrow> length (wire_bytes d) < 2 ^ 64"
  using wire_payload_bytes(2) [of d] by (simp add: wire_bytes_def)

lemma received_parse:
  assumes "datagram_ok d"
  shows "IPv4Datagram_parse IPv4Datagram_default (Buffer_of (wire_bytes d)) = (NoError, received d)"
    and "same_datagram d (received d)" and "datagram_ok (received d)"
proof -
  have s: "Buffer_str (Buffer_of (wire_bytes d)) =
      ip_header_bytes (ip_wire_header (id_header d)) @ BufferList_concatenate (id_payload d)"
    using Buffer_str_of [OF wire_bytes_short [OF assms]] wire_payload_bytes(1) [OF assms] by (simp add: wire_bytes_def)
  from IPv4Datagram_parse_buffer [OF assms buffer_ok_of [OF wire_bytes_short [OF assms]] s] obtain b
    where b: "IPv4Datagram_parse IPv4Datagram_default (Buffer_of (wire_bytes d)) =
        (NoError, \<lparr>id_header = ip_wire_header (id_header d), id_payload = [b]\<rparr>)" "buffer_ok b"
      "Buffer_str b = BufferList_concatenate (id_payload d)" by blast
  then have r: "received d = \<lparr>id_header = ip_wire_header (id_header d), id_payload = [b]\<rparr>" by (simp add: received_def)
  show "IPv4Datagram_parse IPv4Datagram_default (Buffer_of (wire_bytes d)) = (NoError, received d)" using b(1) r by simp
  show "same_datagram d (received d)" using b(3) by (simp add: r same_datagram_def)
  show "datagram_ok (received d)" using assms b(2,3) by (simp add: r datagram_ok_def) (simp add: ip_wire_header_def)
qed

lemma frame_summary_whole: "\<exists>s. frame_summary (whole f) = Inr s"
  by (auto simp: frame_summary_def whole_def BufferList_of_string_def BufferList_of_Buffer_def BufferList_append_def
      BufferList_to_Buffer_def Let_def split: prod.splits)

lemma whole_payload: "ef_payload (whole f) = [Buffer_of (BufferList_concatenate (ef_payload f))]" "ef_header (whole f) = ef_header f"
  by (simp_all add: whole_def BufferList_of_string_def BufferList_of_Buffer_def BufferList_append_def)

lemma recv_ip:
  assumes "datagram_ok d"
  shows "AsyncNetworkInterface_recv_frame (whole (ip_frame src dst d)) n =
    (None, if dst = ni_ethernet_address n then n\<lparr>ai_datagrams_out := ai_datagrams_out n @ [received d]\<rparr> else n)"
  using received_parse(1) [OF assms]
  by (simp add: AsyncNetworkInterface_recv_frame_def NetworkInterface_recv_frame_def whole_payload ip_frame_def frame_of_def
      BufferList_to_Buffer_def wire_bytes_def)

lemma recv_arp:
  assumes "arp_ok m"
  shows "AsyncNetworkInterface_recv_frame (whole (arp_frame src dst m)) n = receive_arp m n"
proof -
  have l: "length (arp_bytes m) < 2 ^ 64" using length_arp_bytes [OF assms] by simp
  have "BufferList_concatenate (BufferList_of_string (arp_bytes m)) = arp_bytes m"
    using l by (simp add: BufferList_of_string_def BufferList_of_Buffer_def BufferList_append_def Buffer_str_of)
  moreover have "ARPMessage_parse ARPMessage_default (Buffer_of (arp_bytes m)) = (NoError, m)"
    using ARPMessage_parse_bytes [OF assms buffer_ok_of [OF l], of "[]"] Buffer_str_of [OF l] by simp
  ultimately show ?thesis
    by (simp add: AsyncNetworkInterface_recv_frame_def NetworkInterface_recv_frame_def whole_payload arp_frame_def frame_of_def
        BufferList_to_Buffer_def TYPE_ARP_def TYPE_IPv4_def split: prod.splits option.splits)
qed

section \<open>One interface on a link\<close>

text \<open>The stations of a link, as pairs of an IP and an Ethernet address.\<close>

definition station :: "AsyncNetworkInterface \<Rightarrow> u32 \<times> EthernetAddress" where
  "station n = (ni_ip_address n, ni_ethernet_address n)"

text \<open>An interface whose ARP cache is right about the stations. No time passes in the simulation.\<close>

definition knows :: "(u32 \<times> EthernetAddress) set \<Rightarrow> AsyncNetworkInterface \<Rightarrow> bool" where
  "knows who n \<longleftrightarrow>
     ni_now_time_ms n = 0 \<and> length (ni_ethernet_address n) = 6 \<and>
     (\<forall>ip t. ni_cache_time n ip = Some t \<longrightarrow>
        t = 0 \<and> (\<exists>mac. ni_ip_to_ethernet_cache n ip = Some mac \<and> (ip, mac) \<in> who))"

text \<open>Nothing waits for an address, and every request that was sent has been answered.\<close>

definition settled :: "(u32 \<times> EthernetAddress) set \<Rightarrow> AsyncNetworkInterface \<Rightarrow> bool" where
  "settled who n \<longleftrightarrow>
     knows who n \<and> ni_frames_out n = [] \<and> ni_unsent_datagram n = Map.empty \<and> dom (ni_arp_request_his n) \<subseteq> dom (ni_cache_time n)"

lemma cached_iff: "knows who n \<Longrightarrow> cached ip n \<longleftrightarrow> ni_cache_time n ip \<noteq> None"
  by (auto simp: knows_def cached_def arp_cache_timeout_def split: option.splits dest!: spec [of _ ip])

lemma settled_queue [simp]: "settled who (n\<lparr>ai_datagrams_out := q\<rparr>) = settled who n"
  by (simp add: settled_def knows_def)

lemma hears_ip:
  "datagram_ok d \<Longrightarrow> hears (ip_frame src dst d) n =
    (if dst = ni_ethernet_address n then n\<lparr>ai_datagrams_out := ai_datagrams_out n @ [received d]\<rparr> else n)"
  by (simp add: hears_def recv_ip)

lemma hears_arp:
  assumes "knows who n" and "arp_ok m" and "(am_sender_ip_address m, am_sender_ethernet_address m) \<in> who"
    and "\<forall>d \<in> set (map_index (am_sender_ip_address m) [] (ni_unsent_datagram n)). datagram_ok d"
    and "n' = hears (arp_frame src dst m) n"
  shows "fst (AsyncNetworkInterface_recv_frame (whole (arp_frame src dst m)) n) = None"
    and "knows who n'" and "station n' = station n" and "ai_datagrams_out n' = ai_datagrams_out n"
    and "ni_cache_time n' = (ni_cache_time n)(am_sender_ip_address m \<mapsto> 0)"
    and "ni_arp_request_his n' = ni_arp_request_his n"
    and "ni_unsent_datagram n' = (ni_unsent_datagram n)(am_sender_ip_address m := None)"
    and "ni_frames_out n' = ni_frames_out n @
      map (ip_frame (ni_ethernet_address n) (am_sender_ethernet_address m))
        (map_index (am_sender_ip_address m) [] (ni_unsent_datagram n)) @
      (if am_opcode m = OPCODE_REQUEST \<and> am_target_ip_address m = ni_ip_address n
       then [arp_frame (ni_ethernet_address n) (am_sender_ethernet_address m) (arp_reply m n)] else [])"
proof -
  have l: "length (ni_ethernet_address n) = 6" "length (am_sender_ethernet_address m) = 6"
    using assms(1,2) by (simp_all add: knows_def arp_ok_def)
  note e = receive_arp_effect [OF l assms(4)]
  show "fst (AsyncNetworkInterface_recv_frame (whole (arp_frame src dst m)) n) = None" by (simp add: recv_arp [OF assms(2)] e)
  show "knows who n'" using assms(1,3) by (auto simp: assms(5) hears_def recv_arp [OF assms(2)] e knows_def learn_def)
  show "station n' = station n" "ai_datagrams_out n' = ai_datagrams_out n" "ni_arp_request_his n' = ni_arp_request_his n"
    by (simp_all add: assms(5) hears_def recv_arp [OF assms(2)] e learn_def station_def)
  show "ni_cache_time n' = (ni_cache_time n)(am_sender_ip_address m \<mapsto> 0)"
    using assms(1) by (simp add: assms(5) hears_def recv_arp [OF assms(2)] e learn_def knows_def)
  show "ni_unsent_datagram n' = (ni_unsent_datagram n)(am_sender_ip_address m := None)"
    by (simp add: assms(5) hears_def recv_arp [OF assms(2)] e learn_def)
  show "ni_frames_out n' = ni_frames_out n @
      map (ip_frame (ni_ethernet_address n) (am_sender_ethernet_address m))
        (map_index (am_sender_ip_address m) [] (ni_unsent_datagram n)) @
      (if am_opcode m = OPCODE_REQUEST \<and> am_target_ip_address m = ni_ip_address n
       then [arp_frame (ni_ethernet_address n) (am_sender_ethernet_address m) (arp_reply m n)] else [])"
    unfolding assms(5) hears_def recv_arp [OF assms(2)] e by (simp add: ip_frame_def [abs_def] arp_frame_def)
qed

text \<open>A station that waits for nothing hears an ARP message.\<close>

lemma settled_hears:
  assumes "settled who n" and "arp_ok m" and "(am_sender_ip_address m, am_sender_ethernet_address m) \<in> who"
    and "n' = hears (arp_frame src dst m) n"
  shows "fst (AsyncNetworkInterface_recv_frame (whole (arp_frame src dst m)) n) = None"
    and "settled who (n'\<lparr>ni_frames_out := []\<rparr>)" and "station n' = station n" and "ai_datagrams_out n' = ai_datagrams_out n"
    and "ni_frames_out n' =
      (if am_opcode m = OPCODE_REQUEST \<and> am_target_ip_address m = ni_ip_address n
       then [arp_frame (ni_ethernet_address n) (am_sender_ethernet_address m) (arp_reply m n)] else [])"
proof -
  have k: "knows who n" and u: "ni_unsent_datagram n = Map.empty" and f: "ni_frames_out n = []"
    using assms(1) by (simp_all add: settled_def)
  have "\<forall>d \<in> set (map_index (am_sender_ip_address m) [] (ni_unsent_datagram n)). datagram_ok d" by (simp add: u map_index_def)
  note h = hears_arp [OF k assms(2,3) this assms(4)]
  show "fst (AsyncNetworkInterface_recv_frame (whole (arp_frame src dst m)) n) = None" "station n' = station n"
    "ai_datagrams_out n' = ai_datagrams_out n" by (fact h)+
  show "settled who (n'\<lparr>ni_frames_out := []\<rparr>)"
    using h(2,5,6,7) assms(1) by (auto simp: settled_def knows_def)
  show "ni_frames_out n' =
      (if am_opcode m = OPCODE_REQUEST \<and> am_target_ip_address m = ni_ip_address n
       then [arp_frame (ni_ethernet_address n) (am_sender_ethernet_address m) (arp_reply m n)] else [])"
    using h(8) by (simp add: u f map_index_def)
qed

section \<open>Turns of a link\<close>

text \<open>At any time at most one station of a link has a frame to send, which all others then hear.\<close>

definition silent :: "AsyncNetworkInterface list \<Rightarrow> bool" where
  "silent ns \<longleftrightarrow> (\<forall>n \<in> set ns. ni_frames_out n = [])"

definition speaks :: "nat \<Rightarrow> EthernetFrame \<Rightarrow> AsyncNetworkInterface list \<Rightarrow> bool" where
  "speaks a f ns \<longleftrightarrow>
     a < length ns \<and> ni_frames_out (ns ! a) = [f] \<and>
     (\<forall>i < length ns. i \<noteq> a \<longrightarrow> ni_frames_out (ns ! i) = [] \<and> fst (AsyncNetworkInterface_recv_frame (whole f) (ns ! i)) = None)"

definition heard :: "nat \<Rightarrow> EthernetFrame \<Rightarrow> AsyncNetworkInterface list \<Rightarrow> AsyncNetworkInterface list" where
  "heard a f ns = map (\<lambda>i. if i = a then (ns ! i)\<lparr>ni_frames_out := []\<rparr> else hears f (ns ! i)) [0..<length ns]"

inductive turn :: "AsyncNetworkInterface list \<Rightarrow> AsyncNetworkInterface list \<Rightarrow> bool" where
  turn_silent: "silent ns \<Longrightarrow> turn ns ns"
| turn_speaks: "speaks a f ns \<Longrightarrow> turn ns (heard a f ns)"

text \<open>A turn in which no datagram arrives.\<close>

definition hush :: "AsyncNetworkInterface list \<Rightarrow> AsyncNetworkInterface list \<Rightarrow> bool" where
  "hush ns ns' \<longleftrightarrow> turn ns ns' \<and> map ai_datagrams_out ns' = map ai_datagrams_out ns"

lemma length_heard [simp]: "length (heard a f ns) = length ns"
  by (simp add: heard_def)

lemma nth_heard [simp]:
  "i < length ns \<Longrightarrow> heard a f ns ! i = (if i = a then (ns ! i)\<lparr>ni_frames_out := []\<rparr> else hears f (ns ! i))"
  by (simp add: heard_def)

lemma stations_heard:
  assumes "\<And>i. i < length ns \<Longrightarrow> i \<noteq> a \<Longrightarrow> station (hears f (ns ! i)) = station (ns ! i)"
  shows "map station (heard a f ns) = map station ns"
proof (rule nth_equalityI)
  fix i assume "i < length (map station (heard a f ns))"
  then show "map station (heard a f ns) ! i = map station ns ! i" using assms by (cases "i = a") (simp_all, simp add: station_def)
qed simp

definition line_settled :: "(u32 \<times> EthernetAddress) list \<Rightarrow> AsyncNetworkInterface list \<Rightarrow> bool" where
  "line_settled who ns \<longleftrightarrow> map station ns = who \<and> (\<forall>n \<in> set ns. settled (set who) n)"

definition stations_ok :: "(u32 \<times> EthernetAddress) list \<Rightarrow> bool" where
  "stations_ok who \<longleftrightarrow> distinct (map fst who) \<and> distinct (map snd who)"

lemma station_nth:
  assumes "map station ns = who" and "i < length ns"
  shows "who ! i = (ni_ip_address (ns ! i), ni_ethernet_address (ns ! i))" and "station (ns ! i) \<in> set who"
  using assms by (auto simp: station_def)

lemma station_distinct:
  assumes "map station ns = who" and "stations_ok who" and "i < length ns" and "j < length ns"
  shows "ni_ip_address (ns ! i) = ni_ip_address (ns ! j) \<longleftrightarrow> i = j" and "ni_ethernet_address (ns ! i) = ni_ethernet_address (ns ! j) \<longleftrightarrow> i = j"
proof -
  have "map ni_ip_address ns = map fst who" "map ni_ethernet_address ns = map snd who"
    using assms(1) by (auto simp: station_def)
  then have "distinct (map ni_ip_address ns)" "distinct (map ni_ethernet_address ns)" using assms(2) by (simp_all add: stations_ok_def)
  then show "ni_ip_address (ns ! i) = ni_ip_address (ns ! j) \<longleftrightarrow> i = j" "ni_ethernet_address (ns ! i) = ni_ethernet_address (ns ! j) \<longleftrightarrow> i = j"
    using assms(3,4) nth_eq_iff_index_eq by fastforce+
qed

text \<open>A datagram in a frame for station \<open>b\<close> reaches it, and nobody else.\<close>

lemma data_turn:
  assumes "map station ns = who" and "stations_ok who" and "a < length ns" and "b < length ns" and "a \<noteq> b" and "datagram_ok d"
    and "ni_frames_out (ns ! a) = [ip_frame src (ni_ethernet_address (ns ! b)) d]"
    and "settled (set who) ((ns ! a)\<lparr>ni_frames_out := []\<rparr>)" and "\<forall>i < length ns. i \<noteq> a \<longrightarrow> settled (set who) (ns ! i)"
  shows "\<exists>ns'. turn ns ns' \<and> line_settled who ns' \<and>
    map ai_datagrams_out ns' = (map ai_datagrams_out ns)[b := ai_datagrams_out (ns ! b) @ [received d]]"
proof (intro exI conjI)
  let ?f = "ip_frame src (ni_ethernet_address (ns ! b)) d"
  have h: "hears ?f (ns ! i) = (if i = b then (ns ! b)\<lparr>ai_datagrams_out := ai_datagrams_out (ns ! b) @ [received d]\<rparr> else ns ! i)"
    if "i < length ns" for i
    using station_distinct(2) [OF assms(1,2,4) that] by (auto simp: hears_ip [OF assms(6)])
  show "turn ns (heard a ?f ns)"
    using assms(3,7,9) by (intro turn_speaks) (auto simp: speaks_def settled_def recv_ip [OF assms(6)])
  show "line_settled who (heard a ?f ns)"
    unfolding line_settled_def
  proof
    show "map station (heard a ?f ns) = who"
      by (rule nth_equalityI) (use assms(1) h in \<open>auto simp: station_def\<close>)
    show "\<forall>n \<in> set (heard a ?f ns). settled (set who) n"
      using assms(8,9) h by (auto simp: all_set_conv_all_nth)
  qed
  show "map ai_datagrams_out (heard a ?f ns) = (map ai_datagrams_out ns)[b := ai_datagrams_out (ns ! b) @ [received d]]"
    by (rule nth_equalityI) (use assms(3,4,5) h in \<open>auto simp: nth_list_update\<close>)
qed

text \<open>A station that has asked for the address of \<open>ip\<close>, where \<open>d\<close> has to go.\<close>

definition waiting :: "(u32 \<times> EthernetAddress) set \<Rightarrow> u32 \<Rightarrow> IPv4Datagram \<Rightarrow> AsyncNetworkInterface \<Rightarrow> bool" where
  "waiting who ip d n \<longleftrightarrow>
     knows who n \<and> ni_unsent_datagram n = [ip \<mapsto> [d]] \<and> dom (ni_arp_request_his n) \<subseteq> insert ip (dom (ni_cache_time n))"

lemma send_datagram_asks:
  assumes "settled who n" and "ni_cache_time n ip = None" and "n' = snd (NetworkInterface_send_datagram d ip n)"
  shows "waiting who ip d (n'\<lparr>ni_frames_out := []\<rparr>)" and "station n' = station n" and "ai_datagrams_out n' = ai_datagrams_out n"
    and "ni_frames_out n' = [arp_frame (ni_ethernet_address n) ETHERNET_BROADCAST (arp_request ip n)]"
proof -
  have k: "knows who n" using assms(1) by (simp add: settled_def)
  have "\<not> cached ip n" "may_request ip n"
    using assms(1,2) cached_iff [OF k] by (auto simp: settled_def may_request_def dom_def split: option.splits)
  moreover have "length (ni_ethernet_address n) = 6" using k by (simp add: knows_def)
  ultimately have "n' = n\<lparr>ni_frames_out := ni_frames_out n @ [frame_of TYPE_ARP (ni_ethernet_address n) ETHERNET_BROADCAST
              (BufferList_of_string (arp_bytes (arp_request ip n)))],
       ni_arp_request_his := (ni_arp_request_his n)(ip \<mapsto> ni_now_time_ms n),
       ni_unsent_datagram := (ni_unsent_datagram n)(ip \<mapsto> map_index ip [] (ni_unsent_datagram n) @ [d])\<rparr>"
    using send_datagram_unknown [of n ip d] assms(3) by simp
  then show "waiting who ip d (n'\<lparr>ni_frames_out := []\<rparr>)" "station n' = station n" "ai_datagrams_out n' = ai_datagrams_out n"
    "ni_frames_out n' = [arp_frame (ni_ethernet_address n) ETHERNET_BROADCAST (arp_request ip n)]"
    using assms(1) by (auto simp: waiting_def settled_def knows_def station_def arp_frame_def map_index_def)
qed

lemma send_datagram_known:
  assumes "settled who n" and "ni_cache_time n ip \<noteq> None" and "datagram_ok d" and "n' = snd (NetworkInterface_send_datagram d ip n)"
  shows "\<exists>mac. (ip, mac) \<in> who \<and> n' = n\<lparr>ni_frames_out := [ip_frame (ni_ethernet_address n) mac d]\<rparr>"
proof -
  have k: "knows who n" using assms(1) by (simp add: settled_def)
  then obtain mac where "ni_ip_to_ethernet_cache n ip = Some mac" "(ip, mac) \<in> who" using assms(2) by (auto simp: knows_def)
  moreover have "cached ip n" using cached_iff [OF k] assms(2) by simp
  ultimately show ?thesis
    using assms(1) by (auto simp: assms(4) NetworkInterface_send_datagram_def serialize_wire_payload [OF assms(3)] push_frame_def
        map_index_def settled_def ip_frame_def)
qed

lemma waiting_hears_reply:
  assumes "waiting who ip d n" and "ni_frames_out n = []" and "datagram_ok d" and "arp_ok m" and "am_opcode m \<noteq> OPCODE_REQUEST"
    and "am_sender_ip_address m = ip" and "(ip, am_sender_ethernet_address m) \<in> who" and "n' = hears (arp_frame src dst m) n"
  shows "fst (AsyncNetworkInterface_recv_frame (whole (arp_frame src dst m)) n) = None"
    and "settled who (n'\<lparr>ni_frames_out := []\<rparr>)" and "station n' = station n" and "ai_datagrams_out n' = ai_datagrams_out n"
    and "ni_frames_out n' = [ip_frame (ni_ethernet_address n) (am_sender_ethernet_address m) d]"
proof -
  have k: "knows who n" and u: "ni_unsent_datagram n = [ip \<mapsto> [d]]" using assms(1) by (simp_all add: waiting_def)
  have "\<forall>d \<in> set (map_index (am_sender_ip_address m) [] (ni_unsent_datagram n)). datagram_ok d"
    using assms(3) by (simp add: u map_index_def assms(6))
  note h = hears_arp [OF k assms(4) _ this assms(8), unfolded assms(6), OF assms(7)]
  show "fst (AsyncNetworkInterface_recv_frame (whole (arp_frame src dst m)) n) = None" "station n' = station n"
    "ai_datagrams_out n' = ai_datagrams_out n" by (fact h)+
  show "settled who (n'\<lparr>ni_frames_out := []\<rparr>)"
    using h(2,5,6,7) assms(1) by (auto simp: settled_def knows_def waiting_def)
  show "ni_frames_out n' = [ip_frame (ni_ethernet_address n) (am_sender_ethernet_address m) d]"
    using h(8) assms(2,5) by (simp add: u map_index_def)
qed

lemma request_turn:
  assumes "map station ns = who" and "stations_ok who" and "a < length ns" and "b < length ns" and "a \<noteq> b" and "arp_ok m"
    and "am_opcode m = OPCODE_REQUEST" and "am_target_ip_address m = ni_ip_address (ns ! b)"
    and "(am_sender_ip_address m, am_sender_ethernet_address m) = station (ns ! a)"
    and "ni_frames_out (ns ! a) = [arp_frame src dst m]" and "waiting (set who) ip d ((ns ! a)\<lparr>ni_frames_out := []\<rparr>)"
    and "\<forall>i < length ns. i \<noteq> a \<longrightarrow> settled (set who) (ns ! i)"
  shows "\<exists>ns'. hush ns ns' \<and> map station ns' = who \<and> waiting (set who) ip d (ns' ! a) \<and> ni_frames_out (ns' ! a) = [] \<and>
    ni_frames_out (ns' ! b) = [arp_frame (ni_ethernet_address (ns ! b)) (am_sender_ethernet_address m) (arp_reply m (ns ! b))] \<and>
    settled (set who) ((ns' ! b)\<lparr>ni_frames_out := []\<rparr>) \<and> (\<forall>i < length ns. i \<noteq> a \<longrightarrow> i \<noteq> b \<longrightarrow> settled (set who) (ns' ! i))"
proof (intro exI conjI allI impI)
  let ?f = "arp_frame src dst m" let ?ns = "heard a ?f ns"
  have s: "(am_sender_ip_address m, am_sender_ethernet_address m) \<in> set who"
    using station_nth(2) [OF assms(1,3)] assms(9) by simp
  have h: "fst (AsyncNetworkInterface_recv_frame (whole ?f) (ns ! i)) = None" "settled (set who) ((hears ?f (ns ! i))\<lparr>ni_frames_out := []\<rparr>)"
    "station (hears ?f (ns ! i)) = station (ns ! i)" "ai_datagrams_out (hears ?f (ns ! i)) = ai_datagrams_out (ns ! i)"
    "ni_frames_out (hears ?f (ns ! i)) = (if i = b then [arp_frame (ni_ethernet_address (ns ! b)) (am_sender_ethernet_address m) (arp_reply m (ns ! b))] else [])"
    if "i < length ns" "i \<noteq> a" for i
    using settled_hears [OF _ assms(6) s refl, of "ns ! i" src dst] assms(12) that station_distinct(1) [OF assms(1,2,4) that(1)]
    by (auto simp: assms(7,8))
  have "turn ns ?ns" using assms(3,10,12) h(1) by (intro turn_speaks) (auto simp: speaks_def settled_def)
  moreover have "map ai_datagrams_out ?ns = map ai_datagrams_out ns" by (rule nth_equalityI) (use h(4) in auto)
  ultimately show "hush ns ?ns" by (simp add: hush_def)
  show "map station ?ns = who" using assms(1) stations_heard [of ns a ?f] h(3) by simp
  show "waiting (set who) ip d (?ns ! a)" "ni_frames_out (?ns ! a) = []" using assms(3,11) by simp_all
  show "ni_frames_out (?ns ! b) = [arp_frame (ni_ethernet_address (ns ! b)) (am_sender_ethernet_address m) (arp_reply m (ns ! b))]"
    "settled (set who) ((?ns ! b)\<lparr>ni_frames_out := []\<rparr>)" using assms(4,5) h by simp_all
  fix i assume i: "i < length ns" "i \<noteq> a" "i \<noteq> b"
  have "(hears ?f (ns ! i))\<lparr>ni_frames_out := []\<rparr> = hears ?f (ns ! i)" using h(5) [OF i(1,2)] i(3) by simp
  then show "settled (set who) (?ns ! i)" using h(2) [OF i(1,2)] i(1,2) by simp
qed

lemma reply_turn:
  assumes "map station ns = who" and "a < length ns" and "b < length ns" and "a \<noteq> b" and "arp_ok m" and "am_opcode m \<noteq> OPCODE_REQUEST"
    and "(am_sender_ip_address m, am_sender_ethernet_address m) = station (ns ! b)" and "datagram_ok d"
    and "ni_frames_out (ns ! b) = [arp_frame src dst m]" and "settled (set who) ((ns ! b)\<lparr>ni_frames_out := []\<rparr>)"
    and "waiting (set who) (ni_ip_address (ns ! b)) d (ns ! a)" and "ni_frames_out (ns ! a) = []"
    and "\<forall>i < length ns. i \<noteq> a \<longrightarrow> i \<noteq> b \<longrightarrow> settled (set who) (ns ! i)"
  shows "\<exists>ns'. hush ns ns' \<and> map station ns' = who \<and>
    ni_frames_out (ns' ! a) = [ip_frame (ni_ethernet_address (ns ! a)) (ni_ethernet_address (ns ! b)) d] \<and>
    settled (set who) ((ns' ! a)\<lparr>ni_frames_out := []\<rparr>) \<and> (\<forall>i < length ns. i \<noteq> a \<longrightarrow> settled (set who) (ns' ! i))"
proof (intro exI conjI allI impI)
  let ?f = "arp_frame src dst m" let ?ns = "heard b ?f ns"
  have s: "(am_sender_ip_address m, am_sender_ethernet_address m) \<in> set who" and
    t: "am_sender_ip_address m = ni_ip_address (ns ! b)" "am_sender_ethernet_address m = ni_ethernet_address (ns ! b)"
    using station_nth(2) [OF assms(1,3)] assms(7) by (simp_all add: station_def)
  note w = waiting_hears_reply [OF assms(11,12,8,5,6) t(1) _ refl, of src dst, OF s [unfolded t(1)]]
  have h: "fst (AsyncNetworkInterface_recv_frame (whole ?f) (ns ! i)) = None" "settled (set who) (hears ?f (ns ! i))"
    "station (hears ?f (ns ! i)) = station (ns ! i)" "ai_datagrams_out (hears ?f (ns ! i)) = ai_datagrams_out (ns ! i)"
    if i: "i < length ns" "i \<noteq> a" "i \<noteq> b" for i
  proof -
    note e = settled_hears [OF _ assms(5) s refl, of "ns ! i" src dst, OF assms(13) [rule_format, OF i]]
    have "(hears ?f (ns ! i))\<lparr>ni_frames_out := []\<rparr> = hears ?f (ns ! i)" using e(5) assms(6) by simp
    then show "fst (AsyncNetworkInterface_recv_frame (whole ?f) (ns ! i)) = None" "settled (set who) (hears ?f (ns ! i))"
      "station (hears ?f (ns ! i)) = station (ns ! i)" "ai_datagrams_out (hears ?f (ns ! i)) = ai_datagrams_out (ns ! i)"
      using e(1-4) by simp_all
  qed
  have "turn ns ?ns"
    using assms(3,9,12,13) h(1) w(1) by (intro turn_speaks) (auto simp: speaks_def settled_def)
  moreover have "map ai_datagrams_out ?ns = map ai_datagrams_out ns" by (rule nth_equalityI) (use h(4) w(4) in auto)
  ultimately show "hush ns ?ns" by (simp add: hush_def)
  have "station (hears ?f (ns ! i)) = station (ns ! i)" if "i < length ns" "i \<noteq> b" for i using that h(3) w(3) by (cases "i = a") auto
  then show "map station ?ns = who" using assms(1) stations_heard by blast
  show "ni_frames_out (?ns ! a) = [ip_frame (ni_ethernet_address (ns ! a)) (ni_ethernet_address (ns ! b)) d]"
    "settled (set who) ((?ns ! a)\<lparr>ni_frames_out := []\<rparr>)" using assms(2,4) w(2,5) t(2) by simp_all
  fix i assume "i < length ns" "i \<noteq> a"
  then show "settled (set who) (?ns ! i)" using h(2) assms(10) by simp
qed

lemma transfer_known:
  assumes "line_settled who ns" and "stations_ok who" and "a < length ns" and "b < length ns" and "a \<noteq> b" and "datagram_ok d"
    and "ni_cache_time (ns ! a) (ni_ip_address (ns ! b)) \<noteq> None"
    and "ns' = ns[a := snd (NetworkInterface_send_datagram d (ni_ip_address (ns ! b)) (ns ! a))]"
  shows "\<exists>ns2. turn ns' ns2 \<and> line_settled who ns2 \<and>
    map ai_datagrams_out ns2 = (map ai_datagrams_out ns')[b := ai_datagrams_out (ns ! b) @ [received d]]"
proof -
  let ?ip = "ni_ip_address (ns ! b)" let ?n = "snd (NetworkInterface_send_datagram d ?ip (ns ! a))"
  have st: "map station ns = who" and se: "\<forall>i < length ns. settled (set who) (ns ! i)"
    using assms(1) by (auto simp: line_settled_def)
  obtain mac where mac: "(?ip, mac) \<in> set who" "?n = (ns ! a)\<lparr>ni_frames_out := [ip_frame (ni_ethernet_address (ns ! a)) mac d]\<rparr>"
    using send_datagram_known [OF se [rule_format, OF assms(3)] assms(7,6) refl] by blast
  then obtain i where "i < length ns" "ni_ip_address (ns ! i) = ?ip" "ni_ethernet_address (ns ! i) = mac"
    using st by (auto simp: in_set_conv_nth station_def)
  then have "mac = ni_ethernet_address (ns ! b)" using station_distinct(1) [OF st assms(2) _ assms(4)] by auto
  moreover have "map station ns' = who" using st mac(2) assms(3) by (auto simp: assms(8) map_update station_def list_update_same_conv)
  moreover have "settled (set who) ((ns' ! a)\<lparr>ni_frames_out := []\<rparr>)"
    using se assms(3) mac(2) by (simp add: assms(8)) (simp add: settled_def knows_def)
  ultimately show ?thesis
    using data_turn [of ns' who a b d "ni_ethernet_address (ns ! a)"] assms(2-6) se mac(2) by (auto simp: assms(8))
qed

lemma transfer_unknown:
  assumes "line_settled who ns" and "stations_ok who" and "a < length ns" and "b < length ns" and "a \<noteq> b" and "datagram_ok d"
    and "ni_cache_time (ns ! a) (ni_ip_address (ns ! b)) = None"
    and "ns' = ns[a := snd (NetworkInterface_send_datagram d (ni_ip_address (ns ! b)) (ns ! a))]"
  shows "\<exists>ns1 ns2 ns3. hush ns' ns1 \<and> hush ns1 ns2 \<and> turn ns2 ns3 \<and> line_settled who ns3 \<and>
    map ai_datagrams_out ns3 = (map ai_datagrams_out ns')[b := ai_datagrams_out (ns ! b) @ [received d]]"
proof -
  let ?ip = "ni_ip_address (ns ! b)" and ?m = "arp_request (ni_ip_address (ns ! b)) (ns ! a)"
  let ?r = "arp_reply ?m (ns ! b)"
  have st: "map station ns = who" and se: "\<forall>i < length ns. settled (set who) (ns ! i)"
    using assms(1) by (auto simp: line_settled_def)
  have l: "\<forall>i < length ns. length (ni_ethernet_address (ns ! i)) = 6" using se by (auto simp: settled_def knows_def)
  note s = send_datagram_asks [OF se [rule_format, OF assms(3)] assms(7) refl, of d]
  have st': "map station ns' = who" using st s(2) assms(3) by (auto simp: assms(8) map_update list_update_same_conv)
  have m: "arp_ok ?m" "am_sender_ip_address ?m = ni_ip_address (ns ! a)" "am_sender_ethernet_address ?m = ni_ethernet_address (ns ! a)"
    "am_opcode ?m = OPCODE_REQUEST" "am_target_ip_address ?m = ?ip"
    using arp_messages_ok(1) [of "ns ! a"] l assms(3) by (simp_all, simp_all add: arp_request_def)
  have r: "arp_ok ?r" "am_sender_ip_address ?r = ?ip" "am_sender_ethernet_address ?r = ni_ethernet_address (ns ! b)" "am_opcode ?r \<noteq> OPCODE_REQUEST"
    using arp_messages_ok(2) [of "ns ! b" ?m] l m(3) assms(3,4) by (simp_all, simp_all add: arp_reply_def OPCODE_REPLY_def OPCODE_REQUEST_def)
  obtain ns1 where ns1: "hush ns' ns1" "map station ns1 = who" "waiting (set who) ?ip d (ns1 ! a)" "ni_frames_out (ns1 ! a) = []"
      "ni_frames_out (ns1 ! b) = [arp_frame (ni_ethernet_address (ns ! b)) (am_sender_ethernet_address ?m) ?r]"
      "settled (set who) ((ns1 ! b)\<lparr>ni_frames_out := []\<rparr>)" "\<forall>i < length ns. i \<noteq> a \<longrightarrow> i \<noteq> b \<longrightarrow> settled (set who) (ns1 ! i)"
    using request_turn [OF st' assms(2) _ _ assms(5) m(1,4), of "ni_ethernet_address (ns ! a)" ETHERNET_BROADCAST ?ip d] assms(3-5) s se m
    by (auto simp: assms(8) station_def)
  have at: "length ns1 = length ns" "\<forall>i < length ns. station (ns1 ! i) = station (ns ! i)"
    using st ns1(2) arg_cong [OF ns1(2), of length] by (auto simp: list_eq_iff_nth_eq)
  obtain ns2 where ns2: "hush ns1 ns2" "map station ns2 = who"
      "ni_frames_out (ns2 ! a) = [ip_frame (ni_ethernet_address (ns1 ! a)) (ni_ethernet_address (ns1 ! b)) d]"
      "settled (set who) ((ns2 ! a)\<lparr>ni_frames_out := []\<rparr>)" "\<forall>i < length ns. i \<noteq> a \<longrightarrow> settled (set who) (ns2 ! i)"
    using reply_turn [OF ns1(2) _ _ assms(5) r(1,4) _ assms(6) ns1(5,6) _ ns1(4)] ns1(3,7) at assms(3,4) r(2,3) by (auto simp: station_def)
  have at2: "length ns2 = length ns" "\<forall>i < length ns. station (ns2 ! i) = station (ns ! i)"
    using st ns2(2) arg_cong [OF ns2(2), of length] by (auto simp: list_eq_iff_nth_eq)
  obtain ns3 where "turn ns2 ns3" "line_settled who ns3"
      "map ai_datagrams_out ns3 = (map ai_datagrams_out ns2)[b := ai_datagrams_out (ns2 ! b) @ [received d]]"
    using data_turn [OF ns2(2) assms(2) _ _ assms(5,6), of "ni_ethernet_address (ns1 ! a)"] ns2(3-5) at at2 assms(3,4)
    by (auto simp: station_def)
  moreover have q: "map ai_datagrams_out ns2 = map ai_datagrams_out ns'" using ns1(1) ns2(1) by (simp add: hush_def)
  moreover have "ai_datagrams_out (ns2 ! b) = ai_datagrams_out (ns ! b)"
    using arg_cong [OF q, of "\<lambda>l. l ! b"] at2(1) assms(4,5) by (simp add: assms(8))
  ultimately show ?thesis using ns1(1) ns2(1) by auto
qed

text \<open>
  A datagram that station \<open>a\<close> of a settled link sends to the address of station \<open>b\<close> is
  received there after at most three turns, and the link is settled again.
\<close>

lemma transfer:
  assumes "line_settled who ns" and "stations_ok who" and "a < length ns" and "b < length ns" and "a \<noteq> b" and "datagram_ok d"
    and "ns' = ns[a := snd (NetworkInterface_send_datagram d (ni_ip_address (ns ! b)) (ns ! a))]"
  shows "\<exists>k ns1 ns2. k \<le> 2 \<and> (hush ^^ k) ns' ns1 \<and> turn ns1 ns2 \<and> line_settled who ns2 \<and>
    map ai_datagrams_out ns2 = (map ai_datagrams_out ns)[b := ai_datagrams_out (ns ! b) @ [received d]]"
proof -
  have q: "map ai_datagrams_out ns' = map ai_datagrams_out ns"
    by (rule nth_equalityI) (use assms(3) in \<open>auto simp: assms(7) nth_list_update\<close>)
  show ?thesis
  proof (cases "ni_cache_time (ns ! a) (ni_ip_address (ns ! b)) = None")
    case True
    from transfer_unknown [OF assms(1-6) True assms(7)] obtain ns1 ns2 ns3 where "hush ns' ns1" "hush ns1 ns2" "turn ns2 ns3"
      "line_settled who ns3" "map ai_datagrams_out ns3 = (map ai_datagrams_out ns')[b := ai_datagrams_out (ns ! b) @ [received d]]" by blast
    with q show ?thesis by (intro exI [of _ 2] exI [of _ ns2] exI [of _ ns3]) (auto simp: numeral_2_eq_2)
  next
    case False
    from transfer_known [OF assms(1-6) False assms(7)] obtain ns2 where "turn ns' ns2" "line_settled who ns2"
      "map ai_datagrams_out ns2 = (map ai_datagrams_out ns')[b := ai_datagrams_out (ns ! b) @ [received d]]" by blast
    with q show ?thesis by (intro exI [of _ 0] exI [of _ ns'] exI [of _ ns2]) auto
  qed
qed

section \<open>Links take turns\<close>

lemma deliver_one: "fst (AsyncNetworkInterface_recv_frame (whole f) n) = None \<Longrightarrow> deliver [f] n = (None, hears f n)"
  using frame_summary_whole [of f] by (auto simp: hears_def split: prod.splits)

lemma clear_frames_simps:
  "clear_frames [] n = (None, n)" "ni_frames_out n = [f] \<Longrightarrow> clear_frames [f] n = (None, n\<lparr>ni_frames_out := []\<rparr>)"
  by (simp_all add: clear_frames_def)

lemmas exchange_simps =
  exchange_frames_def exchange_frames3_def on_fst_def on_snd_def deliver_one clear_frames_simps

lemma exchange_frames_turn:
  assumes "turn [x, y] ns'"
  shows "\<exists>x' y'. ns' = [x', y'] \<and> exchange_frames (x, y) = (None, x', y')"
  using assms
proof cases
  case turn_silent
  then show ?thesis by (simp add: silent_def exchange_simps)
next
  case (turn_speaks a f)
  then have "a = 0 \<or> a = 1" by (auto simp: speaks_def)
  then show ?thesis
    using turn_speaks by (elim disjE) (auto simp: speaks_def heard_def exchange_simps upt_rec less_Suc_eq all_conj_distrib Let_def simp del: deliver.simps(2))
qed

lemma exchange_frames3_turn:
  assumes "turn [x, y, z] ns'"
  shows "\<exists>x' y' z'. ns' = [x', y', z'] \<and> exchange_frames3 (x, y, z) = (None, x', y', z')"
  using assms
proof cases
  case turn_silent
  then show ?thesis by (simp add: silent_def exchange_simps)
next
  case (turn_speaks a f)
  then have "a = 0 \<or> a = 1 \<or> a = 2" by (auto simp: speaks_def)
  then show ?thesis
    using turn_speaks by (elim disjE) (auto simp: speaks_def heard_def exchange_simps upt_rec less_Suc_eq all_conj_distrib Let_def simp del: deliver.simps(2))
qed

end
