(* ===== verification/Simulated_Network.thy ===== *)
theory Simulated_Network
  imports Simulated_Link
begin

text \<open>
  The simulated network delivers: the proof that every scenario of \<open>apps/network_simulator.cc\<close>
  passes. A datagram crosses the network in two transfers of at most three turns each, well
  below the 256 rounds of \<open>simulate()\<close>.
\<close>

section \<open>The wiring of the network\<close>

definition iface :: "Network \<Rightarrow> nat \<Rightarrow> AsyncNetworkInterface" where
  "iface net i = ro_interfaces (ne_router net) ! i"

definition the_host :: "Network \<Rightarrow> string \<Rightarrow> Host" where
  "the_host net name = the (map_of (ne_hosts net) name)"

definition host_names :: "string list" where
  "host_names = [''applesauce'', ''default_router'', ''cherrypie'', ''hs_router'', ''dm42'', ''dm43'']"

text \<open>The links: the number of the router's interface and the hosts on it.\<close>

definition wires :: "(nat \<times> string list) list" where
  "wires = [(0, [''default_router'']), (1, [''applesauce'']), (3, [''cherrypie'']), (5, [''hs_router'']), (4, [''dm42'', ''dm43''])]"

definition line :: "Network \<Rightarrow> nat \<times> string list \<Rightarrow> AsyncNetworkInterface list" where
  "line net w = iface net (fst w) # map (\<lambda>name. ho_interface (the_host net name)) (snd w)"

text \<open>All of a network but the interfaces on its links.\<close>

definition unplugged :: "Host \<Rightarrow> Host" where
  "unplugged h = h\<lparr>ho_interface := AsyncNetworkInterface_of (NetworkInterface_new [] 0)\<rparr>"

definition fittings :: "Network \<Rightarrow> Network \<times> (string \<times> Host) list \<times> nat \<times> AsyncNetworkInterface list" where
  "fittings net =
     (net\<lparr>ne_router := (ne_router net)\<lparr>ro_interfaces := []\<rparr>, ne_hosts := []\<rparr>,
      map (\<lambda>(name, h). (name, unplugged h)) (ne_hosts net),
      length (ro_interfaces (ne_router net)), [iface net 2, iface net 6])"

definition wired :: "Network \<Rightarrow> bool" where
  "wired net \<longleftrightarrow>
     length (ro_interfaces (ne_router net)) = 7 \<and> ne_default_id net = 0 \<and> ne_eth0_id net = 1 \<and> ne_eth2_id net = 3 \<and>
     ne_uun3_id net = 4 \<and> ne_hs4_id net = 5 \<and>
     map (\<lambda>(name, h). (name, ho_name h)) (ne_hosts net) = map (\<lambda>name. (name, name)) host_names"

lemma map_update_same:
  "map_of al k = Some v \<Longrightarrow> f (k, v') = f (k, v) \<Longrightarrow> map f (AList.update k v' al) = map f al"
  by (induction al) (auto split: if_splits)

lemma unplugged_name: "ho_name (unplugged h) = ho_name h"
  by (simp add: unplugged_def)

lemma fittings_wired:
  assumes "fittings net' = fittings net"
  shows "wired net' = wired net"
proof -
  let ?f = "\<lambda>(name, h). (name, ho_name h)" and ?u = "\<lambda>(name, h). (name, unplugged h)"
  have u: "map ?f (ne_hosts n) = map ?f (map ?u (ne_hosts n))" for n by (auto simp: unplugged_name)
  have "map ?f (ne_hosts net') = map ?f (ne_hosts net)"
    using assms unfolding u [of net'] u [of net] by (simp only: fittings_def prod.inject)
  moreover have "ne_default_id net' = ne_default_id net \<and> ne_eth0_id net' = ne_eth0_id net \<and> ne_eth2_id net' = ne_eth2_id net \<and>
      ne_uun3_id net' = ne_uun3_id net \<and> ne_hs4_id net' = ne_hs4_id net"
    using assms by (cases net; cases net') (simp add: fittings_def)
  ultimately show ?thesis using assms by (simp add: wired_def fittings_def)
qed

lemma wired_host:
  assumes "wired net" and "name \<in> set host_names"
  shows "map_of (ne_hosts net) name = Some (the_host net name)" and "Network_host name net = Inr (the_host net name)"
proof -
  let ?f = "\<lambda>(name, h). (name, ho_name h)"
  have m: "map ?f (ne_hosts net) = map (\<lambda>name. (name, name)) host_names" using assms(1) by (simp add: wired_def)
  then have "map_of (map ?f (ne_hosts net)) name = Some name" using assms(2) by (simp add: map_of_map_restrict)
  then have "map_option ho_name (map_of (ne_hosts net) name) = Some name" by (simp add: map_of_map)
  then show "map_of (ne_hosts net) name = Some (the_host net name)" "Network_host name net = Inr (the_host net name)"
    by (auto simp: the_host_def Network_host_def)
qed

definition plug :: "string \<Rightarrow> AsyncNetworkInterface \<Rightarrow> Network \<Rightarrow> Network" where
  "plug name n net = set_host name ((the_host net name)\<lparr>ho_interface := n\<rparr>) net"

lemma plug_simps:
  "iface (plug name n net) i = iface net i"
  "the_host (plug name n net) name' = (if name' = name then (the_host net name)\<lparr>ho_interface := n\<rparr> else the_host net name')"
  by (simp_all add: plug_def set_host_def iface_def the_host_def update_conv')

lemma plug_fittings:
  assumes "wired net" and "name \<in> set host_names"
  shows "fittings (plug name n net) = fittings net"
  using map_update_same [OF wired_host(1) [OF assms], of "\<lambda>(name, h). (name, unplugged h)" "(the_host net name)\<lparr>ho_interface := n\<rparr>"]
  by (simp add: fittings_def plug_def set_host_def iface_def unplugged_def)

lemma set_interface_simps:
  "the_host (set_interface i n net) name = the_host net name"
  "unat i < length (ro_interfaces (ne_router net)) \<Longrightarrow> iface (set_interface i n net) j = (if j = unat i then n else iface net j)"
  "unat i \<notin> {2, 6} \<Longrightarrow> fittings (set_interface i n net) = fittings net"
  by (auto simp: set_interface_def iface_def the_host_def fittings_def nth_list_update)

lemma wires_cases:
  assumes "w \<in> set wires"
  obtains "w = (0, [''default_router''])" | "w = (1, [''applesauce''])" | "w = (3, [''cherrypie''])" | "w = (5, [''hs_router''])"
    | "w = (4, [''dm42'', ''dm43''])"
  using assms by (auto simp: wires_def)

lemma wires_disjoint:
  assumes "w \<in> set wires" and "w' \<in> set wires" and "w \<noteq> w'"
  shows "fst w \<noteq> fst w'" and "set (snd w) \<inter> set (snd w') = {}"
  using assms by (elim wires_cases; simp)+

lemma line_other:
  assumes "\<And>j. j \<noteq> i \<Longrightarrow> iface net' j = iface net j" and "\<And>name. name \<notin> set names \<Longrightarrow> the_host net' name = the_host net name"
    and "(i, names) \<in> set wires" and "w \<in> set wires" and "w \<noteq> (i, names)"
  shows "line net' w = line net w"
proof -
  have "fst w \<noteq> i" "set (snd w) \<inter> set names = {}" using wires_disjoint [OF assms(4,3,5)] by simp_all
  then show ?thesis using assms(1,2) by (auto simp: line_def disjoint_iff)
qed

text \<open>A link of the router with one host, and the link with two.\<close>

lemma link_turn:
  assumes "wired net" and "(unat i, [name]) \<in> set wires" and "turn (line net (unat i, [name])) ns'"
  shows "\<exists>net'. link i name net = (None, net') \<and> fittings net' = fittings net \<and>
    (\<forall>w \<in> set wires. line net' w = (if w = (unat i, [name]) then ns' else line net w))"
proof -
  have n: "name \<in> set host_names" "unat i < 7" "unat i \<notin> {2, 6}" using assms(2) by (auto simp: wires_def host_names_def)
  have len: "length (ro_interfaces (ne_router net)) = 7" using assms(1) by (simp add: wired_def)
  let ?h = "the_host net name"
  from exchange_frames_turn [OF assms(3) [unfolded line_def, simplified]] obtain x y
    where xy: "ns' = [x, y]" "exchange_frames (iface net (unat i), ho_interface ?h) = (None, x, y)" by blast
  have "link i name net = (None, set_interface i x (plug name y net))"
    using n(2) len xy(2) by (simp add: link_def Router_interface_def wired_host(2) [OF assms(1) n(1)] iface_def plug_def)
  moreover have "length (ro_interfaces (ne_router (plug name y net))) = 7" using len by (simp add: plug_def set_host_def)
  moreover have "fittings (set_interface i x (plug name y net)) = fittings net"
    using n by (simp add: set_interface_simps plug_fittings [OF assms(1)])
  moreover have "line (set_interface i x (plug name y net)) (unat i, [name]) = ns'"
    using n(2) calculation(2) xy(1) by (simp add: line_def set_interface_simps plug_simps)
  moreover have "line (set_interface i x (plug name y net)) w = line net w" if "w \<in> set wires" "w \<noteq> (unat i, [name])" for w
    using n(2) calculation(2) by (intro line_other [OF _ _ assms(2) that]) (simp_all add: set_interface_simps plug_simps)
  ultimately show ?thesis by auto
qed

lemma link3_turn:
  assumes "wired net" and "turn (line net (4, [''dm42'', ''dm43''])) ns'"
  shows "\<exists>net'. link3 4 ''dm42'' ''dm43'' net = (None, net') \<and> fittings net' = fittings net \<and>
    (\<forall>w \<in> set wires. line net' w = (if w = (4, [''dm42'', ''dm43'']) then ns' else line net w))"
proof -
  have n: "''dm42'' \<in> set host_names" "''dm43'' \<in> set host_names" by (simp_all add: host_names_def)
  have len: "length (ro_interfaces (ne_router net)) = 7" using assms(1) by (simp add: wired_def)
  from exchange_frames3_turn [OF assms(2) [unfolded line_def, simplified]] obtain x y z where xyz: "ns' = [x, y, z]"
    "exchange_frames3 (iface net 4, ho_interface (the_host net ''dm42''), ho_interface (the_host net ''dm43'')) = (None, x, y, z)" by blast
  let ?net = "plug ''dm42'' y (plug ''dm43'' z net)"
  have w: "wired (plug ''dm43'' z net)" using fittings_wired [OF plug_fittings [OF assms(1) n(2)]] assms(1) by simp
  have "link3 4 ''dm42'' ''dm43'' net = (None, set_interface 4 x ?net)"
    using len xyz(2) unfolding plug_def [of "''dm42''"] plug_simps
    by (simp add: link3_def Router_interface_def wired_host(2) [OF assms(1)] n iface_def plug_def)
  moreover have "length (ro_interfaces (ne_router ?net)) = 7" using len by (simp add: plug_def set_host_def)
  moreover have "fittings (set_interface 4 x ?net) = fittings net"
    using n by (simp add: set_interface_simps plug_fittings w assms(1))
  moreover have "line (set_interface 4 x ?net) (4, [''dm42'', ''dm43'']) = ns'"
    using calculation(2) xyz(1) by (simp add: line_def set_interface_simps plug_simps)
  moreover have "line (set_interface 4 x ?net) w = line net w" if "w \<in> set wires" "w \<noteq> (4, [''dm42'', ''dm43''])" for w
    using calculation(2)
    by (intro line_other [OF _ _ _ that]) (simp_all add: set_interface_simps plug_simps wires_def)
  ultimately show ?thesis by auto
qed

lemma connections_turn:
  assumes "wired net" and "\<forall>w \<in> set wires. turn (line net w) (L w)"
  shows "\<exists>net'. simulate_physical_connections net = (None, net') \<and> fittings net' = fittings net \<and> (\<forall>w \<in> set wires. line net' w = L w)"
proof -
  let ?w0 = "(0, [''default_router''])" and ?w1 = "(1, [''applesauce''])" and ?w2 = "(3, [''cherrypie''])"
    and ?w3 = "(5, [''hs_router''])" and ?w4 = "(4, [''dm42'', ''dm43''])"
  have ws: "set wires = {?w0, ?w1, ?w2, ?w3, ?w4}" by (simp add: wires_def)
  have ids: "ne_default_id net = 0" "ne_eth0_id net = 1" "ne_eth2_id net = 3" "ne_uun3_id net = 4" "ne_hs4_id net = 5"
    using assms(1) by (simp_all add: wired_def)
  obtain net1 where 1: "link 0 ''default_router'' net = (None, net1)" "fittings net1 = fittings net"
    "\<forall>w \<in> set wires. line net1 w = (if w = ?w0 then L ?w0 else line net w)"
    using link_turn [OF assms(1), of 0 "''default_router''" "L ?w0"] assms(2) by (auto simp: ws)
  obtain net2 where 2: "link 1 ''applesauce'' net1 = (None, net2)" "fittings net2 = fittings net1"
    "\<forall>w \<in> set wires. line net2 w = (if w = ?w1 then L ?w1 else line net1 w)"
    using link_turn [of net1 1 "''applesauce''" "L ?w1"] 1 assms fittings_wired [OF 1(2)] by (auto simp: ws)
  obtain net3 where 3: "link 3 ''cherrypie'' net2 = (None, net3)" "fittings net3 = fittings net2"
    "\<forall>w \<in> set wires. line net3 w = (if w = ?w2 then L ?w2 else line net2 w)"
    using link_turn [of net2 3 "''cherrypie''" "L ?w2"] 1 2 assms fittings_wired [OF 1(2)] fittings_wired [OF 2(2)] by (auto simp: ws)
  obtain net4 where 4: "link 5 ''hs_router'' net3 = (None, net4)" "fittings net4 = fittings net3"
    "\<forall>w \<in> set wires. line net4 w = (if w = ?w3 then L ?w3 else line net3 w)"
    using link_turn [of net3 5 "''hs_router''" "L ?w3"] 1 2 3 assms fittings_wired [of net3 net] by (auto simp: ws)
  obtain net5 where 5: "link3 4 ''dm42'' ''dm43'' net4 = (None, net5)" "fittings net5 = fittings net4"
    "\<forall>w \<in> set wires. line net5 w = (if w = ?w4 then L ?w4 else line net4 w)"
    using link3_turn [of net4 "L ?w4"] 1 2 3 4 assms fittings_wired [of net4 net] by (auto simp: ws)
  have "simulate_physical_connections net = (None, net5)"
    by (simp add: simulate_physical_connections_def ids 1(1) 2(1) 3(1) 4(1) 5(1))
  moreover have "\<forall>w \<in> set wires. line net5 w = L w" using 1(3) 2(3) 3(3) 4(3) 5(3) by (simp add: ws)
  ultimately show ?thesis using 1(2) 2(2) 3(2) 4(2) 5(2) by auto
qed

section \<open>Rounds\<close>

definition cleared_queue :: "AsyncNetworkInterface \<Rightarrow> AsyncNetworkInterface" where
  "cleared_queue n = n\<lparr>ai_datagrams_out := []\<rparr>"

lemma Router_route_forwards:
  assumes "routes_ok r" and "\<forall>n \<in> set (ro_interfaces r). \<forall>d \<in> set (ai_datagrams_out n). datagram_ok d"
  shows "Router_route s r = (None, r\<lparr>ro_interfaces := map cleared_queue
    (fold (forward (ro_route_table r)) (concat (map ai_datagrams_out (ro_interfaces r))) (ro_interfaces r))\<rparr>)"
proof -
  let ?n = "length (ro_interfaces r)" let ?r = "snd (route_interfaces s 0 ?n r)"
  have c: "(\<lambda>n. n\<lparr>ai_datagrams_out := []\<rparr>) = cleared_queue" by (simp add: cleared_queue_def fun_eq_iff)
  have q: "map (\<lambda>i. queue_of i r) [0..<?n] = map ai_datagrams_out (ro_interfaces r)"
    by (rule nth_equalityI) (simp_all add: queue_of_def)
  have "\<forall>i < ?n. \<forall>d \<in> set (queue_of i r). datagram_ok d" using assms(2) by (auto simp: queue_of_def)
  note f = route_interfaces_forwards [of 0 ?n, OF _ assms(1) this refl, of s, unfolded c, simplified q, simplified]
  have "\<forall>i < ?n. queue_of i ?r = []" "length (ro_interfaces ?r) = ?n" using f by blast+
  then have "map cleared_queue (ro_interfaces ?r) = ro_interfaces ?r"
    by (intro nth_equalityI) (auto simp: cleared_queue_def queue_of_def)
  then have "ro_interfaces ?r = map cleared_queue
      (fold (forward (ro_route_table r)) (concat (map ai_datagrams_out (ro_interfaces r))) (ro_interfaces r))" using f by metis
  moreover have "ro_route_table ?r = ro_route_table r" using f by simp
  ultimately have "?r = r\<lparr>ro_interfaces := map cleared_queue
      (fold (forward (ro_route_table r)) (concat (map ai_datagrams_out (ro_interfaces r))) (ro_interfaces r))\<rparr>" by simp
  with f show ?thesis by (simp add: Router_route_def prod_eq_iff)
qed

definition router_idle :: "Network \<Rightarrow> bool" where
  "router_idle net \<longleftrightarrow> (\<forall>n \<in> set (ro_interfaces (ne_router net)). ai_datagrams_out n = [])"

definition rounds :: "(u32 \<Rightarrow> u32) \<Rightarrow> nat \<Rightarrow> Network \<Rightarrow> Network \<Rightarrow> bool" where
  "rounds s k net net' \<longleftrightarrow> run_all (replicate k (simulate_round s)) net = (None, net')"

lemma run_all_append: "run_all (fs @ gs) s = (case run_all fs s of (Some e, s') \<Rightarrow> (Some e, s') | (None, s') \<Rightarrow> run_all gs s')"
  by (induction fs arbitrary: s) (auto split: prod.splits option.splits)

lemma rounds_0: "rounds s 0 net net"
  by (simp add: rounds_def)

lemma rounds_add: "rounds s j net net1 \<Longrightarrow> rounds s k net1 net2 \<Longrightarrow> rounds s (j + k) net net2"
  by (simp add: rounds_def replicate_add run_all_append)

lemma rounds_1: "simulate_round s net = (None, net') \<Longrightarrow> rounds s 1 net net'"
  by (simp add: rounds_def)

lemma route_idle:
  assumes "router_idle net" and "routes_ok (ne_router net)"
  shows "route_network s net = (None, net)"
proof -
  have c: "concat (map ai_datagrams_out (ro_interfaces (ne_router net))) = []" using assms(1) by (simp add: router_idle_def)
  have m: "map cleared_queue (ro_interfaces (ne_router net)) = ro_interfaces (ne_router net)"
    using assms(1) by (intro map_idI) (simp add: router_idle_def cleared_queue_def)
  have "\<forall>n \<in> set (ro_interfaces (ne_router net)). \<forall>d \<in> set (ai_datagrams_out n). datagram_ok d"
    using assms(1) by (simp add: router_idle_def)
  from Router_route_forwards [OF assms(2) this, of s] have "Router_route s (ne_router net) = (None, ne_router net)"
    unfolding c by (simp add: m)
  then show ?thesis by (simp add: route_network_def)
qed

text \<open>Routing comes first in a round, so it can be taken apart from the rounds that follow.\<close>

lemma rounds_after_route:
  assumes "route_network s net = (None, net1)" and "router_idle net1" and "routes_ok (ne_router net1)" and "0 < k"
  shows "rounds s k net net' = rounds s k net1 net'"
  using assms(4) route_idle [OF assms(2,3), of s] by (cases k) (simp_all add: rounds_def simulate_round_def assms(1))

lemma fittings_routes:
  "fittings net' = fittings net \<Longrightarrow> ro_route_table (ne_router net') = ro_route_table (ne_router net)"
  "fittings net' = fittings net \<Longrightarrow> routes_ok (ne_router net') = routes_ok (ne_router net)"
  "fittings net' = fittings net \<Longrightarrow> iface net' 2 = iface net 2 \<and> iface net' 6 = iface net 6"
proof -
  assume f: "fittings net' = fittings net"
  then have "(ne_router net')\<lparr>ro_interfaces := []\<rparr> = (ne_router net)\<lparr>ro_interfaces := []\<rparr>"
    by (cases net; cases net') (simp add: fittings_def)
  then show t: "ro_route_table (ne_router net') = ro_route_table (ne_router net)"
    by (cases "ne_router net"; cases "ne_router net'") simp
  show "routes_ok (ne_router net') = routes_ok (ne_router net)" using f by (simp add: routes_ok_def t fittings_def)
  show "iface net' 2 = iface net 2 \<and> iface net' 6 = iface net 6" using f by (simp add: fittings_def)
qed

end
