(* ===== verification/Simulated_Scenarios.thy ===== *)
theory Simulated_Scenarios
  imports Simulated_Network
begin

text \<open>
  The scenarios of \<open>apps/network_simulator.cc\<close>: a datagram crosses the sender's link, is routed,
  crosses the receiver's link and is the one the receiver expects; then the network is at rest
  again. The last theorem states that the program succeeds.
\<close>

section \<open>Rounds in which one link is active\<close>

lemma router_idle_iff:
  assumes "wired net"
  shows "router_idle net \<longleftrightarrow>
    (\<forall>w \<in> set wires. ai_datagrams_out (hd (line net w)) = []) \<and> ai_datagrams_out (iface net 2) = [] \<and> ai_datagrams_out (iface net 6) = []"
proof -
  have "length (ro_interfaces (ne_router net)) = 7" using assms by (simp add: wired_def)
  then have "set (ro_interfaces (ne_router net)) = iface net ` {..<7}" by (auto simp: iface_def in_set_conv_nth)
  moreover have "{..<7} = {0, 1, 2, 3, 4, 5, 6 :: nat}" by (simp add: numeral_eq_Suc lessThan_Suc insert_commute)
  ultimately have "router_idle net \<longleftrightarrow> (\<forall>i \<in> {0, 1, 2, 3, 4, 5, 6}. ai_datagrams_out (iface net i) = [])"
    by (simp only: router_idle_def ball_simps)
  then show ?thesis unfolding wires_def line_def by (simp add: conj_ac)
qed

definition silent_but :: "nat \<times> string list \<Rightarrow> Network \<Rightarrow> bool" where
  "silent_but w0 net \<longleftrightarrow> (\<forall>w \<in> set wires. w \<noteq> w0 \<longrightarrow> silent (line net w))"

text \<open>A network whose router has nothing to route.\<close>

definition ready :: "Network \<Rightarrow> bool" where
  "ready net \<longleftrightarrow> wired net \<and> routes_ok (ne_router net) \<and> router_idle net"

lemma ready_cong:
  assumes "ready net" and "fittings net' = fittings net"
    and "\<forall>w \<in> set wires. ai_datagrams_out (hd (line net' w)) = ai_datagrams_out (hd (line net w))"
  shows "ready net'"
proof -
  have "wired net'" using assms(1) fittings_wired [OF assms(2)] by (simp add: ready_def)
  then show ?thesis
    using assms fittings_routes(2,3) [OF assms(2)] by (auto simp: ready_def router_idle_iff)
qed

lemma round_turn:
  assumes "ready net" and "turn (line net w0) ns'" and "silent_but w0 net"
  shows "\<exists>net'. rounds s 1 net net' \<and> fittings net' = fittings net \<and> (\<forall>w \<in> set wires. line net' w = (if w = w0 then ns' else line net w))"
proof -
  have "\<forall>w \<in> set wires. turn (line net w) (if w = w0 then ns' else line net w)"
    using assms(2,3) by (auto simp: silent_but_def intro: turn_silent)
  then obtain net' where n: "simulate_physical_connections net = (None, net')" "fittings net' = fittings net"
    "\<forall>w \<in> set wires. line net' w = (if w = w0 then ns' else line net w)"
    using connections_turn [of net "\<lambda>w. if w = w0 then ns' else line net w"] assms(1) unfolding ready_def by blast
  moreover have "rounds s 1 net net'"
    using route_idle [of net s] assms(1) by (intro rounds_1) (simp add: simulate_round_def n(1) ready_def)
  ultimately show ?thesis by blast
qed

lemma line_hd: "map f ns = map f (line net w) \<Longrightarrow> f (hd ns) = f (hd (line net w))"
  by (cases ns) (simp_all add: line_def)

lemma rounds_turns:
  assumes "ready net" and "w0 \<in> set wires" and "(hush ^^ k) (line net w0) ns1" and "turn ns1 ns2" and "silent_but w0 net"
  shows "\<exists>net'. rounds s (Suc k) net net' \<and> fittings net' = fittings net \<and> (\<forall>w \<in> set wires. line net' w = (if w = w0 then ns2 else line net w))"
  using assms
proof (induction k arbitrary: net)
  case 0
  then show ?case using round_turn [of net w0 ns2 s] by simp
next
  case (Suc k)
  from Suc.prems(3) obtain ns where ns: "hush (line net w0) ns" "(hush ^^ k) ns ns1" by (meson relpowp_Suc_D2)
  then obtain net1 where n1: "rounds s 1 net net1" "fittings net1 = fittings net" "\<forall>w \<in> set wires. line net1 w = (if w = w0 then ns else line net w)"
    using round_turn [OF Suc.prems(1) _ Suc.prems(5), of ns s] by (auto simp: hush_def)
  have "ready net1"
    using ready_cong [OF Suc.prems(1) n1(2)] n1(3) ns(1) line_hd [of ai_datagrams_out ns net w0] by (simp add: hush_def)
  moreover have "silent_but w0 net1" using Suc.prems(5) n1(3) by (simp add: silent_but_def)
  ultimately obtain net' where "rounds s (Suc k) net1 net'" "fittings net' = fittings net1"
    "\<forall>w \<in> set wires. line net' w = (if w = w0 then ns2 else line net1 w)"
    using Suc.IH [of net1] ns(2) Suc.prems(2,4) n1(3) by auto
  then show ?case using rounds_add [OF n1(1), of "Suc k" net'] n1(2,3) by (intro exI [of _ net']) simp
qed

text \<open>Rounds in which nothing happens.\<close>

lemma rounds_rest:
  assumes "ready net" and "\<forall>w \<in> set wires. silent (line net w)"
  shows "\<exists>net'. rounds s k net net' \<and> fittings net' = fittings net \<and> (\<forall>w \<in> set wires. line net' w = line net w)"
  using assms
proof (induction k arbitrary: net)
  case 0
  then show ?case using rounds_0 by blast
next
  case (Suc k)
  let ?w = "(0, [''default_router'']) :: nat \<times> string list"
  have "?w \<in> set wires" by (simp add: wires_def)
  then have "silent_but ?w net" "turn (line net ?w) (line net ?w)"
    using Suc.prems(2) by (simp_all add: silent_but_def turn_silent)
  from round_turn [OF Suc.prems(1) this(2,1), of s] obtain net1
    where n1: "rounds s 1 net net1" "fittings net1 = fittings net" "\<forall>w \<in> set wires. line net1 w = line net w"
    by (metis (full_types))
  moreover have "ready net1" using ready_cong [OF Suc.prems(1) n1(2)] n1(3) by simp
  ultimately obtain net' where "rounds s k net1 net'" "fittings net' = fittings net1" "\<forall>w \<in> set wires. line net' w = line net1 w"
    using Suc.IH [of net1] Suc.prems(2) by auto
  then show ?case using rounds_add [OF n1(1), of k net'] n1(2,3) by (intro exI [of _ net']) simp
qed

section \<open>Crossing a link\<close>

definition all_settled :: "(nat \<times> string list \<Rightarrow> (u32 \<times> EthernetAddress) list) \<Rightarrow> Network \<Rightarrow> bool" where
  "all_settled who net \<longleftrightarrow> (\<forall>w \<in> set wires. stations_ok (who w) \<and> line_settled (who w) (line net w))"

lemma settled_silent: "all_settled who net \<Longrightarrow> w \<in> set wires \<Longrightarrow> silent (line net w)"
  by (auto simp: all_settled_def line_settled_def settled_def silent_def)

definition queues :: "Network \<Rightarrow> nat \<times> string list \<Rightarrow> IPv4Datagram list list" where
  "queues net w = map ai_datagrams_out (line net w)"

lemma crossing:
  assumes "all_settled who net0" and "w0 \<in> set wires" and "a < length (line net0 w0)" and "b < length (line net0 w0)" and "a \<noteq> b"
    and "datagram_ok d" and "ready net"
    and "\<forall>w \<in> set wires. line net w = (if w = w0 then (line net0 w0)[a := snd (NetworkInterface_send_datagram d
      (ni_ip_address (line net0 w0 ! b)) (line net0 w0 ! a))] else line net0 w)"
  shows "\<exists>k net'. 0 < k \<and> k \<le> 3 \<and> rounds s k net net' \<and> fittings net' = fittings net \<and> all_settled who net' \<and>
    (\<forall>w \<in> set wires. queues net' w = (if w = w0 then (queues net0 w0)[b := queues net0 w0 ! b @ [received d]] else queues net0 w))"
proof -
  have s: "line_settled (who w0) (line net0 w0)" "stations_ok (who w0)" using assms(1,2) by (simp_all add: all_settled_def)
  from transfer [OF s assms(3-6) refl] obtain k ns1 ns2 where t: "k \<le> 2" "(hush ^^ k) (line net w0) ns1" "turn ns1 ns2"
      "line_settled (who w0) ns2"
      "map ai_datagrams_out ns2 = (map ai_datagrams_out (line net0 w0))[b := ai_datagrams_out (line net0 w0 ! b) @ [received d]]"
    using assms(2,8) by auto
  have "silent_but w0 net" using settled_silent [OF assms(1)] assms(8) by (simp add: silent_but_def)
  from rounds_turns [OF assms(7,2) t(2,3) this, of s] obtain net' where n: "rounds s (Suc k) net net'" "fittings net' = fittings net"
      "\<forall>w \<in> set wires. line net' w = (if w = w0 then ns2 else line net w)" by blast
  moreover have "all_settled who net'" using assms(1,8) n(3) t(4) by (simp add: all_settled_def)
  moreover have "\<forall>w \<in> set wires. queues net' w = (if w = w0 then (queues net0 w0)[b := queues net0 w0 ! b @ [received d]] else queues net0 w)"
    using n(3) assms(4,8) t(5) by (simp add: queues_def)
  ultimately show ?thesis using t(1) by (intro exI [of _ "Suc k"] exI [of _ net']) simp
qed

section \<open>Crossing the router\<close>

lemma concat_single:
  assumes "i < length xs" and "\<forall>j < length xs. xs ! j = (if j = i then ys else [])"
  shows "concat xs = ys"
proof -
  have "xs = (replicate (length xs) [])[i := ys]" by (rule nth_equalityI) (use assms in \<open>auto simp: nth_list_update\<close>)
  then have "concat xs = concat ((replicate (length xs) [])[i := ys])" by simp
  then show ?thesis using assms(1) by (simp add: upd_conv_take_nth_drop)
qed

definition cleared_router :: "Network \<Rightarrow> Network" where
  "cleared_router net = net\<lparr>ne_router := (ne_router net)\<lparr>ro_interfaces := map cleared_queue (ro_interfaces (ne_router net))\<rparr>\<rparr>"

lemma wires_bound: "w \<in> set wires \<Longrightarrow> fst w < 7 \<and> fst w \<notin> {2, 6}"
  by (elim wires_cases) simp_all

lemma cleared_router_facts:
  assumes "wired net" and "ai_datagrams_out (iface net 2) = []" and "ai_datagrams_out (iface net 6) = []"
  shows "fittings (cleared_router net) = fittings net"
    and "w \<in> set wires \<Longrightarrow> line (cleared_router net) w = cleared_queue (hd (line net w)) # tl (line net w)"
    and "router_idle (cleared_router net)"
proof -
  have l: "length (ro_interfaces (ne_router net)) = 7" using assms(1) by (simp add: wired_def)
  then have i: "iface (cleared_router net) i = cleared_queue (iface net i)" if "i < 7" for i
    using that by (simp add: iface_def cleared_router_def)
  moreover have "cleared_queue (iface net 2) = iface net 2" "cleared_queue (iface net 6) = iface net 6"
    using assms(2,3) by (simp_all add: cleared_queue_def)
  ultimately show "fittings (cleared_router net) = fittings net"
    by (simp add: fittings_def) (simp add: cleared_router_def)
  show "line (cleared_router net) w = cleared_queue (hd (line net w)) # tl (line net w)" if "w \<in> set wires"
    using i wires_bound [OF that] by (simp add: line_def the_host_def) (simp add: cleared_router_def)
  show "router_idle (cleared_router net)" by (simp add: router_idle_def cleared_router_def cleared_queue_def)
qed

text \<open>One datagram waits at the router, on the link \<open>w\<close>.\<close>

definition arrived :: "nat \<times> string list \<Rightarrow> IPv4Datagram \<Rightarrow> Network \<Rightarrow> bool" where
  "arrived w r net \<longleftrightarrow>
     wired net \<and> routes_ok (ne_router net) \<and> w \<in> set wires \<and> datagram_ok r \<and>
     ai_datagrams_out (iface net 2) = [] \<and> ai_datagrams_out (iface net 6) = [] \<and>
     (\<forall>w' \<in> set wires. ai_datagrams_out (hd (line net w')) = (if w' = w then [r] else []))"

lemma arrived_queue:
  assumes "arrived w r net" and "j < 7"
  shows "ai_datagrams_out (iface net j) = (if j = fst w then [r] else [])"
proof -
  have h: "ai_datagrams_out (iface net (fst w')) = (if w' = w then [r] else [])" if "w' \<in> set wires" for w'
    using assms(1) that by (simp add: arrived_def line_def)
  have w: "w \<in> set wires" using assms(1) by (simp add: arrived_def)
  show ?thesis
  proof (cases "j \<in> {2, 6}")
    case True
    then show ?thesis using assms(1) wires_bound [OF w] by (auto simp: arrived_def)
  next
    case False
    then have "j \<in> fst ` set wires" using assms(2) by (auto simp: wires_def)
    then obtain w' where "w' \<in> set wires" "j = fst w'" by blast
    then show ?thesis using h [of w'] wires_disjoint(1) [OF _ w, of w'] by auto
  qed
qed

lemma route_arrived:
  assumes "arrived w r net"
  shows "route_network s net = (None, net\<lparr>ne_router := (ne_router net)\<lparr>ro_interfaces :=
    map cleared_queue (forward (ro_route_table (ne_router net)) r (ro_interfaces (ne_router net)))\<rparr>\<rparr>)"
proof -
  let ?ns = "ro_interfaces (ne_router net)"
  have l: "length ?ns = 7" and ok: "routes_ok (ne_router net)" "datagram_ok r" "fst w < 7"
    using assms wires_bound [of w] by (simp_all add: arrived_def wired_def)
  have q: "\<forall>j < length ?ns. map ai_datagrams_out ?ns ! j = (if j = fst w then [r] else [])"
    using arrived_queue [OF assms] l by (simp add: iface_def)
  then have c: "concat (map ai_datagrams_out ?ns) = [r]" using concat_single [of "fst w" "map ai_datagrams_out ?ns" "[r]"] l ok(3) by simp
  have "\<forall>n \<in> set ?ns. \<forall>d \<in> set (ai_datagrams_out n). datagram_ok d"
    using q ok(2) by (auto simp: all_set_conv_all_nth split: if_splits)
  from Router_route_forwards [OF ok(1) this, of s] show ?thesis unfolding c by (simp add: route_network_def)
qed

lemma route_drops:
  assumes "arrived w r net" and "unat (ih_ttl (id_header r)) \<le> 1"
  shows "route_network s net = (None, cleared_router net)"
  using route_arrived [OF assms(1), of s] assms(2) by (simp add: forward_alt cleared_router_def)

lemma cleared_send:
  "cleared_queue (snd (NetworkInterface_send_datagram d ip n)) = snd (NetworkInterface_send_datagram d ip (cleared_queue n))"
  by (simp add: cleared_queue_def send_datagram_set_queue)

lemma route_forwards:
  assumes "arrived w r net" and "1 < unat (ih_ttl (id_header r))" and "w' \<in> set wires"
    and "best_route (\<lambda>x. 0) (ih_dst (id_header r)) (ro_route_table (ne_router net)) 0 None = Some rt"
    and "unat (rm_interface_num rt) = fst w'" and "ip = (if rm_next_hop rt = 0 then ih_dst (id_header r) else rm_next_hop rt)"
  shows "\<exists>net'. route_network s net = (None, net') \<and> fittings net' = fittings net \<and> ready net' \<and>
    (\<forall>v \<in> set wires. line net' v = (if v = w'
       then (line (cleared_router net) w')[0 := snd (NetworkInterface_send_datagram (decrement_ttl r) ip (line (cleared_router net) w' ! 0))]
       else line (cleared_router net) v))"
proof -
  let ?C = "cleared_router net" let ?n = "snd (NetworkInterface_send_datagram (decrement_ttl r) ip (iface ?C (fst w')))"
  let ?net' = "set_interface (rm_interface_num rt) ?n ?C"
  have wd: "wired net" "routes_ok (ne_router net)" and l: "length (ro_interfaces (ne_router net)) = 7" and b: "fst w' < 7" "fst w' \<notin> {2, 6}"
    using assms(1) wires_bound [OF assms(3)] by (simp_all add: arrived_def wired_def)
  have lc: "length (ro_interfaces (ne_router ?C)) = 7" using l by (simp add: cleared_router_def)
  have C: "fittings ?C = fittings net" "router_idle ?C" using cleared_router_facts [of net] assms(1) by (simp_all add: arrived_def)
  have "map cleared_queue (forward (ro_route_table (ne_router net)) r (ro_interfaces (ne_router net))) =
      (ro_interfaces (ne_router ?C))[fst w' := ?n]"
    using assms(2) l b(1) by (simp add: forward_alt assms(4,5) assms(6) [symmetric] map_update cleared_send cleared_router_def iface_def)
  then have "route_network s net = (None, ?net')"
    using route_arrived [OF assms(1), of s] by (simp add: set_interface_def assms(5) cleared_router_def)
  moreover have f: "fittings ?net' = fittings net" using C(1) b(2) by (simp add: set_interface_simps assms(5))
  moreover have lines: "line ?net' v = (if v = w' then (line ?C w')[0 := snd (NetworkInterface_send_datagram (decrement_ttl r) ip (line ?C w' ! 0))]
      else line ?C v)" if v: "v \<in> set wires" for v
    using wires_disjoint(1) [OF v assms(3)] lc b(1) assms(5) by (auto simp: line_def set_interface_simps)
  moreover have "ready ?net'"
  proof -
    have "ready ?C" using wd fittings_wired [OF C(1)] fittings_routes(2) [OF C(1)] C(2) by (simp add: ready_def)
    then show ?thesis by (rule ready_cong) (simp_all add: f C(1) lines, simp add: line_def)
  qed
  ultimately show ?thesis by blast
qed

section \<open>Crossing the network\<close>

definition resting :: "(nat \<times> string list \<Rightarrow> (u32 \<times> EthernetAddress) list) \<Rightarrow> Network \<Rightarrow> bool" where
  "resting who net \<longleftrightarrow>
     ready net \<and> all_settled who net \<and> (\<forall>w \<in> set wires. queues net w = replicate (length (line net w)) [])"

text \<open>Host \<open>a\<close> of the link \<open>w\<close> has handed \<open>d\<close> to its interface, which sends it to the router.\<close>

definition sends :: "nat \<times> string list \<Rightarrow> nat \<Rightarrow> IPv4Datagram \<Rightarrow> Network \<Rightarrow> Network \<Rightarrow> bool" where
  "sends w a d net0 net \<longleftrightarrow>
     ready net \<and> w \<in> set wires \<and> 0 < a \<and> a < length (line net0 w) \<and> datagram_ok d \<and>
     (\<forall>v \<in> set wires. line net v = (if v = w
        then (line net0 w)[a := snd (NetworkInterface_send_datagram d (ni_ip_address (line net0 w ! 0)) (line net0 w ! a))]
        else line net0 v))"

lemma queue_hd: "ai_datagrams_out (hd (line net w)) = hd (queues net w)"
  by (simp add: queues_def line_def)

lemma replicate_update: "(replicate n x)[i := x] = replicate n x"
  using list_update_id [of "replicate n x" i] list_update_beyond [of "replicate n x" i]
  by (cases "i < n") simp_all

lemma hd_update: "0 < n \<Longrightarrow> hd ((replicate n x)[0 := y]) = y" "0 < n \<Longrightarrow> hd (replicate n x) = x"
  by (cases n; simp)+

lemma hd_update_later: "0 < i \<Longrightarrow> hd (xs[i := y]) = hd xs"
  by (cases xs; cases i) simp_all

lemma cleared_queues:
  "w \<in> set wires \<Longrightarrow> line (cleared_router net) w = cleared_queue (hd (line net w)) # tl (line net w) \<Longrightarrow>
    queues (cleared_router net) w = (queues net w)[0 := []]"
  by (simp add: queues_def cleared_queue_def line_def)

lemma line_settled_cleared: "line_settled who (cleared_queue (hd (line net w)) # tl (line net w)) = line_settled who (line net w)"
  by (simp add: line_settled_def line_def cleared_queue_def station_def)

lemma first_crossing:
  assumes "resting who net0" and "sends w a d net0 net"
  shows "\<exists>k net1. 0 < k \<and> k \<le> 3 \<and> rounds s k net net1 \<and> fittings net1 = fittings net \<and> arrived w (received d) net1 \<and>
    all_settled who (cleared_router net1) \<and> (\<forall>v \<in> set wires. queues (cleared_router net1) v = replicate (length (line net0 v)) [])"
proof -
  have r: "all_settled who net0" "\<forall>v \<in> set wires. queues net0 v = replicate (length (line net0 v)) []" and ne: "0 < length (line net0 v)" for v
    using assms(1) by (simp_all add: resting_def line_def)
  have d: "ready net" "w \<in> set wires" "0 < a" "a < length (line net0 w)" "datagram_ok d" using assms(2) by (simp_all add: sends_def)
  have ln: "\<forall>v \<in> set wires. line net v = (if v = w
        then (line net0 w)[a := snd (NetworkInterface_send_datagram d (ni_ip_address (line net0 w ! 0)) (line net0 w ! a))]
        else line net0 v)" using assms(2) by (simp add: sends_def)
  from crossing [OF r(1) d(2,4) ne _ d(5,1) ln, of s] obtain k net1 where n: "0 < k" "k \<le> 3" "rounds s k net net1" "fittings net1 = fittings net"
      "all_settled who net1"
      "\<forall>v \<in> set wires. queues net1 v = (if v = w then (queues net0 w)[0 := queues net0 w ! 0 @ [received d]] else queues net0 v)"
    using d(3) by blast
  have wd: "wired net1" "routes_ok (ne_router net1)" "ai_datagrams_out (iface net1 2) = []" "ai_datagrams_out (iface net1 6) = []"
    using d(1) fittings_wired [OF n(4)] fittings_routes(2,3) [OF n(4)] router_idle_iff [of net] by (simp_all add: ready_def)
  have q: "\<forall>v \<in> set wires. queues net1 v = (if v = w then (replicate (length (line net0 w)) [])[0 := [received d]]
      else replicate (length (line net0 v)) [])"
    using n(6) r(2) d(2) ne by simp
  then have "arrived w (received d) net1"
    using wd d(2) received_parse(3) [OF d(5)] ne by (simp add: arrived_def queue_hd hd_update)
  moreover note C = cleared_router_facts(2) [OF wd(1,3,4)]
  have "all_settled who (cleared_router net1)" using n(5) C by (simp add: all_settled_def line_settled_cleared)
  moreover have "\<forall>v \<in> set wires. queues (cleared_router net1) v = replicate (length (line net0 v)) []"
    using q C by (simp add: cleared_queues replicate_update)
  ultimately show ?thesis using n(1-4) by blast
qed

lemma replicate_lines: "length (queues net w) = length (snd w) + 1"
  by (simp add: queues_def line_def)

text \<open>What is left of the 256 rounds after the datagram has arrived.\<close>

lemma rounds_complete:
  assumes "rounds s j net net1" and "j \<le> n" and "ready net1" and "all_settled who net1"
  shows "\<exists>net'. rounds s n net net' \<and> fittings net' = fittings net1 \<and> ready net' \<and> all_settled who net' \<and>
    (\<forall>w \<in> set wires. queues net' w = queues net1 w)"
proof -
  from rounds_rest [OF assms(3), of s "n - j"] settled_silent [OF assms(4)] obtain net'
    where n: "rounds s (n - j) net1 net'" "fittings net' = fittings net1" "\<forall>w \<in> set wires. line net' w = line net1 w" by blast
  moreover have "rounds s n net net'" using rounds_add [OF assms(1) n(1)] assms(2) by simp
  moreover have "ready net'" using ready_cong [OF assms(3) n(2)] n(3) by simp
  ultimately show ?thesis using assms(4) by (intro exI [of _ net']) (simp add: all_settled_def queues_def)
qed

lemma dropped:
  assumes "resting who net0" and "sends w a d net0 net" and "unat (ih_ttl (id_header d)) \<le> 1" and "6 \<le> n"
  shows "\<exists>net'. rounds s n net net' \<and> fittings net' = fittings net \<and> resting who net'"
proof -
  from first_crossing [OF assms(1,2), of s] obtain k net1 where n1: "k \<le> 3" "rounds s k net net1" "fittings net1 = fittings net"
      "arrived w (received d) net1" "all_settled who (cleared_router net1)"
      "\<forall>v \<in> set wires. queues (cleared_router net1) v = replicate (length (line net0 v)) []" by blast
  let ?C = "cleared_router net1"
  have "datagram_ok d" using assms(2) by (simp add: sends_def)
  then have "ih_ttl (id_header (received d)) = ih_ttl (id_header d)"
    using received_parse(2) [of d] by (simp add: same_datagram_def ip_wire_header_def)
  then have rt: "route_network s net1 = (None, ?C)" using route_drops [OF n1(4)] assms(3) by simp
  have C: "fittings ?C = fittings net1" "router_idle ?C" using cleared_router_facts [of net1] n1(4) by (simp_all add: arrived_def)
  have rd: "ready ?C"
    using C n1(4) fittings_wired [OF C(1)] fittings_routes(2) [OF C(1)] by (simp add: ready_def arrived_def)
  from rounds_complete [where s = s and n = "n - k", OF rounds_0 _ rd n1(5)] obtain net' where n': "rounds s (n - k) ?C net'" "fittings net' = fittings ?C"
      "ready net'" "all_settled who net'" "\<forall>w \<in> set wires. queues net' w = queues ?C w" by auto
  have "rounds s (n - k) net1 net'" using rounds_after_route [OF rt C(2)] rd n'(1) n1(1) assms(4) by (simp add: ready_def)
  then have "rounds s n net net'" using rounds_add [OF n1(2)] n1(1) assms(4) by fastforce
  moreover have "resting who net'" using n'(3-5) n1(6) by (simp add: resting_def) (simp add: line_def)
  ultimately show ?thesis using n'(2) C(1) n1(3) by auto
qed

lemma delivered:
  assumes "resting who net0" and "sends w a d net0 net" and "1 < unat (ih_ttl (id_header d))" and "6 \<le> n" and "w' \<in> set wires"
    and "0 < b" and "b < length (line net0 w')"
    and "best_route (\<lambda>x. 0) (ih_dst (id_header d)) (ro_route_table (ne_router net)) 0 None = Some rt"
    and "unat (rm_interface_num rt) = fst w'" and "fst (who w' ! b) = (if rm_next_hop rt = 0 then ih_dst (id_header d) else rm_next_hop rt)"
  shows "\<exists>net'. rounds s n net net' \<and> fittings net' = fittings net \<and> ready net' \<and> all_settled who net' \<and>
    (\<forall>v \<in> set wires. queues net' v = (if v = w'
       then (replicate (length (line net0 w')) [])[b := [received (decrement_ttl (received d))]] else replicate (length (line net0 v)) []))"
proof -
  from first_crossing [OF assms(1,2), of s] obtain k net1 where n1: "k \<le> 3" "rounds s k net net1" "fittings net1 = fittings net"
      "arrived w (received d) net1" "all_settled who (cleared_router net1)"
      "\<forall>v \<in> set wires. queues (cleared_router net1) v = replicate (length (line net0 v)) []" by blast
  let ?C = "cleared_router net1" let ?d = "decrement_ttl (received d)"
  have ok: "datagram_ok d" "datagram_ok ?d" using assms(2) received_parse(3) [of d] by (simp_all add: sends_def)
  have h: "ih_ttl (id_header (received d)) = ih_ttl (id_header d)" "ih_dst (id_header (received d)) = ih_dst (id_header d)"
    using received_parse(2) [OF ok(1)] by (simp_all add: same_datagram_def ip_wire_header_def)
  have T: "ro_route_table (ne_router net1) = ro_route_table (ne_router net)" using fittings_routes(1) [OF n1(3)] .
  have st: "map station (line ?C w') = who w'" using n1(5) assms(5) by (simp add: all_settled_def line_settled_def)
  have b: "b < length (line ?C w')" "0 < length (line ?C w')" using assms(7) by (simp_all add: line_def)
  have ip: "ni_ip_address (line ?C w' ! b) = (if rm_next_hop rt = 0 then ih_dst (id_header (received d)) else rm_next_hop rt)"
    using station_nth(1) [OF st b(1)] assms(10) h(2) by simp
  from route_forwards [OF n1(4) _ assms(5) _ assms(9) ip, of s] assms(3,8) obtain net2 where n2: "route_network s net1 = (None, net2)"
      "fittings net2 = fittings net1" "ready net2"
      "\<forall>v \<in> set wires. line net2 v = (if v = w' then (line ?C w')[0 := snd (NetworkInterface_send_datagram ?d
        (ni_ip_address (line ?C w' ! b)) (line ?C w' ! 0))] else line ?C v)"
    unfolding h T by blast
  from crossing [OF n1(5) assms(5) b(2,1) _ ok(2) n2(3,4), of s] assms(6) obtain k' net3 where n3: "0 < k'" "k' \<le> 3" "rounds s k' net2 net3"
      "fittings net3 = fittings net2" "all_settled who net3"
      "\<forall>v \<in> set wires. queues net3 v = (if v = w' then (queues ?C w')[b := queues ?C w' ! b @ [received ?d]] else queues ?C v)"
    by blast
  have "ready net3"
  proof (rule ready_cong [OF n2(3) n3(4)])
    have "0 < length (line net0 v)" for v by (simp add: line_def)
    then have "\<forall>v \<in> set wires. hd (queues net3 v) = []" using n3(6) n1(6) assms(5-7) by (simp add: hd_update hd_update_later)
    moreover have "\<forall>v \<in> set wires. ai_datagrams_out (hd (line net2 v)) = []" using n2(3) router_idle_iff [of net2] by (simp add: ready_def)
    ultimately show "\<forall>v \<in> set wires. ai_datagrams_out (hd (line net3 v)) = ai_datagrams_out (hd (line net2 v))" by (simp add: queue_hd)
  qed
  moreover have "rounds s (k + k') net net3"
    using rounds_add [OF n1(2)] rounds_after_route [OF n2(1) _ _ n3(1)] n2(3) n3(3) by (simp add: ready_def)
  ultimately obtain net' where "rounds s n net net'" "fittings net' = fittings net3" "ready net'" "all_settled who net'"
      "\<forall>v \<in> set wires. queues net' v = queues net3 v"
    using rounds_complete [of s "k + k'" net net3 n who] n3(2,5) n1(1) assms(4) by auto
  then show ?thesis using n3(4,6) n2(2) n1(3,6) assms(5,7) by (intro exI [of _ net']) simp
qed

section \<open>The checks of the hosts\<close>

definition passed :: "Host \<Rightarrow> Host" where
  "passed h = h\<lparr>ho_interface := cleared_queue (ho_interface h), ho_expecting_to_receive := []\<rparr>"

lemma Host_check_nothing:
  "ai_datagrams_out (ho_interface h) = [] \<Longrightarrow> ho_expecting_to_receive h = [] \<Longrightarrow> Host_check h = (None, passed h)"
  by (simp add: Host_check_def passed_def cleared_queue_def)

lemma Host_check_one:
  assumes "ai_datagrams_out (ho_interface h) = [x]" and "ho_expecting_to_receive h = [y]"
    and "datagram_ok x" and "datagram_ok y" and "wire_bytes x = wire_bytes y"
  shows "Host_check h = (None, passed h)"
  by (simp add: Host_check_def passed_def cleared_queue_def assms(1,2) same_bytes_ok [OF assms(4,3)] assms(5))

lemma check_hosts_pass:
  "\<forall>(name, h) \<in> set hosts. Host_check h = (None, passed h) \<Longrightarrow> check_hosts hosts = (None, map (\<lambda>(name, h). (name, passed h)) hosts)"
  by (induction hosts) auto

lemma wired_hosts:
  assumes "wired net" and "(name, h) \<in> set (ne_hosts net)"
  shows "name \<in> set host_names" and "h = the_host net name"
proof -
  have m: "map (\<lambda>(name, h). (name, ho_name h)) (ne_hosts net) = map (\<lambda>name. (name, name)) host_names"
    using assms(1) by (simp add: wired_def)
  have "map fst (ne_hosts net) = host_names" using arg_cong [OF m, of "map fst"] by (simp add: comp_def case_prod_beta')
  moreover have "distinct host_names" by (simp add: host_names_def)
  ultimately have f: "map fst (ne_hosts net) = host_names" "map_of (ne_hosts net) name = Some h"
    using assms(2) map_of_is_SomeI [of "ne_hosts net" name h] by simp_all
  have "name \<in> set (map fst (ne_hosts net))" using assms(2) by (auto intro: rev_image_eqI)
  then show "name \<in> set host_names" using f(1) by simp
  show "h = the_host net name" using f(2) by (simp add: the_host_def)
qed

lemma host_place:
  assumes "name \<in> set host_names"
  obtains w i where "w \<in> set wires" and "i < length (snd w)" and "name = snd w ! i"
proof -
  have "name \<in> (\<Union>w \<in> set wires. set (snd w))" using assms by (auto simp: wires_def host_names_def)
  then show ?thesis using that by (auto simp: in_set_conv_nth)
qed

lemma host_queue:
  "i < length (snd w) \<Longrightarrow> ai_datagrams_out (ho_interface (the_host net (snd w ! i))) = queues net w ! Suc i"
  by (simp add: queues_def line_def)

lemma wires_distinct: "w \<in> set wires \<Longrightarrow> distinct (snd w)"
  by (elim wires_cases) simp_all

lemma same_host:
  assumes "w \<in> set wires" and "w' \<in> set wires" and "i < length (snd w)" and "j < length (snd w')"
  shows "snd w ! i = snd w' ! j \<longleftrightarrow> w = w' \<and> i = j"
proof (cases "w = w'")
  case True
  then show ?thesis using assms wires_distinct [OF assms(1)] by (simp add: nth_eq_iff_index_eq)
next
  case False
  then show ?thesis using wires_disjoint(2) [OF assms(1,2)] assms(3,4) nth_mem by (metis IntI empty_iff)
qed

section \<open>Datagrams and their copies\<close>

lemma ip_wire_header_idem:
  "ip_wire_header (ip_wire_header h) = ip_wire_header h"
  "ip_wire_header ((ip_wire_header h)\<lparr>ih_ttl := t\<rparr>) = ip_wire_header (h\<lparr>ih_ttl := t\<rparr>)"
  by (simp_all add: ip_wire_header_def)

lemma received_decrement:
  assumes "datagram_ok d"
  shows "wire_bytes (received (decrement_ttl (received d))) = wire_bytes (decrement_ttl d)"
proof -
  let ?d = "decrement_ttl (received d)"
  have "datagram_ok ?d" using received_parse(3) [OF assms] by simp
  then have s: "same_datagram d (received d)" "same_datagram ?d (received ?d)" "datagram_ok (received ?d)"
    using received_parse(2,3) assms by blast+
  then have "id_header (received ?d) = ip_wire_header (id_header (decrement_ttl d))"
    "BufferList_concatenate (id_payload (received ?d)) = BufferList_concatenate (id_payload (decrement_ttl d))"
    by (simp_all add: same_datagram_def decrement_ttl_def ip_wire_header_idem) (simp add: ip_wire_header_def)
  then show ?thesis
    using wire_payload_bytes(1) [OF s(3)] wire_payload_bytes(1) [of "decrement_ttl d"] assms
    by (simp add: wire_bytes_def ip_wire_header_idem)
qed

lemma length_decimal: "n < 10 ^ Suc k \<Longrightarrow> length (decimal n) \<le> Suc k"
proof (induction k arbitrary: n)
  case 0
  then show ?case by (simp add: decimal.simps)
next
  case (Suc k)
  have "n div 10 < 10 ^ Suc k" using Suc.prems by (intro less_mult_imp_div_less) simp
  from Suc.IH [OF this] show ?case by (subst decimal.simps) simp
qed

lemma string_datagram_ok:
  assumes "length s < 100" and "bl = BufferList_of_string s"
  shows "datagram_ok \<lparr>id_header = IPv4Header_default\<lparr>ih_src := src, ih_dst := dst, ih_len := 4 * ucast (ih_hlen IPv4Header_default) +
    ucast (BufferList_size bl), ih_ttl := ttl\<rparr>, id_payload = bl\<rparr>"
proof -
  have b: "Buffer_str (Buffer_of s) = s" "buffer_ok (Buffer_of s)" using assms(1) by (simp_all add: Buffer_str_of buffer_ok_of)
  have p: "bl = [Buffer_of s]" by (simp add: assms(2) BufferList_of_string_def BufferList_of_Buffer_def BufferList_append_def)
  have "BufferList_size bl = of_nat (length s)" using b BufferList_size_length [of bl] by (simp add: p)
  then have "unat (ucast (BufferList_size bl) :: u16) = length s" using assms(1) by (simp add: unat_ucast_down unat_of_nat)
  then have "unat (20 + ucast (BufferList_size bl) :: u16) = 20 + length s" using assms(1) by (subst unat_add_small) simp_all
  then show ?thesis using b by (simp add: datagram_ok_def ip_header_ok_def IPv4Header_default_def p)
qed

lemma Host_datagram_ok:
  assumes "Host_datagram rd destination ttl h g = (d, g')"
  shows "datagram_ok d" and "ih_ttl (id_header d) = ttl" and "ih_dst (id_header d) = Address_ipv4_numeric destination"
proof -
  obtain w g1 where w: "rd g = (w, g1)" by fastforce
  define s where "s = bytes_of_string (''random payload: {'' @ decimal (unat w) @ ''}'')"
  have "unat w < 10 ^ Suc 9" using unat_lt_32 [of w] by simp
  from length_decimal [OF this] have l: "length s < 100" by (simp add: s_def bytes_of_string_def)
  have d: "d = \<lparr>id_header = IPv4Header_default\<lparr>ih_src := Address_ipv4_numeric (ho_my_address h), ih_dst := Address_ipv4_numeric destination,
      ih_len := 4 * ucast (ih_hlen IPv4Header_default) + ucast (BufferList_size (BufferList_of_string s)), ih_ttl := ttl\<rparr>,
      id_payload = BufferList_of_string s\<rparr>"
    using assms by (simp add: Host_datagram_def w Let_def s_def)
  show "datagram_ok d" unfolding d by (rule string_datagram_ok [OF l refl])
  show "ih_ttl (id_header d) = ttl" "ih_dst (id_header d) = Address_ipv4_numeric destination" by (simp_all add: d)
qed

section \<open>One scenario\<close>

text \<open>What no scenario changes: the routes and the names and addresses of the hosts.\<close>

definition blank :: "Host \<Rightarrow> Host" where
  "blank h = (unplugged h)\<lparr>ho_expecting_to_receive := []\<rparr>"

definition bare :: "Network \<Rightarrow> Network \<times> (string \<times> Host) list" where
  "bare net =
     (net\<lparr>ne_router := (ne_router net)\<lparr>ro_interfaces := []\<rparr>, ne_hosts := []\<rparr>, map (\<lambda>(name, h). (name, blank h)) (ne_hosts net))"

lemma fittings_bare: "fittings net' = fittings net \<Longrightarrow> bare net' = bare net"
proof -
  assume f: "fittings net' = fittings net"
  have b: "map (\<lambda>(name, h). (name, blank h)) (ne_hosts n) =
      map (\<lambda>(name, h). (name, h\<lparr>ho_expecting_to_receive := []\<rparr>)) (map (\<lambda>(name, h). (name, unplugged h)) (ne_hosts n))" for n
    by (auto simp: blank_def)
  show ?thesis using f unfolding bare_def b by (simp only: fittings_def prod.inject)
qed

lemma bare_table: "bare net' = bare net \<Longrightarrow> ro_route_table (ne_router net') = ro_route_table (ne_router net)"
proof -
  assume "bare net' = bare net"
  then have "(ne_router net')\<lparr>ro_interfaces := []\<rparr> = (ne_router net)\<lparr>ro_interfaces := []\<rparr>" by (cases net; cases net') (simp add: bare_def)
  then show ?thesis by (cases "ne_router net"; cases "ne_router net'") simp
qed

lemma bare_host:
  assumes "bare net' = bare net" and "wired net'" and "wired net" and "name \<in> set host_names"
  shows "ho_my_address (the_host net' name) = ho_my_address (the_host net name)"
    and "ho_next_hop (the_host net' name) = ho_next_hop (the_host net name)"
proof -
  have "map (\<lambda>(name, h). (name, blank h)) (ne_hosts net') = map (\<lambda>(name, h). (name, blank h)) (ne_hosts net)"
    using assms(1) by (simp add: bare_def)
  then have "map_of (map (\<lambda>(name, h). (name, blank h)) (ne_hosts net')) name = map_of (map (\<lambda>(name, h). (name, blank h)) (ne_hosts net)) name"
    by simp
  then have b: "blank (the_host net' name) = blank (the_host net name)"
    using wired_host(1) [OF assms(2,4)] wired_host(1) [OF assms(3,4)] by (simp add: map_of_map)
  show "ho_my_address (the_host net' name) = ho_my_address (the_host net name)"
    "ho_next_hop (the_host net' name) = ho_next_hop (the_host net name)"
    using arg_cong [OF b, of ho_my_address] arg_cong [OF b, of ho_next_hop] by (simp_all add: blank_def unplugged_def)
qed

lemma fittings_expectations:
  assumes "fittings net' = fittings net" and "wired net" and "name \<in> set host_names"
  shows "ho_expecting_to_receive (the_host net' name) = ho_expecting_to_receive (the_host net name)"
proof -
  have "map (\<lambda>(name, h). (name, unplugged h)) (ne_hosts net') = map (\<lambda>(name, h). (name, unplugged h)) (ne_hosts net)"
    using assms(1) by (simp add: fittings_def)
  then have "map_of (map (\<lambda>(name, h). (name, unplugged h)) (ne_hosts net')) name = map_of (map (\<lambda>(name, h). (name, unplugged h)) (ne_hosts net)) name"
    by simp
  then have u: "unplugged (the_host net' name) = unplugged (the_host net name)"
    using wired_host(1) [OF _ assms(3), of net'] wired_host(1) [OF assms(2,3)] fittings_wired [OF assms(1)] assms(2) by (simp add: map_of_map)
  show ?thesis using arg_cong [OF u, of ho_expecting_to_receive] by (simp add: unplugged_def)
qed

definition at_rest :: "(nat \<times> string list \<Rightarrow> (u32 \<times> EthernetAddress) list) \<Rightarrow> Network \<Rightarrow> bool" where
  "at_rest who net \<longleftrightarrow> resting who net \<and> (\<forall>name \<in> set host_names. ho_expecting_to_receive (the_host net name) = [])"

text \<open>A host sends.\<close>

lemma wire_host: "w \<in> set wires \<Longrightarrow> i < length (snd w) \<Longrightarrow> snd w ! i \<in> set host_names"
  by (elim wires_cases) (auto simp: host_names_def less_Suc_eq)

lemma line_plug:
  assumes "w \<in> set wires" and "i < length (snd w)" and "v \<in> set wires"
  shows "line (plug (snd w ! i) n net) v = (if v = w then (line net w)[Suc i := n] else line net v)"
proof (rule nth_equalityI)
  fix j assume j: "j < length (line (plug (snd w ! i) n net) v)"
  show "line (plug (snd w ! i) n net) v ! j = (if v = w then (line net w)[Suc i := n] else line net v) ! j"
  proof (cases j)
    case (Suc k)
    then have "k < length (snd v)" using j by (simp add: line_def)
    then show ?thesis using same_host [OF assms(3,1) _ assms(2), of k] Suc by (auto simp: line_def plug_simps nth_list_update)
  qed (simp add: line_def plug_simps)
qed (simp add: line_def)

lemma host_sends_ok:
  assumes "at_rest who net0" and "w \<in> set wires" and "i < length (snd w)"
    and "Address_ipv4_numeric (ho_next_hop (the_host net0 (snd w ! i))) = fst (who w ! 0)"
  shows "\<exists>d net g'. host_sends rd (snd w ! i) (Inr dst) ttl (net0, g) = (Inr d, net, g') \<and> sends w (Suc i) d net0 net \<and>
    fittings net = fittings net0 \<and> ih_ttl (id_header d) = ttl \<and> ih_dst (id_header d) = dst \<and>
    (\<forall>name \<in> set host_names. ho_expecting_to_receive (the_host net name) = [])"
proof -
  let ?A = "snd w ! i" let ?h = "the_host net0 ?A"
  obtain d g' where d: "Host_datagram rd (Address_from_ipv4_numeric dst) ttl ?h g = (d, g')" by fastforce
  note ok = Host_datagram_ok [OF d]
  have r: "ready net0" "wired net0" and st: "map station (line net0 w) = who w" and A: "?A \<in> set host_names"
    using assms(1-3) by (simp_all add: at_rest_def resting_def ready_def all_settled_def line_settled_def wire_host)
  have ip: "Address_ipv4_numeric (ho_next_hop ?h) = ni_ip_address (line net0 w ! 0)"
    using station_nth(1) [OF st, of 0] assms(4) by (simp add: line_def)
  let ?n = "snd (NetworkInterface_send_datagram d (ni_ip_address (line net0 w ! 0)) (line net0 w ! Suc i))"
  have l: "line net0 w ! Suc i = ho_interface ?h" using assms(3) by (simp add: line_def)
  have e: "NetworkInterface_send_datagram d (ni_ip_address (line net0 w ! 0)) (ho_interface ?h) = (None, ?n)"
    using send_datagram_ok [OF ok(1)] by (simp add: prod_eq_iff l)
  have "host_sends rd ?A (Inr dst) ttl (net0, g) = (Inr d, plug ?A ?n net0, g')"
    by (simp add: host_sends_def wired_host(2) [OF r(2) A] Host_send_to_def d ip e Let_def) (simp add: plug_def)
  moreover have f: "fittings (plug ?A ?n net0) = fittings net0" by (rule plug_fittings [OF r(2) A])
  moreover have lines: "\<forall>v \<in> set wires. line (plug ?A ?n net0) v = (if v = w then (line net0 w)[Suc i := ?n] else line net0 v)"
    using line_plug [OF assms(2,3)] by simp
  moreover have "ready (plug ?A ?n net0)" by (rule ready_cong [OF r(1) f]) (simp add: lines hd_update_later)
  moreover have "\<forall>name \<in> set host_names. ho_expecting_to_receive (the_host (plug ?A ?n net0) name) = []"
    using assms(1) A by (simp add: at_rest_def plug_simps)
  ultimately show ?thesis
    using ok assms(2,3) by (intro exI [of _ d] exI [of _ "plug ?A ?n net0"] exI [of _ g'])
      (simp add: sends_def line_def Address_ipv4_numeric_def Address_from_ipv4_numeric_def)
qed

text \<open>A host is told what to expect.\<close>

lemma map_update_entry:
  "map (\<lambda>(k, v). (k, f v)) (AList.update k v al) = AList.update k (f v) (map (\<lambda>(k, v). (k, f v)) al)"
  by (induction al) auto

lemma expects_facts:
  assumes "wired net" and "name \<in> set host_names" and "net' = set_host name (Host_expect d (the_host net name)) net"
  shows "host_expects name d net = (None, net')" and "bare net' = bare net" and "line net' w = line net w" and "ready net \<Longrightarrow> ready net'"
    and "the_host net' name' = (if name' = name then Host_expect d (the_host net name) else the_host net name')"
proof -
  let ?h = "the_host net name"
  note h = wired_host [OF assms(1,2)]
  show "host_expects name d net = (None, net')" by (simp add: host_expects_def h(2) assms(3))
  show t: "the_host net' name' = (if name' = name then Host_expect d ?h else the_host net name')" for name'
    by (simp add: assms(3) the_host_def set_host_def update_conv')
  show "line net' w = line net w" by (simp add: line_def t Host_expect_def) (simp add: assms(3) iface_def set_host_def)
  show "bare net' = bare net"
    using map_update_same [OF h(1), of "\<lambda>(name, h). (name, blank h)" "Host_expect d ?h"]
    by (simp add: bare_def assms(3) set_host_def blank_def unplugged_def Host_expect_def)
  have "wired net'"
    using assms(1) map_update_same [OF h(1), of "\<lambda>(name, h). (name, ho_name h)" "Host_expect d ?h"]
    by (simp add: wired_def assms(3) set_host_def Host_expect_def)
  then show "ready net \<Longrightarrow> ready net'" by (simp add: ready_def router_idle_def) (simp add: assms(3) set_host_def)
qed

text \<open>The rounds, and the checks after them.\<close>

lemma simulate_passes:
  assumes "rounds s 256 net net1" and "ready net1" and "all_settled who net1"
    and "\<forall>w \<in> set wires. hd (queues net1 w) = []"
    and "\<forall>name \<in> set host_names. Host_check (the_host net1 name) = (None, passed (the_host net1 name))"
  shows "\<exists>net'. Network_simulate s net = (None, net') \<and> at_rest who net' \<and> bare net' = bare net1"
proof -
  have wd: "wired net1" using assms(2) by (simp add: ready_def)
  let ?net' = "net1\<lparr>ne_hosts := map (\<lambda>(name, h). (name, passed h)) (ne_hosts net1)\<rparr>"
  have "Host_check h = (None, passed h)" if "(name, h) \<in> set (ne_hosts net1)" for name h
    using wired_hosts [OF wd that] assms(5) by blast
  then have "check_hosts (ne_hosts net1) = (None, map (\<lambda>(name, h). (name, passed h)) (ne_hosts net1))"
    by (intro check_hosts_pass) auto
  then have "Network_simulate s net = (None, ?net')"
    using assms(1) by (simp add: Network_simulate_def rounds_def)
  moreover have "bare ?net' = bare net1" by (auto simp: bare_def blank_def unplugged_def passed_def)
  moreover have "at_rest who ?net'"
  proof -
    have h: "the_host ?net' name = passed (the_host net1 name)" if "name \<in> set host_names" for name
    proof -
      have "map_of (ne_hosts net1) name \<noteq> None" using wired_host(1) [OF wd that] by simp
      then show ?thesis by (auto simp: the_host_def map_of_map)
    qed
    have l: "line ?net' w = hd (line net1 w) # map cleared_queue (tl (line net1 w))" if "w \<in> set wires" for w
    proof -
      have "\<forall>name \<in> set (snd w). name \<in> set host_names" using wire_host [OF that] by (auto simp: in_set_conv_nth)
      then show ?thesis using h by (simp add: line_def passed_def) (simp add: iface_def)
    qed
    have "wired ?net'" using wd by (simp add: wired_def passed_def comp_def case_prod_beta')
    then have "ready ?net'" using assms(2) by (simp add: ready_def router_idle_def)
    moreover have "line_settled who' (hd (line net1 w) # map cleared_queue (tl (line net1 w))) = line_settled who' (line net1 w)" for who' w
      by (auto simp: line_def line_settled_def cleared_queue_def station_def)
    then have "all_settled who ?net'" using assms(3) l by (simp add: all_settled_def)
    moreover have "\<forall>w \<in> set wires. queues ?net' w = replicate (length (line ?net' w)) []"
    proof
      fix w assume w: "w \<in> set wires"
      have "ai_datagrams_out (hd (line net1 w)) = []" using assms(4) w by (simp add: queue_hd)
      then show "queues ?net' w = replicate (length (line ?net' w)) []"
        by (simp add: queues_def l [OF w] comp_def cleared_queue_def map_replicate_const)
    qed
    ultimately show ?thesis using h by (simp add: at_rest_def resting_def passed_def)
  qed
  ultimately show ?thesis by blast
qed

lemma scenario_dropped:
  assumes "at_rest who net0" and "w \<in> set wires" and "i < length (snd w)"
    and "Address_ipv4_numeric (ho_next_hop (the_host net0 (snd w ! i))) = fst (who w ! 0)"
    and "destination net0 = Inr dst" and "unat ttl \<le> 1"
  shows "\<exists>net' g'. scenario s rd (snd w ! i) destination ttl None (net0, g) = (None, net', g') \<and> at_rest who net' \<and> bare net' = bare net0"
proof -
  from host_sends_ok [OF assms(1-4), of rd dst ttl g] obtain d net g' where
    n: "host_sends rd (snd w ! i) (Inr dst) ttl (net0, g) = (Inr d, net, g')" "sends w (Suc i) d net0 net" "fittings net = fittings net0"
      "ih_ttl (id_header d) = ttl" "\<forall>name \<in> set host_names. ho_expecting_to_receive (the_host net name) = []" by blast
  have r: "resting who net0" using assms(1) by (simp add: at_rest_def)
  from dropped [OF r n(2), of 256 s] obtain net1 where n1: "rounds s 256 net net1" "fittings net1 = fittings net" "resting who net1"
    using n(4) assms(6) by auto
  have "wired net" using n(2) by (simp add: sends_def ready_def)
  then have e: "\<forall>name \<in> set host_names. ho_expecting_to_receive (the_host net1 name) = []"
    using fittings_expectations [OF n1(2)] n(5) by simp
  have "Host_check (the_host net1 name) = (None, passed (the_host net1 name))" if h: "name \<in> set host_names" for name
  proof -
    obtain v k where v: "v \<in> set wires" "k < length (snd v)" "name = snd v ! k" using host_place [OF h] by blast
    then have "ai_datagrams_out (ho_interface (the_host net1 name)) = []"
      using host_queue [of k v net1] n1(3) by (simp add: resting_def) (simp add: line_def)
    then show ?thesis using e h by (intro Host_check_nothing) simp_all
  qed
  moreover have "\<forall>w \<in> set wires. hd (queues net1 w) = []" using n1(3) by (simp add: resting_def) (simp add: line_def)
  ultimately obtain net' where "Network_simulate s net = (None, net')" "at_rest who net'" "bare net' = bare net1"
    using simulate_passes [OF n1(1)] n1(3) unfolding resting_def by blast
  then show ?thesis
    using fittings_bare [OF n1(2)] fittings_bare [OF n(3)]
    by (intro exI [of _ net'] exI [of _ g']) (simp add: scenario_def assms(5) n(1) on_fst_def)
qed

lemma hosts_pass:
  assumes "w' \<in> set wires" and "j < length (snd w')"
    and "\<forall>v \<in> set wires. queues net v = (if v = w' then (replicate (length (line net0 w')) [])[Suc j := [x]] else replicate (length (line net0 v)) [])"
    and "datagram_ok x" and "datagram_ok y" and "wire_bytes x = wire_bytes y"
    and "\<forall>name \<in> set host_names. ho_expecting_to_receive (the_host net name) = (if name = snd w' ! j then [y] else [])"
    and "name \<in> set host_names"
  shows "Host_check (the_host net name) = (None, passed (the_host net name))"
proof -
  obtain v k where v: "v \<in> set wires" "k < length (snd v)" "name = snd v ! k" using host_place [OF assms(8)] by blast
  have q: "ai_datagrams_out (ho_interface (the_host net name)) = (if name = snd w' ! j then [x] else [])"
    using host_queue [OF v(2), of net] assms(3) v same_host [OF v(1) assms(1) v(2) assms(2)]
    by (auto simp: nth_list_update line_def split: if_splits)
  show ?thesis
  proof (cases "name = snd w' ! j")
    case True
    then show ?thesis using q assms(4-8) by (intro Host_check_one [where x = x and y = y]) simp_all
  next
    case False
    then show ?thesis using q assms(7,8) by (intro Host_check_nothing) simp_all
  qed
qed

lemma scenario_delivers:
  assumes "at_rest who net0" and "w \<in> set wires" and "i < length (snd w)"
    and "Address_ipv4_numeric (ho_next_hop (the_host net0 (snd w ! i))) = fst (who w ! 0)"
    and "destination net0 = Inr dst" and "1 < unat ttl" and "w' \<in> set wires" and "j < length (snd w')"
    and "best_route (\<lambda>x. 0) dst (ro_route_table (ne_router net0)) 0 None = Some rt"
    and "unat (rm_interface_num rt) = fst w'" and "fst (who w' ! Suc j) = (if rm_next_hop rt = 0 then dst else rm_next_hop rt)"
  shows "\<exists>net' g'. scenario s rd (snd w ! i) destination ttl (Some (snd w' ! j)) (net0, g) = (None, net', g') \<and>
    at_rest who net' \<and> bare net' = bare net0"
proof -
  from host_sends_ok [OF assms(1-4), of rd dst ttl g] obtain d net g' where
    n: "host_sends rd (snd w ! i) (Inr dst) ttl (net0, g) = (Inr d, net, g')" "sends w (Suc i) d net0 net" "fittings net = fittings net0"
      "ih_ttl (id_header d) = ttl" "ih_dst (id_header d) = dst"
      "\<forall>name \<in> set host_names. ho_expecting_to_receive (the_host net name) = []" by blast
  let ?B = "snd w' ! j" and ?d = "decrement_ttl d"
  define e where "e = set_host ?B (Host_expect ?d (the_host net ?B)) net"
  have r: "resting who net0" and rd: "ready net" "wired net" and ok: "datagram_ok d" "datagram_ok ?d" "datagram_ok (received (decrement_ttl (received d)))"
    using assms(1) n(2) received_parse(3) by (simp_all add: at_rest_def sends_def ready_def)
  note E = expects_facts [OF rd(2) wire_host [OF assms(7,8)] e_def]
  have se: "sends w (Suc i) d net0 e" using n(2) E(3,4) rd(1) by (simp add: sends_def)
  have T: "ro_route_table (ne_router e) = ro_route_table (ne_router net0)"
    using bare_table [OF E(2)] fittings_routes(1) [OF n(3)] by simp
  from delivered [OF r se, of 256 w' "Suc j" rt s] obtain net1 where n1: "rounds s 256 e net1" "fittings net1 = fittings e" "ready net1"
      "all_settled who net1" "\<forall>v \<in> set wires. queues net1 v = (if v = w'
       then (replicate (length (line net0 w')) [])[Suc j := [received (decrement_ttl (received d))]] else replicate (length (line net0 v)) [])"
    using n(4,5) assms(6-11) T by (auto simp: line_def)
  have we: "wired e" using E(4) rd(1) by (simp add: ready_def)
  have "\<forall>name \<in> set host_names. ho_expecting_to_receive (the_host net1 name) = (if name = ?B then [?d] else [])"
    using fittings_expectations [OF n1(2) we] n(6) wire_host [OF assms(7,8)] by (simp add: E(5)) (simp add: Host_expect_def)
  from hosts_pass [OF assms(7,8) n1(5) ok(3,2) received_decrement [OF ok(1)] this]
  have "\<forall>name \<in> set host_names. Host_check (the_host net1 name) = (None, passed (the_host net1 name))" by blast
  moreover have "\<forall>v \<in> set wires. hd (queues net1 v) = []" using n1(5) by (simp add: hd_update_later) (simp add: line_def)
  ultimately obtain net' where "Network_simulate s e = (None, net')" "at_rest who net'" "bare net' = bare net1"
    using simulate_passes [OF n1(1,3,4)] by blast
  then show ?thesis
    using fittings_bare [OF n1(2)] fittings_bare [OF n(3)] E(2)
    by (intro exI [of _ net'] exI [of _ g']) (simp add: scenario_def assms(5) n(1) E(1) [unfolded decrement_ttl_def] on_fst_def)
qed

end
