(* ===== verification/Simulated_Run.thy ===== *)
theory Simulated_Run
  imports Simulated_Scenarios
begin

text \<open>
  The run of \<open>apps/network_simulator.cc\<close>: the network that the constructor of \<open>Network\<close> makes from the
  random addresses, its routes, and the theorem that the program reports success.
\<close>

section \<open>The initial network\<close>

definition fresh :: "EthernetAddress \<Rightarrow> u32 \<Rightarrow> AsyncNetworkInterface" where
  "fresh mac ip = AsyncNetworkInterface_of (NetworkInterface_new mac ip)"

definition new_host :: "string \<Rightarrow> EthernetAddress \<Rightarrow> u32 \<Rightarrow> u32 \<Rightarrow> string \<times> Host" where
  "new_host name mac my_ip next_hop_ip =
     (name, \<lparr>ho_name = name, ho_my_address = Address_from_ipv4_numeric my_ip, ho_interface = fresh mac my_ip,
             ho_next_hop = Address_from_ipv4_numeric next_hop_ip, ho_expecting_to_receive = []\<rparr>)"

definition route :: "u32 \<Rightarrow> u8 \<Rightarrow> u32 \<Rightarrow> size_t \<Rightarrow> RouteMsg" where
  "route prefix len next_hop i =
     \<lparr>rm_route_prefix = prefix, rm_prefix_length = len, rm_next_hop = next_hop, rm_interface_num = i\<rparr>"

definition route_table :: "RouteMsg list" where
  "route_table =
     [route (quad 0 0 0 0) 0 (quad 171 67 76 1) 0, route (quad 10 0 0 0) 8 0 1, route (quad 172 16 0 0) 16 0 2,
      route (quad 192 168 0 0) 24 0 3, route (quad 198 178 229 0) 24 0 4, route (quad 143 195 0 0) 17 (quad 143 195 0 1) 5,
      route (quad 143 195 128 0) 18 (quad 143 195 0 1) 5, route (quad 143 195 192 0) 19 (quad 143 195 0 1) 5,
      route (quad 128 30 76 255) 16 (quad 128 30 0 1) 6]"

fun initial_network :: "EthernetAddress list \<Rightarrow> Network" where
  "initial_network [m0, m1, m2, m3, m4, m5, m6, a, b, c, d, e, f] =
     \<lparr>ne_router = \<lparr>ro_interfaces = [fresh m0 (quad 171 67 76 46), fresh m1 (quad 10 0 0 1), fresh m2 (quad 172 16 0 1),
         fresh m3 (quad 192 168 0 1), fresh m4 (quad 198 178 229 1), fresh m5 (quad 143 195 0 2), fresh m6 (quad 128 30 76 255)],
       ro_route_table = route_table\<rparr>,
      ne_default_id = 0, ne_eth0_id = 1, ne_eth1_id = 2, ne_eth2_id = 3, ne_uun3_id = 4, ne_hs4_id = 5, ne_mit5_id = 6,
      ne_hosts = [new_host ''applesauce'' a (quad 10 0 0 2) (quad 10 0 0 1), new_host ''default_router'' b (quad 171 67 76 1) 0,
        new_host ''cherrypie'' c (quad 192 168 0 2) (quad 192 168 0 1), new_host ''hs_router'' d (quad 143 195 0 1) 0,
        new_host ''dm42'' e (quad 198 178 229 42) (quad 198 178 229 1), new_host ''dm43'' f (quad 198 178 229 43) (quad 198 178 229 1)]\<rparr>"
| "initial_network _ = undefined"

lemma length_random_bytes: "length (fst (random_bytes rd n g)) = n"
  by (induction n arbitrary: g) (auto split: prod.splits simp: prod_eq_iff)

lemma length_random_address:
  "random_host_ethernet_address rd g = (m, g') \<Longrightarrow> length m = 6"
  "random_router_ethernet_address rd g = (m, g') \<Longrightarrow> length m = 6"
  using length_random_bytes [of rd 6 g]
  by (auto simp: random_host_ethernet_address_def random_router_ethernet_address_def Let_def split: prod.splits)

lemma add_interface_fresh:
  assumes "random_router_ethernet_address rd g = (m, g')"
  shows "add_router_interface rd ip (\<lparr>ro_interfaces = ns, ro_route_table = t\<rparr>, g) =
    (of_nat (length ns), \<lparr>ro_interfaces = ns @ [fresh m ip], ro_route_table = t\<rparr>, g')"
  by (simp add: add_router_interface_def assms Router_add_interface_def fresh_def Let_def)

lemma insert_host_new:
  assumes "random_host_ethernet_address rd g = (m, g')" and "map_of hosts name = None"
  shows "insert_host rd name my_ip next_hop_ip (hosts, g) = (hosts @ [new_host name m my_ip next_hop_ip], g')"
  by (simp add: insert_host_def Host_new_def assms new_host_def fresh_def Address_ipv4_numeric_def Address_from_ipv4_numeric_def)

text \<open>The random addresses in the order in which the program draws them.\<close>

fun draw :: "('g \<Rightarrow> 'a \<times> 'g) list \<Rightarrow> 'g \<Rightarrow> 'a list" where
  "draw [] g = []"
| "draw (f # fs) g = (let (x, g') = f g in x # draw fs g')"

definition addresses :: "'g rng \<Rightarrow> 'g \<Rightarrow> EthernetAddress list" where
  "addresses rd g =
     (let r = random_router_ethernet_address rd; h = random_host_ethernet_address rd
      in draw [r, r, r, r, r, r, r, h, h, h, h, h, h] g)"

lemma Network_new_initial:
  "\<exists>ms g'. Network_new rd g = ((None, initial_network ms), g') \<and> ms = addresses rd g \<and> length ms = 13 \<and> (\<forall>m \<in> set ms. length m = 6)"
proof -
  obtain m0 g0 where m0: "random_router_ethernet_address rd g = (m0, g0)" by fastforce
  obtain m1 g1 where m1: "random_router_ethernet_address rd g0 = (m1, g1)" by fastforce
  obtain m2 g2 where m2: "random_router_ethernet_address rd g1 = (m2, g2)" by fastforce
  obtain m3 g3 where m3: "random_router_ethernet_address rd g2 = (m3, g3)" by fastforce
  obtain m4 g4 where m4: "random_router_ethernet_address rd g3 = (m4, g4)" by fastforce
  obtain m5 g5 where m5: "random_router_ethernet_address rd g4 = (m5, g5)" by fastforce
  obtain m6 g6 where m6: "random_router_ethernet_address rd g5 = (m6, g6)" by fastforce
  obtain a ga where a: "random_host_ethernet_address rd g6 = (a, ga)" by fastforce
  obtain b gb where b: "random_host_ethernet_address rd ga = (b, gb)" by fastforce
  obtain c gc where c: "random_host_ethernet_address rd gb = (c, gc)" by fastforce
  obtain d gd where d: "random_host_ethernet_address rd gc = (d, gd)" by fastforce
  obtain e ge where e: "random_host_ethernet_address rd gd = (e, ge)" by fastforce
  obtain f gf where f: "random_host_ethernet_address rd ge = (f, gf)" by fastforce
  note ms = m0 m1 m2 m3 m4 m5 m6 and hs = a b c d e f
  let ?ms = "[m0, m1, m2, m3, m4, m5, m6, a, b, c, d, e, f]"
  have "Network_new rd g = ((None, initial_network ?ms), gf)"
    unfolding Network_new_def Router_new_def
    by (simp add: ms [THEN add_interface_fresh] hs [THEN insert_host_new] new_host_def [abs_def] host_ip_def Network_host_def
        add_route_def Router_add_route_def route_table_def route_def Address_ipv4_numeric_def Address_from_ipv4_numeric_def Let_def)
  moreover have "\<forall>m \<in> set ?ms. length m = 6" using ms [THEN length_random_address(2)] hs [THEN length_random_address(1)] by simp
  moreover have "addresses rd g = ?ms" by (simp add: addresses_def ms hs)
  ultimately show ?thesis by (intro exI [of _ ?ms] exI [of _ gf]) simp
qed

lemma fresh_simps [simp]:
  "ni_ethernet_address (fresh m ip) = m" "ni_ip_address (fresh m ip) = ip" "ai_datagrams_out (fresh m ip) = []"
  by (simp_all add: fresh_def AsyncNetworkInterface_of_def NetworkInterface.defs NetworkInterface_new_def)

lemma settled_fresh: "length m = 6 \<Longrightarrow> settled who (fresh m ip)"
  by (simp add: settled_def knows_def fresh_def AsyncNetworkInterface_of_def NetworkInterface.defs NetworkInterface_new_def)

lemma thirteen:
  assumes "length ms = 13"
  obtains m0 m1 m2 m3 m4 m5 m6 a b c d e f where "ms = [m0, m1, m2, m3, m4, m5, m6, a, b, c, d, e, f]"
  using assms by (auto simp: numeral_eq_Suc length_Suc_conv)

definition stations :: "EthernetAddress list \<Rightarrow> nat \<times> string list \<Rightarrow> (u32 \<times> EthernetAddress) list" where
  "stations ms w = map station (line (initial_network ms) w)"

lemma stations_simps:
  "stations [m0, m1, m2, m3, m4, m5, m6, a, b, c, d, e, f] (0, [''default_router'']) = [(quad 171 67 76 46, m0), (quad 171 67 76 1, b)]"
  "stations [m0, m1, m2, m3, m4, m5, m6, a, b, c, d, e, f] (1, [''applesauce'']) = [(quad 10 0 0 1, m1), (quad 10 0 0 2, a)]"
  "stations [m0, m1, m2, m3, m4, m5, m6, a, b, c, d, e, f] (3, [''cherrypie'']) = [(quad 192 168 0 1, m3), (quad 192 168 0 2, c)]"
  "stations [m0, m1, m2, m3, m4, m5, m6, a, b, c, d, e, f] (5, [''hs_router'']) = [(quad 143 195 0 2, m5), (quad 143 195 0 1, d)]"
  "stations [m0, m1, m2, m3, m4, m5, m6, a, b, c, d, e, f] (4, [''dm42'', ''dm43'']) =
     [(quad 198 178 229 1, m4), (quad 198 178 229 42, e), (quad 198 178 229 43, f)]"
  by (simp_all add: stations_def line_def iface_def the_host_def new_host_def station_def)

lemmas stations_table = stations_simps stations_simps(2) [unfolded One_nat_def]

lemma quads_distinct:
  "quad 171 67 76 46 \<noteq> quad 171 67 76 1" "quad 10 0 0 1 \<noteq> quad 10 0 0 2" "quad 192 168 0 1 \<noteq> quad 192 168 0 2"
  "quad 143 195 0 2 \<noteq> quad 143 195 0 1" "quad 198 178 229 1 \<noteq> quad 198 178 229 42" "quad 198 178 229 1 \<noteq> quad 198 178 229 43"
  "quad 198 178 229 42 \<noteq> quad 198 178 229 43"
  by code_simp+

lemma stations_distinct:
  assumes "length ms = 13" and "w \<in> set wires" and "distinct (map ni_ethernet_address (line (initial_network ms) w))"
  shows "stations_ok (stations ms w)"
proof -
  have m: "map ni_ethernet_address (line (initial_network ms) w) = map snd (stations ms w)" by (simp add: stations_def station_def)
  obtain m0 m1 m2 m3 m4 m5 m6 a b c d e f where ms: "ms = [m0, m1, m2, m3, m4, m5, m6, a, b, c, d, e, f]" using thirteen [OF assms(1)] .
  have "distinct (map fst (stations ms w))"
    using assms(2) unfolding ms by (elim wires_cases) (simp_all add: stations_table quads_distinct)
  then show ?thesis using assms(3) unfolding m by (simp add: stations_ok_def)
qed

lemma initial_wired:
  assumes "length ms = 13"
  shows "wired (initial_network ms)" and "ready (initial_network ms)" and "ro_route_table (ne_router (initial_network ms)) = route_table"
    and "\<forall>name \<in> set host_names. ho_expecting_to_receive (the_host (initial_network ms) name) = []"
    and "w \<in> set wires \<Longrightarrow> n \<in> set (line (initial_network ms) w) \<Longrightarrow> \<exists>m \<in> set ms. \<exists>ip. n = fresh m ip"
proof -
  obtain m0 m1 m2 m3 m4 m5 m6 a b c d e f where ms: "ms = [m0, m1, m2, m3, m4, m5, m6, a, b, c, d, e, f]" using thirteen [OF assms(1)] .
  show wd: "wired (initial_network ms)" by (simp add: ms wired_def new_host_def host_names_def)
  show "ro_route_table (ne_router (initial_network ms)) = route_table" by (simp add: ms)
  show "ready (initial_network ms)" using wd by (simp add: ready_def) (simp add: ms routes_ok_def router_idle_def route_table_def route_def)
  show "\<forall>name \<in> set host_names. ho_expecting_to_receive (the_host (initial_network ms) name) = []"
    by (simp add: ms host_names_def the_host_def new_host_def)
  show "\<exists>m \<in> set ms. \<exists>ip. n = fresh m ip" if "w \<in> set wires" "n \<in> set (line (initial_network ms) w)"
    using that unfolding ms by (elim wires_cases) (auto simp: line_def iface_def the_host_def new_host_def)
qed

lemma initial_at_rest:
  assumes "length ms = 13" and "\<forall>m \<in> set ms. length m = 6"
    and "\<forall>w \<in> set wires. distinct (map ni_ethernet_address (line (initial_network ms) w))"
  shows "at_rest (stations ms) (initial_network ms)"
proof -
  note i = initial_wired [OF assms(1)]
  have "line_settled (stations ms w) (line (initial_network ms) w)" if "w \<in> set wires" for w
    using i(5) [OF that] assms(2) settled_fresh by (fastforce simp: line_settled_def stations_def)
  moreover have "queues (initial_network ms) w = replicate (length (line (initial_network ms) w)) []" if "w \<in> set wires" for w
    unfolding queues_def using i(5) [OF that] by (intro nth_equalityI) (fastforce dest: nth_mem)+
  ultimately show ?thesis
    using i stations_distinct [OF assms(1)] assms(3) by (simp add: at_rest_def resting_def all_settled_def)
qed

section \<open>The routes of the scenarios\<close>

definition routed :: "u32 \<Rightarrow> (size_t \<times> u32) option" where
  "routed ip = map_option (\<lambda>rt. (rm_interface_num rt, rm_next_hop rt)) (best_route (\<lambda>x. 0) ip route_table 0 None)"

lemma match_prefix:
  "len \<le> match_len s ip prefix \<longleftrightarrow> unat len \<le> 32 \<and> drop_bit (32 - unat len) ip = drop_bit (32 - unat len) prefix"
  using match_len_iff [of "route prefix len 0 0" s ip] by (simp add: route_matches_def route_def)

lemma routed_table:
  "routed (quad 192 168 0 2) = Some (3, 0)" "routed (quad 10 0 0 2) = Some (1, 0)"
  "routed (quad 1 2 3 4) = Some (0, quad 171 67 76 1)" "routed (quad 143 195 131 17) = Some (5, quad 143 195 0 1)"
  "routed (quad 143 195 193 52) = Some (5, quad 143 195 0 1)" "routed (quad 143 195 223 255) = Some (5, quad 143 195 0 1)"
  "routed (quad 143 195 224 0) = Some (0, quad 171 67 76 1)" "routed (quad 198 178 229 43) = Some (4, 0)"
  by (simp_all add: routed_def route_table_def route_def match_prefix quad_def)

section \<open>The run\<close>

definition operating :: "EthernetAddress list \<Rightarrow> Network \<Rightarrow> bool" where
  "operating ms net \<longleftrightarrow> length ms = 13 \<and> at_rest (stations ms) net \<and> bare net = bare (initial_network ms)"

lemma operating_host:
  assumes "operating ms net" and "name \<in> set host_names"
  shows "ho_next_hop (the_host net name) = ho_next_hop (the_host (initial_network ms) name)"
    and "host_ip name net = host_ip name (initial_network ms)"
proof -
  have "wired net" "wired (initial_network ms)" "bare net = bare (initial_network ms)"
    using assms(1) initial_wired(1) by (auto simp: operating_def at_rest_def resting_def ready_def)
  then show "ho_next_hop (the_host net name) = ho_next_hop (the_host (initial_network ms) name)"
    "host_ip name net = host_ip name (initial_network ms)"
    using bare_host [of net "initial_network ms" name] assms(2) by (simp_all add: host_ip_def wired_host(2))
qed

definition keeps :: "(Network \<Rightarrow> bool) \<Rightarrow> (Network \<times> 'g \<Rightarrow> exn option \<times> Network \<times> 'g) \<Rightarrow> bool" where
  "keeps P f \<longleftrightarrow> (\<forall>net g. P net \<longrightarrow> (\<exists>net' g'. f (net, g) = (None, net', g') \<and> P net'))"

lemma run_all_keeps:
  "\<forall>f \<in> set fs. keeps P f \<Longrightarrow> P net \<Longrightarrow> \<exists>net' g'. run_all fs (net, g) = (None, net', g') \<and> P net'"
proof (induction fs arbitrary: net g)
  case (Cons f fs)
  have "keeps P f" using Cons.prems(1) by simp
  then obtain net1 g1 where "f (net, g) = (None, net1, g1)" "P net1" using Cons.prems(2) unfolding keeps_def by blast
  with Cons.IH [of net1 g1] Cons.prems(1) show ?case by simp
qed simp

lemma run_all_none: "\<forall>f \<in> set fs. keeps P f \<Longrightarrow> P net \<Longrightarrow> fst (run_all fs (net, g)) = None"
  using run_all_keeps [of fs P net g] by auto

lemma keeps_delivers:
  assumes "w \<in> set wires" and "i < length (snd w)" and "w' \<in> set wires" and "j < length (snd w')" and "1 < unat ttl"
    and "Address_ipv4_numeric (ho_next_hop (the_host (initial_network ms) (snd w ! i))) = fst (stations ms w ! 0)"
    and "\<And>net. operating ms net \<Longrightarrow> destination net = Inr dst" and "routed dst = Some (k, next_hop)" and "unat k = fst w'"
    and "fst (stations ms w' ! Suc j) = (if next_hop = 0 then dst else next_hop)"
  shows "keeps (operating ms) (scenario s rd (snd w ! i) destination ttl (Some (snd w' ! j)))"
  unfolding keeps_def
proof (intro allI impI)
  fix net g assume o: "operating ms net"
  then have r: "at_rest (stations ms) net" "bare net = bare (initial_network ms)" "length ms = 13" by (simp_all add: operating_def)
  have T: "ro_route_table (ne_router net) = route_table" using bare_table [OF r(2)] initial_wired(3) [OF r(3)] by simp
  have h: "Address_ipv4_numeric (ho_next_hop (the_host net (snd w ! i))) = fst (stations ms w ! 0)"
    using operating_host(1) [OF o wire_host [OF assms(1,2)]] assms(6) by simp
  obtain rt where "best_route (\<lambda>x. 0) dst (ro_route_table (ne_router net)) 0 None = Some rt" "rm_interface_num rt = k" "rm_next_hop rt = next_hop"
    using assms(8) unfolding T routed_def by auto
  then show "\<exists>net' g'. scenario s rd (snd w ! i) destination ttl (Some (snd w' ! j)) (net, g) = (None, net', g') \<and> operating ms net'"
    using scenario_delivers [where destination = destination and s = s and rd = rd and g = g, OF r(1) assms(1,2) h assms(7) [OF o] assms(5,3,4)] assms(9,10) r(2,3) by (auto simp: operating_def)
qed

lemma keeps_dropped:
  assumes "w \<in> set wires" and "i < length (snd w)" and "unat ttl \<le> 1"
    and "Address_ipv4_numeric (ho_next_hop (the_host (initial_network ms) (snd w ! i))) = fst (stations ms w ! 0)"
    and "\<And>net. operating ms net \<Longrightarrow> destination net = Inr dst"
  shows "keeps (operating ms) (scenario s rd (snd w ! i) destination ttl None)"
  unfolding keeps_def
proof (intro allI impI)
  fix net g assume o: "operating ms net"
  then have r: "at_rest (stations ms) net" "bare net = bare (initial_network ms)" "length ms = 13" by (simp_all add: operating_def)
  have h: "Address_ipv4_numeric (ho_next_hop (the_host net (snd w ! i))) = fst (stations ms w ! 0)"
    using operating_host(1) [OF o wire_host [OF assms(1,2)]] assms(4) by simp
  show "\<exists>net' g'. scenario s rd (snd w ! i) destination ttl None (net, g) = (None, net', g') \<and> operating ms net'"
    using scenario_dropped [where destination = destination and s = s and rd = rd and g = g, OF r(1) assms(1,2) h assms(5) [OF o] assms(3)] r(2,3) by (auto simp: operating_def)
qed

lemma initial_hosts:
  fixes m0 m1 m2 m3 m4 m5 m6 a b c d e f
  defines "net \<equiv> initial_network [m0, m1, m2, m3, m4, m5, m6, a, b, c, d, e, f]"
  shows "Address_ipv4_numeric (ho_next_hop (the_host net ''applesauce'')) = quad 10 0 0 1"
    and "Address_ipv4_numeric (ho_next_hop (the_host net ''cherrypie'')) = quad 192 168 0 1"
    and "Address_ipv4_numeric (ho_next_hop (the_host net ''dm42'')) = quad 198 178 229 1"
    and "host_ip ''applesauce'' net = Inr (quad 10 0 0 2)" and "host_ip ''cherrypie'' net = Inr (quad 192 168 0 2)"
    and "host_ip ''dm43'' net = Inr (quad 198 178 229 43)"
  by (simp_all add: net_def the_host_def new_host_def host_ip_def Network_host_def Address_ipv4_numeric_def Address_from_ipv4_numeric_def)

declare initial_network.simps [simp del]

lemma scenarios_keep:
  assumes "length ms = 13"
  shows "keeps (operating ms) (scenario s rd ''applesauce'' (host_ip ''cherrypie'') 64 (Some ''cherrypie''))"
    and "keeps (operating ms) (scenario s rd ''cherrypie'' (host_ip ''applesauce'') 64 (Some ''applesauce''))"
    and "keeps (operating ms) (scenario s rd ''applesauce'' (\<lambda>_. Inr (quad 1 2 3 4)) 64 (Some ''default_router''))"
    and "keeps (operating ms) (scenario s rd ''applesauce'' (\<lambda>_. Inr (quad 143 195 131 17)) 64 (Some ''hs_router''))"
    and "keeps (operating ms) (scenario s rd ''cherrypie'' (\<lambda>_. Inr (quad 143 195 193 52)) 64 (Some ''hs_router''))"
    and "keeps (operating ms) (scenario s rd ''cherrypie'' (\<lambda>_. Inr (quad 143 195 223 255)) 64 (Some ''hs_router''))"
    and "keeps (operating ms) (scenario s rd ''cherrypie'' (\<lambda>_. Inr (quad 143 195 224 0)) 64 (Some ''default_router''))"
    and "keeps (operating ms) (scenario s rd ''dm42'' (host_ip ''dm43'') 64 (Some ''dm43''))"
    and "unat ttl \<le> 1 \<Longrightarrow> keeps (operating ms) (scenario s rd ''applesauce'' (\<lambda>_. Inr (quad 1 2 3 4)) ttl None)"
proof -
  obtain m0 m1 m2 m3 m4 m5 m6 a b c d e f where ms: "ms = [m0, m1, m2, m3, m4, m5, m6, a, b, c, d, e, f]" using thirteen [OF assms(1)] .
  let ?def = "(0, [''default_router'']) :: nat \<times> string list" and ?app = "(1, [''applesauce'']) :: nat \<times> string list"
    and ?che = "(3, [''cherrypie'']) :: nat \<times> string list" and ?hsr = "(5, [''hs_router'']) :: nat \<times> string list"
    and ?dm = "(4, [''dm42'', ''dm43'']) :: nat \<times> string list"
  have w: "?def \<in> set wires" "?app \<in> set wires" "?che \<in> set wires" "?hsr \<in> set wires" "?dm \<in> set wires" by (simp_all add: wires_def)
  have ip: "operating ms net \<Longrightarrow> host_ip ''cherrypie'' net = Inr (quad 192 168 0 2)"
    "operating ms net \<Longrightarrow> host_ip ''applesauce'' net = Inr (quad 10 0 0 2)"
    "operating ms net \<Longrightarrow> host_ip ''dm43'' net = Inr (quad 198 178 229 43)" for net
    using operating_host(2) [of ms net] by (simp_all add: host_names_def ms initial_hosts)
  have q: "quad 171 67 76 1 \<noteq> 0" "quad 143 195 0 1 \<noteq> 0" by code_simp+
  note f = ms initial_hosts stations_table q
  show "keeps (operating ms) (scenario s rd ''applesauce'' (host_ip ''cherrypie'') 64 (Some ''cherrypie''))"
    using keeps_delivers [where s = s and rd = rd and ttl = 64 and i = 0 and j = 0, OF w(2) _ w(3) _ _ _ ip(1) routed_table(1)] by (simp add: f)
  show "keeps (operating ms) (scenario s rd ''cherrypie'' (host_ip ''applesauce'') 64 (Some ''applesauce''))"
    using keeps_delivers [where s = s and rd = rd and ttl = 64 and i = 0 and j = 0, OF w(3) _ w(2) _ _ _ ip(2) routed_table(2)] by (simp add: f)
  show "keeps (operating ms) (scenario s rd ''applesauce'' (\<lambda>_. Inr (quad 1 2 3 4)) 64 (Some ''default_router''))"
    using keeps_delivers [where s = s and rd = rd and ttl = 64 and i = 0 and j = 0, OF w(2) _ w(1) _ _ _ refl routed_table(3)] by (simp add: f)
  show "keeps (operating ms) (scenario s rd ''applesauce'' (\<lambda>_. Inr (quad 143 195 131 17)) 64 (Some ''hs_router''))"
    using keeps_delivers [where s = s and rd = rd and ttl = 64 and i = 0 and j = 0, OF w(2) _ w(4) _ _ _ refl routed_table(4)] by (simp add: f)
  show "keeps (operating ms) (scenario s rd ''cherrypie'' (\<lambda>_. Inr (quad 143 195 193 52)) 64 (Some ''hs_router''))"
    using keeps_delivers [where s = s and rd = rd and ttl = 64 and i = 0 and j = 0, OF w(3) _ w(4) _ _ _ refl routed_table(5)] by (simp add: f)
  show "keeps (operating ms) (scenario s rd ''cherrypie'' (\<lambda>_. Inr (quad 143 195 223 255)) 64 (Some ''hs_router''))"
    using keeps_delivers [where s = s and rd = rd and ttl = 64 and i = 0 and j = 0, OF w(3) _ w(4) _ _ _ refl routed_table(6)] by (simp add: f)
  show "keeps (operating ms) (scenario s rd ''cherrypie'' (\<lambda>_. Inr (quad 143 195 224 0)) 64 (Some ''default_router''))"
    using keeps_delivers [where s = s and rd = rd and ttl = 64 and i = 0 and j = 0, OF w(3) _ w(1) _ _ _ refl routed_table(7)] by (simp add: f)
  show "keeps (operating ms) (scenario s rd ''dm42'' (host_ip ''dm43'') 64 (Some ''dm43''))"
    using keeps_delivers [where s = s and rd = rd and ttl = 64 and i = 0 and j = 1, OF w(5) _ w(5) _ _ _ ip(3) routed_table(8)] by (simp add: f)
  show "keeps (operating ms) (scenario s rd ''applesauce'' (\<lambda>_. Inr (quad 1 2 3 4)) ttl None)" if "unat ttl \<le> 1"
    using keeps_dropped [where s = s and rd = rd and i = 0, OF w(2) _ that _ refl] by (simp add: f)
qed

section \<open>Properties\<close>

text \<open>
  C2: the network simulator succeeds. Whatever the random generator yields, as long as the Ethernet addresses that it
  gives the stations of one link are different, every scenario passes its checks and the program exits
  with status 0: each datagram reaches the expected host, with its TTL one lower and its bytes
  otherwise the same, no host receives anything else, expired datagrams vanish, and nothing throws.
\<close>
theorem network_simulator_succeeds:
  assumes "\<forall>w \<in> set wires. distinct (map ni_ethernet_address (line (snd (fst (Network_new rd g))) w))"
  shows "network_simulator_main shr32 rd g = 0"
proof -
  obtain ms g' where n: "Network_new rd g = ((None, initial_network ms), g')" "length ms = 13" "\<forall>m \<in> set ms. length m = 6"
    using Network_new_initial [of rd g] by (elim exE conjE)
  have "operating ms (initial_network ms)"
    using initial_at_rest [OF n(2,3)] assms n(2) unfolding n(1) by (simp add: operating_def)
  then have "fst (network_simulator shr32 rd g) = None"
    unfolding network_simulator_def n(1) prod.case option.case
    by (intro run_all_none [where P = "operating ms"]) (simp_all add: scenarios_keep [OF n(2)])
  then show ?thesis by (simp add: network_simulator_main_def)
qed

definition counter :: "u32 \<Rightarrow> u32 \<times> u32" where
  "counter g = (g, g + 1)"

lemma counter_addresses:
  "addresses counter 0 =
     [[2, 0, 0, 3, 4, 5], [2, 0, 0, 9, 10, 11], [2, 0, 0, 15, 16, 17], [2, 0, 0, 21, 22, 23], [2, 0, 0, 27, 28, 29], [2, 0, 0, 33, 34, 35],
      [2, 0, 0, 39, 40, 41], [42, 43, 44, 45, 46, 47], [50, 49, 50, 51, 52, 53], [54, 55, 56, 57, 58, 59], [62, 61, 62, 63, 64, 65],
      [66, 67, 68, 69, 70, 71], [74, 73, 74, 75, 76, 77]]"
  by code_simp

lemma counter_distinct: "\<forall>w \<in> set wires. distinct (map ni_ethernet_address (line (snd (fst (Network_new counter 0))) w))"
proof -
  have "map ni_ethernet_address (line (initial_network ms) w) = map snd (stations ms w)" for ms w by (simp add: stations_def station_def)
  moreover have "\<exists>g'. Network_new counter 0 = ((None, initial_network (addresses counter 0)), g')" using Network_new_initial [of counter 0] by blast
  ultimately show ?thesis by (auto simp: counter_addresses wires_def stations_table)
qed

theorem network_simulator_succeeds_witness: "network_simulator_main (\<lambda>x. x) counter 0 = 0"
  using network_simulator_succeeds [OF counter_distinct] .

end
