(* ===== verification/Spec2Isabelle.thy ===== *)
theory Spec2Isabelle
  imports TCP_Connection Router Stream_Copy Socket_Thread TCP_Transfer Simulated_Run
begin

text \<open>
  A verification development of Sponge, a user-space TCP/IP stack in C++ (\<open>src/libsponge\<close> and
  \<open>src/apps\<close>).

  \<^bold>\<open>The program and its model\<close>

  Bytes that an application writes go into the \<open>ByteStream\<close> of a \<open>TCPSender\<close>, which cuts them into
  segments with 32-bit sequence numbers (\<open>WrappingInt32\<close>). A \<open>TCPConnection\<close> joins the sender with a
  \<open>TCPReceiver\<close>, whose \<open>StreamReassembler\<close> puts inbound segments in order into a second
  \<open>ByteStream\<close>. \<open>TCPSpongeSocket\<close> runs a connection in an event loop over file descriptors; a
  datagram adapter carries the segments in UDP, in IPv4 over a TUN device, or in IPv4 over Ethernet
  frames made by a \<open>NetworkInterface\<close>. A \<open>Router\<close> forwards datagrams between such interfaces. Each
  component has a theory.

  \<^item> \<open>Prelude\<close>: the machine types as words, exceptions as the datatype \<open>exn\<close> and results as
    \<open>'a res\<close>, arithmetic of words, and the locale \<open>invariant_system\<close> of runs.
  \<^item> \<open>Wrapping_Integers\<close> (\<open>wrapping_integers.cc\<close>): \<open>wrap\<close>, \<open>unwrap\<close> and the operators.
  \<^item> \<open>Byte_Stream\<close> (\<open>byte_stream.cc\<close>): the ring buffer as the record \<open>ByteStream\<close>.
  \<^item> \<open>Stream_Reassembler\<close> (\<open>stream_reassembler.cc\<close>): \<open>push_substring\<close> with its loops over the map of
    unassembled strings.
  \<^item> \<open>Buffers\<close> (\<open>util/buffer.cc\<close>), \<open>Net_Parser\<close> (\<open>util/parser.cc\<close>), \<open>Internet_Checksum\<close>
    (\<open>util/util.cc\<close>): strings without copies, big-endian integers, the checksum.
  \<^item> \<open>TCP_Segment\<close>, \<open>IPv4\<close>, \<open>Ethernet_ARP\<close> (\<open>tcp_helpers/tcp_header.cc\<close>, \<open>tcp_segment.cc\<close>,
    \<open>ipv4_header.cc\<close>, \<open>ipv4_datagram.cc\<close>, \<open>ethernet_header.cc\<close>, \<open>ethernet_frame.cc\<close>,
    \<open>arp_message.cc\<close>): headers and messages with \<open>parse\<close> and \<open>serialize\<close>. \<open>Rendering\<close> holds their
    \<open>to_string\<close> and \<open>summary\<close>.
  \<^item> \<open>TCP_Receiver\<close>, \<open>TCP_Sender\<close>, \<open>TCP_State\<close>, \<open>TCP_Connection\<close> (\<open>tcp_receiver.cc\<close>,
    \<open>tcp_sender.cc\<close>, \<open>tcp_helpers/tcp_state.cc\<close>, \<open>tcp_connection.cc\<close>, \<open>tcp_config.hh\<close>).
  \<^item> \<open>Network_Interface\<close>, \<open>Router\<close> (\<open>network_interface.cc\<close>, \<open>router.cc\<close>).
  \<^item> \<open>Address\<close>, \<open>File_Descriptor\<close>, \<open>Event_Loop\<close> (\<open>util/address.cc\<close>, \<open>file_descriptor.cc\<close>,
    \<open>socket.cc\<close>, \<open>eventloop.cc\<close>): the layer above the kernel.
  \<^item> \<open>TCP_Adapters\<close> (\<open>tcp_helpers/tcp_over_ip.cc\<close>, \<open>fd_adapter.cc\<close>, \<open>lossy_fd_adapter.hh\<close>,
    \<open>tuntap_adapter.cc\<close>), \<open>TCP_Socket\<close> and \<open>Socket_Thread\<close> (\<open>tcp_sponge_socket.cc\<close>).
  \<^item> \<open>Stream_Copy\<close> (\<open>apps/bidirectional_stream_copy.cc\<close>), \<open>Network_Simulator\<close>
    (\<open>apps/network_simulator.cc\<close>) with the proofs in \<open>Simulated_Link\<close>, \<open>Simulated_Network\<close>,
    \<open>Simulated_Scenarios\<close> and \<open>Simulated_Run\<close>.
  \<^item> \<open>TCP_Transfer\<close>: two connections with a network between them.

  A class is a record and a method a function on it that returns the new record; a derived class
  extends the record. \<open>size_t\<close> and the \<open>uint\<close> types are words of the same width, so that every sum
  wraps as in C++. An exception is \<open>Inl e\<close>, or \<open>Some e\<close> where the method returns nothing, beside
  the state at the throw; what C++ leaves undefined is the exception \<open>Undefined\<close> or, in the
  connection, the result \<open>None\<close>.

  \<^bold>\<open>Parameters\<close>

  Code outside the repository is an argument of the definitions: the kernel (\<open>'k Syscalls\<close>, a
  record of the system calls as functions on the kernel's state), the random generator of the
  simulator and of the lossy adapter, the random initial sequence number and port, the value
  \<open>shr32\<close> of a shift by the full width, and the uninitialised frame \<open>frame0\<close>. Theorems hold for all
  values of them. The theorem on \<open>FileDescriptor::write\<close> alone asks that \<open>writev\<close> behaves as
  documented (\<open>writev_appends\<close>).

  \<^bold>\<open>What is shown\<close>

  \<^item> Streams. The ring buffer refines a bounded queue: every call on it has the answer of the queue
    (locale \<open>byte_fifo\<close>). The reassembler refines a set of received positions, and its output is a
    prefix of the stream in every run in which no empty substring is pushed ahead of the head
    (\<open>valid_push\<close>). The receiver has the same guarantee over sequence numbers for segments that are
    \<open>valid_segment\<close>, and \<open>unwrap\<close> is the inverse of \<open>wrap\<close> nearest to the checkpoint. Four
    properties show, for all states of a kind, that these guards are needed: an empty substring ahead of
    the head repeats bytes or, as the last one, ends the stream; so does a FIN that overtakes data on
    a connection; and a second SYN with the stream and FIN truncates it.
  \<^item> Wire formats. Every message parses back to what was serialized (locale \<open>codec\<close>), the parsers
    report errors on exactly the stated inputs, and the checksum verifies and detects.
  \<^item> Sender and connection. Filling the window terminates with the stated segments, flags included;
    acknowledgements remove what they cover; the timer backs off unless the window is closed, and
    repeated acknowledgments of a closed window let the stream out byte by byte; the connection keeps its
    invariant under all calls (locale \<open>invariant_system\<close>), the handshake works and a connection
    that is not answered gives up.
  \<^item> \<open>TCP_delivers_prefix\<close>: over a network that loses, repeats, delays and reorders segments, the
    reader of one connection gets a prefix of what the other wrote, and all of it at its end. The
    stream is shorter than \<open>2 ^ 31 - 5\<close> bytes, so that each sequence number is nearer to the
    checkpoint than half the number space; the guard \<open>in_sequence\<close> leaves out the segments without
    bytes that reach the receiver ahead of its stream, for which the reassembler is wrong.
  \<^item> Interfaces and routing. A datagram reaches the neighbour through ARP, requests for one address are at
    least five seconds apart and possible again after that, the router takes the longest prefix and its routing refines forwarding of each datagram.
    \<open>network_simulator_succeeds\<close>: the program's scenarios all pass, for every generator whose
    Ethernet addresses differ within a link.
  \<^item> The socket. \<open>datagram_adapter\<close> is the contract of an adapter, kept by all adapters of the
    sources; \<open>event_rules\<close> is what rules promise the event loop, kept by the rules of the socket
    and of the stream copy. So no turn of a loop traps or waits busily. The stream copy
    writes what it read, in order.

  \<^bold>\<open>Bounds and termination\<close>

  There is no fuel. Loops are structural recursion, or \<open>function\<close> with a measure (\<open>fill_window\<close>:
  what is left of the window; \<open>write\<close>: the bytes left; \<open>route\<close>: the queue). The loops of a thread may
  run for ever: \<open>tcp_loop\<close> and \<open>copy_loop\<close> are partial functions whose value \<open>None\<close> means so, and
  their theorems are about every turn and every return. Capacities are below \<open>2 ^ 63\<close> where a sum of
  two of them must not wrap.

  \<^bold>\<open>Not modelled\<close>

  Name resolution and \<open>sockaddr\<close> structures, which only repack what the C library returns; the calls
  that make and configure sockets and TUN devices, which are single system calls; starting and
  joining threads, whose interleavings appear as steps of the environment instead; hexadecimal
  dumps and what the programs print; the command-line programs, which parse arguments and call the
  library, the packet capture of \<open>udp_tcpdump\<close> and \<open>webget\<close>, which drive system calls.
\<close>

end
